(* ===== verification/Prelude.thy ===== *)
theory Prelude
  imports Complex_Main "HOL-Library.Word"
begin

text \<open>
  Shared vocabulary of the development: the machine integers of the router (release
  build, so arithmetic wraps), the clock, byte strings, and the generic list and word
  lemmas that the component theories use. The collections \<open>router_defs\<close> and
  \<open>frame_simps\<close> gather, respectively, the definitions a component proof unfolds and the
  facts that say which fields an operation leaves alone.
\<close>

named_theorems router_defs \<open>definitions unfolded by component proofs\<close>
named_theorems frame_simps \<open>fields that an operation leaves unchanged\<close>

section \<open>Machine integers\<close>

text \<open>
  \<open>u64\<close>, \<open>u32\<close> and the 64-bit \<open>usize\<close>. The image is built with
  \<^verbatim>\<open>cargo build --release\<close> (deploy/Dockerfile.router), where \<open>+\<close>, \<open>-\<close> and
  \<open>sum\<close> wrap, and atomic \<open>fetch_add\<close>/\<open>fetch_sub\<close> always wrap.
\<close>

type_synonym u64 = "64 word"
type_synonym u32 = "32 word"
type_synonym u16 = "16 word"
type_synonym usize = "64 word"

lemma unat_Suc_no_wrap [simp]:
  fixes x :: u64
  assumes "unat x < 2 ^ 64 - 1"
  shows "unat (x + 1) = Suc (unat x)"
  using assms by (simp add: unat_word_ariths)

lemma unat_pred_pos [simp]:
  fixes x :: u64
  assumes "0 < unat x"
  shows "unat (x - 1) = unat x - 1"
  using assms by (simp add: unat_minus_one unat_gt_0 word_neq_0_conv)

lemma unat_lt_2p64 [simp]: "unat (x :: u64) < 18446744073709551616"
  using unsigned_less [of x] by simp

lemma unat_u64_le: "unat (x :: u64) \<le> 2 ^ 64 - 1"
  using unat_lt_2p64 [of x] by (simp del: unat_lt_2p64)

lemma unat_u64_max: "unat (- 1 :: u64) = 2 ^ 64 - 1"
  by (simp add: unsigned_minus_1_eq_mask mask_eq_exp_minus_1)

lemma unat_u32_less: "unat (x :: u32) < 2 ^ 32"
  using unsigned_less [of x] by simp

lemma word_of_unat: "of_nat (unat x) = x"
  by simp

lemma unat_of_nat_u64: "n < 2 ^ 64 \<Longrightarrow> unat (of_nat n :: u64) = n"
  by (simp add: unsigned_of_nat take_bit_nat_eq_self)

lemma max_1_pos [simp]: "0 < max x (1 :: u64)"
proof -
  have "(0 :: u64) < 1" by simp
  also have "1 \<le> max x 1" by simp
  finally show ?thesis .
qed

lemma unat_max_1_pos [simp]: "0 < unat (max x (1 :: u64))"
  using max_1_pos [of x] by (simp add: word_less_nat_alt)

section \<open>Time\<close>

text \<open>
  An \<open>Instant\<close> and a \<open>Duration\<close> are numbers of nanoseconds. Truncating subtraction on
  \<open>nat\<close> is \<open>saturating_duration_since\<close>, and also \<open>Instant - Instant\<close>, which saturates.
\<close>

type_synonym instant = nat
type_synonym duration = nat

definition saturating_duration_since :: "instant \<Rightarrow> instant \<Rightarrow> duration" where
  "saturating_duration_since a b = a - b"

definition from_secs :: "nat \<Rightarrow> duration" where
  "from_secs s = s * 1000000000"

definition as_secs :: "duration \<Rightarrow> nat" where
  "as_secs d = d div 1000000000"

definition as_micros :: "duration \<Rightarrow> nat" where
  "as_micros d = d div 1000"

lemma from_secs_0 [simp]: "from_secs 0 = 0"
  by (simp add: from_secs_def)

lemma as_secs_from_secs [simp]: "as_secs (from_secs s) = s"
  by (simp add: as_secs_def from_secs_def)

lemma as_secs_mono: "a \<le> b \<Longrightarrow> as_secs a \<le> as_secs b"
  by (simp add: as_secs_def div_le_mono)

lemma from_secs_as_secs_le: "from_secs (as_secs d) \<le> d"
  by (simp add: from_secs_def as_secs_def)

lemma as_secs_add_from_secs [simp]: "as_secs (from_secs s + d) = s + as_secs d"
  by (simp add: as_secs_def from_secs_def)

section \<open>HTTP status codes\<close>

text \<open>A \<open>StatusCode\<close> is its number; the classes are the hundreds, as in RFC 9110.\<close>

type_synonym status = nat

definition is_success :: "status \<Rightarrow> bool" where
  "is_success s \<longleftrightarrow> 200 \<le> s \<and> s < 300"

definition is_server_error :: "status \<Rightarrow> bool" where
  "is_server_error s \<longleftrightarrow> 500 \<le> s \<and> s < 600"

lemma success_not_server_error: "is_success s \<Longrightarrow> \<not> is_server_error s"
  by (simp add: is_success_def is_server_error_def)

section \<open>Decimal numbers\<close>

text \<open>Decimal digits, as \<open>format!\<close> and \<open>to_string\<close> print an unsigned integer.\<close>

fun show_nat :: "nat \<Rightarrow> string" where
  "show_nat n =
     (if n < 10 then [char_of (48 + n)] else show_nat (n div 10) @ [char_of (48 + n mod 10)])"

declare show_nat.simps [simp del]

section \<open>Options\<close>

definition the_default :: "'a \<Rightarrow> 'a option \<Rightarrow> 'a" where
  "the_default d x = (case x of Some v \<Rightarrow> v | None \<Rightarrow> d)"

section \<open>Lists\<close>

lemma find_Some_iff_set: "find P xs = Some x \<Longrightarrow> x \<in> set xs \<and> P x"
  by (induction xs) (auto split: if_splits)

lemma find_eq_None: "find P xs = None \<longleftrightarrow> (\<forall>x \<in> set xs. \<not> P x)"
  by (induction xs) auto

lemma sum_list_upd:
  fixes f :: "'a \<Rightarrow> 'b::ab_group_add"
  assumes "i < length xs"
  shows "sum_list (map f (xs[i := v])) = sum_list (map f xs) - f (xs ! i) + f v"
  using assms
proof (induction xs arbitrary: i)
  case (Cons x xs)
  then show ?case by (cases i) (auto simp: algebra_simps)
qed simp

lemma sum_list_map_add:
  fixes f g :: "'a \<Rightarrow> 'b::comm_monoid_add"
  shows "sum_list (map (\<lambda>x. f x + g x) xs) = sum_list (map f xs) + sum_list (map g xs)"
  by (induction xs) (auto simp: algebra_simps)

end
