(* ===== verification/F64.thy ===== *)
theory F64
  imports Prelude
begin

text \<open>
  IEEE-754 binary64 as the router uses it. A finite value is the rational number it denotes
  (the two zeros are one value: no operation of the router tells them apart), and every
  arithmetic operation is the exact rational operation followed by rounding to nearest, ties
  to even, with subnormals and overflow to infinity. The theory provides the rounding
  function, the arithmetic, the comparisons, the \<open>as\<close> conversions from and to \<open>u64\<close>, and
  the two laws the component proofs rest on: rounding is monotone and leaves representable
  numbers alone (locale \<open>faithful_rounding\<close>).
\<close>

section \<open>Rounding\<close>

text \<open>Nearest integer, ties to even.\<close>

definition rne :: "rat \<Rightarrow> int" where
  "rne x = (let f = \<lfloor>x\<rfloor>; d = x - of_int f in
     if d < 1/2 then f else if 1/2 < d then f + 1 else if even f then f else f + 1)"

text \<open>Number of binary digits.\<close>

fun bits :: "nat \<Rightarrow> nat" where
  "bits n = (if n = 0 then 0 else Suc (bits (n div 2)))"

declare bits.simps [simp del]

text \<open>The exponent \<open>e\<close> with \<open>2 powi e \<le> x < 2 powi (e + 1)\<close>, for a positive \<open>x\<close>.\<close>

definition ilog2 :: "rat \<Rightarrow> int" where
  "ilog2 x = (let (p, q) = quotient_of x; k = int (bits (nat p)) - int (bits (nat q)) in
     if 2 powi k \<le> x then k else k - 1)"

text \<open>Weight of the last place: 53 significant bits, never below the smallest subnormal.\<close>

definition ulp_exp :: "rat \<Rightarrow> int" where
  "ulp_exp x = max (ilog2 x - 52) (- 1074)"

definition rnd_pos :: "rat \<Rightarrow> rat" where
  "rnd_pos x = of_int (rne (x / 2 powi ulp_exp x)) * 2 powi ulp_exp x"

definition rnd :: "rat \<Rightarrow> rat" where
  "rnd x = (if x = 0 then 0 else if 0 < x then rnd_pos x else - rnd_pos (- x))"

text \<open>The numbers with at most 53 significant bits on the binary64 grid.\<close>

definition representable :: "rat \<Rightarrow> bool" where
  "representable x \<longleftrightarrow> (\<exists>m e. x = of_int m * 2 powi e \<and> \<bar>m\<bar> \<le> 2 ^ 53 \<and> - 1074 \<le> e)"

section \<open>Properties of rounding\<close>

lemma rne_bounds: "of_int (rne x) \<le> x + 1/2" "x - 1/2 \<le> of_int (rne x)"
  by (auto simp: rne_def Let_def) linarith+

lemma rne_of_int [simp]: "rne (of_int n) = n"
  by (simp add: rne_def)

lemma rne_mono:
  assumes "x \<le> y"
  shows "rne x \<le> rne y"
proof (cases "\<lfloor>x\<rfloor> = \<lfloor>y\<rfloor>")
  case True
  with assms show ?thesis by (auto simp: rne_def Let_def)
next
  case False
  then have "\<lfloor>x\<rfloor> + 1 \<le> \<lfloor>y\<rfloor>"
    using floor_mono [OF assms] by linarith
  moreover have "rne x \<le> \<lfloor>x\<rfloor> + 1" and "\<lfloor>y\<rfloor> \<le> rne y"
    by (auto simp: rne_def Let_def)
  ultimately show ?thesis by linarith
qed

lemma bits_bounds: "0 < n \<Longrightarrow> 2 ^ (bits n - 1) \<le> n \<and> n < 2 ^ bits n \<and> 0 < bits n"
proof (induction n rule: bits.induct)
  case (1 n)
  show ?case
  proof (cases "n = 1")
    case True
    then show ?thesis by (simp add: bits.simps [of "Suc 0"] bits.simps [of 0])
  next
    case False
    with 1 have IH: "2 ^ (bits (n div 2) - 1) \<le> n div 2" "n div 2 < 2 ^ bits (n div 2)"
        "0 < bits (n div 2)"
      by auto
    then have "2 * 2 ^ (bits (n div 2) - 1) = (2::nat) ^ bits (n div 2)"
      by (metis Suc_pred' power_Suc)
    moreover have "2 * (n div 2) \<le> n" "n < 2 * (n div 2) + 2" by simp_all
    ultimately have "2 ^ bits (n div 2) \<le> n" "n < 2 * 2 ^ bits (n div 2)"
      using IH by linarith+
    with 1 show ?thesis by (auto simp: bits.simps [of n])
  qed
qed

lemma powi_le_iff: "(2::rat) powi a \<le> 2 powi b \<longleftrightarrow> a \<le> b"
  by (meson dual_order.strict_trans2 leI one_le_numeral one_less_numeral_iff
      power_int_increasing power_int_strict_increasing not_le semiring_norm(76))

lemma powi_less_iff: "(2::rat) powi a < 2 powi b \<longleftrightarrow> a < b"
  using powi_le_iff [of b a] by linarith

lemma powi_pos [simp]: "0 < (2::rat) powi a"
  by simp

lemma powi_Suc: "(2::rat) powi (a + 1) = 2 * 2 powi a"
  by (simp add: power_int_add_1)

lemma rat_quotient_bits:
  assumes "0 < p" "0 < q"
  defines "k \<equiv> int (bits p) - int (bits q)"
  shows "2 powi (k - 1) \<le> (of_nat p / of_nat q :: rat)"
    and "(of_nat p / of_nat q :: rat) < 2 powi (k + 1)"
proof -
  note bp = bits_bounds [OF assms(1)] and bq = bits_bounds [OF assms(2)]
  have powr: "(2::rat) powi (int (bits p) - 1) = 2 ^ (bits p - 1)"
    "(2::rat) powi (int (bits q) - 1) = 2 ^ (bits q - 1)"
    using bp bq by (auto simp: power_int_def nat_diff_distrib)
  have p1: "2 powi (int (bits p) - 1) \<le> (of_nat p :: rat)" and p2: "(of_nat p :: rat) < 2 powi int (bits p)"
    using bp unfolding powr
    by (metis of_nat_le_iff of_nat_numeral of_nat_power) (metis bp of_nat_less_iff of_nat_numeral of_nat_power power_int_of_nat)
  have q1: "2 powi (int (bits q) - 1) \<le> (of_nat q :: rat)" and q2: "(of_nat q :: rat) < 2 powi int (bits q)"
    using bq unfolding powr
    by (metis of_nat_le_iff of_nat_numeral of_nat_power) (metis bq of_nat_less_iff of_nat_numeral of_nat_power power_int_of_nat)
  have qpos: "0 < (of_nat q :: rat)" using assms(2) by simp
  have "2 powi (k - 1) = (2::rat) powi (int (bits p) - 1) / 2 powi int (bits q)"
    unfolding k_def using power_int_diff [of "2::rat" "int (bits p) - 1" "int (bits q)"]
    by (simp add: algebra_simps)
  also have "\<dots> \<le> of_nat p / of_nat q"
    using p1 q2 qpos by (intro frac_le) auto
  finally show "2 powi (k - 1) \<le> (of_nat p / of_nat q :: rat)" .
  have "(of_nat p / of_nat q :: rat) < 2 powi int (bits p) / 2 powi (int (bits q) - 1)"
    using p2 q1 qpos by (intro frac_less) auto
  also have "\<dots> = 2 powi (k + 1)"
    unfolding k_def using power_int_diff [of "2::rat" "int (bits p)" "int (bits q) - 1"]
    by (simp add: algebra_simps)
  finally show "(of_nat p / of_nat q :: rat) < 2 powi (k + 1)" .
qed

lemma ilog2_bounds:
  assumes "0 < x"
  shows "2 powi ilog2 x \<le> x" and "x < 2 powi (ilog2 x + 1)"
proof -
  obtain p q where pq: "quotient_of x = (p, q)" by fastforce
  have q: "0 < q" using pq by (rule quotient_of_denom_pos)
  have x: "x = of_int p / of_int q" using pq by (rule quotient_of_div)
  with assms q have p: "0 < p" by (simp add: zero_less_divide_iff)
  define P Q where "P = nat p" and "Q = nat q"
  have PQ: "0 < P" "0 < Q" "x = of_nat P / of_nat Q" using p q x by (auto simp: P_def Q_def)
  note b = rat_quotient_bits [OF PQ(1,2), folded PQ(3)]
  define k where "k = int (bits P) - int (bits Q)"
  have il: "ilog2 x = (if 2 powi k \<le> x then k else k - 1)"
    by (simp add: ilog2_def pq k_def P_def Q_def)
  show "2 powi ilog2 x \<le> x" and "x < 2 powi (ilog2 x + 1)"
    using b unfolding il k_def [symmetric] by auto
qed

lemma ilog2_unique:
  assumes "2 powi k \<le> x" "x < 2 powi (k + 1)"
  shows "ilog2 x = k"
proof -
  have "0 < x" using assms(1) powi_pos [of k] by linarith
  note b = ilog2_bounds [OF this]
  have "2 powi k < (2::rat) powi (ilog2 x + 1)" "2 powi ilog2 x < (2::rat) powi (k + 1)"
    using assms b by linarith+
  then show ?thesis by (simp add: powi_less_iff)
qed

lemma ilog2_mono: "0 < x \<Longrightarrow> x \<le> y \<Longrightarrow> ilog2 x \<le> ilog2 y"
proof -
  assume "0 < x" "x \<le> y"
  then have "2 powi ilog2 x < (2::rat) powi (ilog2 y + 1)"
    using ilog2_bounds(1) [of x] ilog2_bounds(2) [of y] by linarith
  then show ?thesis by (simp add: powi_less_iff)
qed

lemma ulp_exp_mono: "0 < x \<Longrightarrow> x \<le> y \<Longrightarrow> ulp_exp x \<le> ulp_exp y"
  using ilog2_mono [of x y] by (simp add: ulp_exp_def)

lemma rnd_pos_grid:
  assumes "0 < x"
  shows "0 \<le> rne (x / 2 powi ulp_exp x)" and "rne (x / 2 powi ulp_exp x) \<le> 2 ^ 53"
proof -
  let ?e = "ulp_exp x"
  have "x < 2 powi (ilog2 x + 1)" by (rule ilog2_bounds(2) [OF assms])
  also have "\<dots> \<le> 2 powi (53 + ?e)" by (simp add: powi_le_iff ulp_exp_def)
  also have "\<dots> = 2 ^ 53 * 2 powi ?e" by (simp add: power_int_add)
  finally have "x / 2 powi ?e \<le> of_int (2 ^ 53)" by (simp add: field_simps)
  then have "rne (x / 2 powi ?e) \<le> rne (of_int (2 ^ 53))" by (rule rne_mono)
  then show "rne (x / 2 powi ?e) \<le> 2 ^ 53" unfolding rne_of_int .
  have "of_int 0 \<le> x / 2 powi ?e" using assms by simp
  from rne_mono [OF this] show "0 \<le> rne (x / 2 powi ?e)" by (simp only: rne_of_int)
qed

lemma rnd_pos_ge_power:
  assumes "0 < y" "- 1074 < ulp_exp y"
  shows "2 powi (52 + ulp_exp y) \<le> rnd_pos y"
proof -
  let ?e = "ulp_exp y"
  have e: "?e = ilog2 y - 52" using assms(2) by (simp add: ulp_exp_def max_def split: if_splits)
  have "2 powi (52 + ?e) \<le> y" using ilog2_bounds(1) [OF assms(1)] e by simp
  then have "of_int (2 ^ 52) \<le> y / 2 powi ?e" by (simp add: power_int_add field_simps)
  from rne_mono [OF this] have "2 ^ 52 \<le> rne (y / 2 powi ?e)" by (simp only: rne_of_int)
  then have "(2 ^ 52 :: rat) \<le> of_int (rne (y / 2 powi ?e))"
    by (metis of_int_le_iff of_int_numeral of_int_power)
  then show ?thesis by (simp add: rnd_pos_def power_int_add)
qed

lemma rnd_pos_le_power:
  assumes "0 < x"
  shows "rnd_pos x \<le> 2 powi (53 + ulp_exp x)"
proof -
  have "(of_int (rne (x / 2 powi ulp_exp x)) :: rat) \<le> 2 ^ 53"
    using rnd_pos_grid(2) [OF assms] by (metis of_int_le_iff of_int_numeral of_int_power)
  then show ?thesis by (simp add: rnd_pos_def power_int_add)
qed

lemma rnd_pos_nonneg: "0 < x \<Longrightarrow> 0 \<le> rnd_pos x"
  using rnd_pos_grid(1) [of x] by (simp add: rnd_pos_def)

lemma rnd_pos_mono:
  assumes "0 < x" "x \<le> y"
  shows "rnd_pos x \<le> rnd_pos y"
proof (cases "ulp_exp x = ulp_exp y")
  case True
  have "x / 2 powi ulp_exp y \<le> y / 2 powi ulp_exp y"
    using assms(2) by (simp add: divide_right_mono)
  then have "rne (x / 2 powi ulp_exp y) \<le> rne (y / 2 powi ulp_exp y)" by (rule rne_mono)
  with True show ?thesis by (simp add: rnd_pos_def)
next
  case False
  with ulp_exp_mono [OF assms] have less: "ulp_exp x < ulp_exp y" by simp
  moreover have "- 1074 \<le> ulp_exp x" by (simp add: ulp_exp_def)
  ultimately have y: "- 1074 < ulp_exp y" by simp
  have "rnd_pos x \<le> 2 powi (53 + ulp_exp x)" by (rule rnd_pos_le_power [OF assms(1)])
  also have "\<dots> \<le> 2 powi (52 + ulp_exp y)" using less by (simp add: powi_le_iff)
  also have "\<dots> \<le> rnd_pos y" using assms y by (intro rnd_pos_ge_power) auto
  finally show ?thesis .
qed

lemma rnd_0 [simp]: "rnd 0 = 0"
  by (simp add: rnd_def)

lemma rnd_minus: "rnd (- x) = - rnd x"
  by (simp add: rnd_def)

lemma rnd_mono:
  assumes "x \<le> y"
  shows "rnd x \<le> rnd y"
proof -
  consider "0 < x" | "x \<le> 0" "0 \<le> y" | "y < 0" using assms by linarith
  then show ?thesis
  proof cases
    case 1
    with assms show ?thesis by (simp add: rnd_def rnd_pos_mono)
  next
    case 2
    then have "rnd x \<le> 0" "0 \<le> rnd y"
      using rnd_pos_nonneg [of "- x"] rnd_pos_nonneg [of y] by (auto simp: rnd_def)
    then show ?thesis by simp
  next
    case 3
    with assms show ?thesis by (simp add: rnd_def rnd_pos_mono)
  qed
qed

lemma rnd_pos_exact:
  assumes "0 < x" "x = of_int m * 2 powi e" "m \<le> 2 ^ 53" "- 1074 \<le> e"
  shows "rnd_pos x = x"
proof -
  let ?u = "ulp_exp x"
  have "\<exists>n. x / 2 powi ?u = of_int n"
  proof (cases "?u \<le> e")
    case True
    then have "x / 2 powi ?u = of_int m * 2 powi (e - ?u)"
      using assms(2) by (simp add: power_int_diff)
    also have "\<dots> = of_int (m * 2 ^ nat (e - ?u))"
      using True by (simp add: power_int_def)
    finally show ?thesis by blast
  next
    case False
    with assms(4) have u: "?u = ilog2 x - 52" by (simp add: ulp_exp_def max_def split: if_splits)
    have le: "x \<le> 2 ^ 53 * 2 powi e"
      using assms(2,3) by (metis mult_right_mono of_int_le_iff of_int_numeral of_int_power
          less_imp_le powi_pos)
    then have "x \<le> 2 powi (53 + e)" by (simp add: power_int_add)
    with ilog2_bounds(1) [OF assms(1)] have "2 powi ilog2 x \<le> (2::rat) powi (53 + e)" by linarith
    then have "ilog2 x \<le> 53 + e" by (simp add: powi_le_iff)
    with False u have eq: "ilog2 x = 53 + e" "?u = e + 1" by simp_all
    with ilog2_bounds(1) [OF assms(1)] \<open>x \<le> 2 powi (53 + e)\<close> have "x = 2 powi (53 + e)" by simp
    then have "x / 2 powi ?u = 2 powi (52 :: int)"
      unfolding eq(2) by (simp flip: power_int_diff)
    also have "\<dots> = of_int (2 ^ 52)" by simp
    finally show ?thesis by blast
  qed
  then obtain n where n: "x / 2 powi ?u = of_int n" by blast
  then have "x = of_int n * 2 powi ?u" by (simp add: field_simps)
  with n show ?thesis by (simp add: rnd_pos_def)
qed

lemma rnd_representable: "representable x \<Longrightarrow> rnd x = x"
proof -
  assume "representable x"
  then obtain m e where x: "x = of_int m * 2 powi e" "\<bar>m\<bar> \<le> 2 ^ 53" "- 1074 \<le> e"
    by (auto simp: representable_def)
  then have "- x = of_int (- m) * 2 powi e" "m \<le> 2 ^ 53" "- m \<le> 2 ^ 53" by auto
  note exact = rnd_pos_exact [OF _ x(1) \<open>m \<le> 2 ^ 53\<close> x(3)]
    rnd_pos_exact [OF _ \<open>- x = of_int (- m) * 2 powi e\<close> \<open>- m \<le> 2 ^ 53\<close> x(3)]
  consider "x = 0" | "0 < x" | "0 < - x" by linarith
  then show ?thesis by cases (use exact in \<open>auto simp: rnd_def\<close>)
qed

lemma representable_of_int: "\<bar>n\<bar> \<le> 2 ^ 53 \<Longrightarrow> representable (of_int n)"
  unfolding representable_def by (intro exI [of _ n] exI [of _ 0]) simp

lemma representable_of_nat: "n \<le> 2 ^ 53 \<Longrightarrow> representable (of_nat n)"
  using representable_of_int [of "int n"] by simp

lemma representable_rnd_pos: "0 < x \<Longrightarrow> representable (rnd_pos x)"
  unfolding representable_def rnd_pos_def
  using rnd_pos_grid [of x]
  by (intro exI [of _ "rne (x / 2 powi ulp_exp x)"] exI [of _ "ulp_exp x"])
     (auto simp: ulp_exp_def)

lemma representable_minus: "representable x \<Longrightarrow> representable (- x)"
  unfolding representable_def
proof (elim exE conjE)
  fix m e
  assume "x = of_int m * 2 powi e" "\<bar>m\<bar> \<le> 2 ^ 53" "- 1074 \<le> e"
  then have "- x = of_int (- m) * 2 powi e \<and> \<bar>- m\<bar> \<le> 2 ^ 53 \<and> - 1074 \<le> e" by simp
  then show "\<exists>m e. - x = of_int m * 2 powi e \<and> \<bar>m\<bar> \<le> 2 ^ 53 \<and> - 1074 \<le> e" by blast
qed

lemma representable_0: "representable 0"
  using representable_of_int [of 0] by simp

lemma representable_rnd: "representable (rnd x)"
  by (auto simp: rnd_def representable_0 representable_rnd_pos intro: representable_minus)

text \<open>
  What the router relies on from rounding, as an interface: monotone, exact on the
  representable numbers. A comparison with a representable bound then survives rounding.
\<close>

locale faithful_rounding =
  fixes round_to :: "rat \<Rightarrow> rat" and repr :: "rat \<Rightarrow> bool"
  assumes mono: "x \<le> y \<Longrightarrow> round_to x \<le> round_to y"
    and exact: "repr x \<Longrightarrow> round_to x = x"
begin

lemma lower: "repr t \<Longrightarrow> t \<le> x \<Longrightarrow> t \<le> round_to x"
  using mono [of t x] exact [of t] by simp

lemma upper: "repr t \<Longrightarrow> x \<le> t \<Longrightarrow> round_to x \<le> t"
  using mono [of x t] exact [of t] by simp

lemma below: "repr t \<Longrightarrow> round_to x < t \<Longrightarrow> x < t"
  using lower [of t x] by (meson leD not_le)

lemma above: "repr t \<Longrightarrow> t < round_to x \<Longrightarrow> t < x"
  using upper [of t x] by (meson leD not_le)

end

interpretation b64: faithful_rounding rnd representable
  by unfold_locales (auto intro: rnd_mono rnd_representable)

lemma rnd_of_nat: "n \<le> 2 ^ 53 \<Longrightarrow> rnd (of_nat n) = of_nat n"
  by (rule b64.exact [OF representable_of_nat])

lemma rnd_nonneg: "0 \<le> x \<Longrightarrow> 0 \<le> rnd x"
  by (rule b64.lower [OF representable_0])

section \<open>Values and arithmetic\<close>

datatype f64 = Fin rat | PInf | NInf | NaN

text \<open>Round, and overflow to an infinity beyond the largest finite value.\<close>

definition overflow_limit :: rat where
  "overflow_limit = 2 ^ 1024"

definition to_f64 :: "rat \<Rightarrow> f64" where
  "to_f64 x =
     (let r = rnd x in
      if overflow_limit \<le> r then PInf else if r \<le> - overflow_limit then NInf else Fin r)"

fun neg_f64 :: "f64 \<Rightarrow> f64" where
  "neg_f64 (Fin x) = Fin (- x)"
| "neg_f64 PInf = NInf"
| "neg_f64 NInf = PInf"
| "neg_f64 NaN = NaN"

fun add_f64 :: "f64 \<Rightarrow> f64 \<Rightarrow> f64" where
  "add_f64 (Fin x) (Fin y) = to_f64 (x + y)"
| "add_f64 NaN _ = NaN"
| "add_f64 _ NaN = NaN"
| "add_f64 PInf NInf = NaN"
| "add_f64 NInf PInf = NaN"
| "add_f64 PInf _ = PInf"
| "add_f64 _ PInf = PInf"
| "add_f64 NInf _ = NInf"
| "add_f64 _ NInf = NInf"

definition sub_f64 :: "f64 \<Rightarrow> f64 \<Rightarrow> f64" where
  "sub_f64 x y = add_f64 x (neg_f64 y)"

definition inf_sgn :: "rat \<Rightarrow> f64" where
  "inf_sgn s = (if s = 0 then NaN else if 0 < s then PInf else NInf)"

fun mul_f64 :: "f64 \<Rightarrow> f64 \<Rightarrow> f64" where
  "mul_f64 (Fin x) (Fin y) = to_f64 (x * y)"
| "mul_f64 NaN _ = NaN"
| "mul_f64 _ NaN = NaN"
| "mul_f64 PInf (Fin y) = inf_sgn y"
| "mul_f64 (Fin x) PInf = inf_sgn x"
| "mul_f64 NInf (Fin y) = inf_sgn (- y)"
| "mul_f64 (Fin x) NInf = inf_sgn (- x)"
| "mul_f64 PInf PInf = PInf"
| "mul_f64 NInf NInf = PInf"
| "mul_f64 _ _ = NInf"

fun div_f64 :: "f64 \<Rightarrow> f64 \<Rightarrow> f64" where
  "div_f64 (Fin x) (Fin y) = (if y = 0 then inf_sgn x else to_f64 (x / y))"
| "div_f64 NaN _ = NaN"
| "div_f64 _ NaN = NaN"
| "div_f64 PInf (Fin y) = (if 0 \<le> y then PInf else NInf)"
| "div_f64 NInf (Fin y) = (if 0 \<le> y then NInf else PInf)"
| "div_f64 (Fin x) _ = Fin 0"
| "div_f64 _ _ = NaN"

fun le_f64 :: "f64 \<Rightarrow> f64 \<Rightarrow> bool" where
  "le_f64 (Fin x) (Fin y) = (x \<le> y)"
| "le_f64 NaN _ = False"
| "le_f64 _ NaN = False"
| "le_f64 NInf _ = True"
| "le_f64 _ PInf = True"
| "le_f64 _ _ = False"

definition lt_f64 :: "f64 \<Rightarrow> f64 \<Rightarrow> bool" where
  "lt_f64 x y \<longleftrightarrow> le_f64 x y \<and> \<not> le_f64 y x"

fun is_finite_f64 :: "f64 \<Rightarrow> bool" where
  "is_finite_f64 (Fin _) = True"
| "is_finite_f64 _ = False"

text \<open>\<open>f64::max\<close>/\<open>f64::min\<close> return the other operand when one is NaN; \<open>clamp\<close> keeps NaN.\<close>

definition max_f64 :: "f64 \<Rightarrow> f64 \<Rightarrow> f64" where
  "max_f64 x y = (if x = NaN then y else if y = NaN then x else if le_f64 x y then y else x)"

definition min_f64 :: "f64 \<Rightarrow> f64 \<Rightarrow> f64" where
  "min_f64 x y = (if x = NaN then y else if y = NaN then x else if le_f64 x y then x else y)"

definition clamp_f64 :: "f64 \<Rightarrow> f64 \<Rightarrow> f64 \<Rightarrow> f64" where
  "clamp_f64 x lo hi = (if lt_f64 x lo then lo else if lt_f64 hi x then hi else x)"

text \<open>\<open>as f64\<close> rounds; \<open>as u64\<close> truncates towards zero and saturates, NaN becomes 0.\<close>

definition f64_of_nat :: "nat \<Rightarrow> f64" where
  "f64_of_nat n = to_f64 (of_nat n)"

definition f64_of_u64 :: "u64 \<Rightarrow> f64" where
  "f64_of_u64 n = f64_of_nat (unat n)"

fun u64_of_f64 :: "f64 \<Rightarrow> u64" where
  "u64_of_f64 (Fin x) = (if x \<le> 0 then 0 else if 2 ^ 64 \<le> x then - 1 else of_int \<lfloor>x\<rfloor>)"
| "u64_of_f64 PInf = - 1"
| "u64_of_f64 NInf = 0"
| "u64_of_f64 NaN = 0"

section \<open>Conversions without overflow\<close>

lemma representable_powi: "- 1074 \<le> e \<Longrightarrow> representable (2 powi e)"
  unfolding representable_def by (intro exI [of _ 1] exI [of _ e]) simp

lemma representable_pow: "representable (2 ^ n)"
  using representable_powi [of "int n"] by simp

text \<open>Every number the router computes with stays far below the overflow limit.\<close>

definition safe_bound :: rat where
  "safe_bound = 2 ^ 128"

lemma safe_bound_less: "safe_bound < overflow_limit"
  unfolding safe_bound_def overflow_limit_def by (rule power_strict_increasing) simp_all

lemma representable_safe_bound: "representable safe_bound"
  unfolding safe_bound_def by (rule representable_pow)

lemma to_f64_small:
  assumes "\<bar>x\<bar> \<le> safe_bound"
  shows "to_f64 x = Fin (rnd x)"
proof -
  have "x \<le> safe_bound" "- safe_bound \<le> x" using assms by auto
  then have "rnd x \<le> safe_bound" "- safe_bound \<le> rnd x"
    by (auto intro: b64.upper b64.lower representable_safe_bound representable_minus)
  then show ?thesis using safe_bound_less by (simp add: to_f64_def Let_def)
qed

lemma of_nat_le_pow: "n \<le> 2 ^ k \<Longrightarrow> (of_nat n :: rat) \<le> 2 ^ k"
  by (metis of_nat_le_iff of_nat_numeral of_nat_power)

lemma of_nat_le_safe_bound: "n < 2 ^ 64 \<Longrightarrow> (of_nat n :: rat) \<le> safe_bound"
proof -
  assume "n < 2 ^ 64"
  also have "(2 :: nat) ^ 64 \<le> 2 ^ 128" by (rule power_increasing) simp_all
  finally show ?thesis unfolding safe_bound_def by (intro of_nat_le_pow less_imp_le)
qed

lemma f64_of_nat_rnd: "n < 2 ^ 64 \<Longrightarrow> f64_of_nat n = Fin (rnd (of_nat n))"
  unfolding f64_of_nat_def by (rule to_f64_small) (simp add: of_nat_le_safe_bound)

lemma f64_of_u64_rnd: "f64_of_u64 n = Fin (rnd (of_nat (unat n)))"
  unfolding f64_of_u64_def using unsigned_less [of n] by (intro f64_of_nat_rnd) simp

lemma f64_of_nat_exact: "n \<le> 2 ^ 53 \<Longrightarrow> f64_of_nat n = Fin (of_nat n)"
  by (simp add: f64_of_nat_rnd rnd_of_nat)

text \<open>A ratio of two counts: the quotient is rounded once when the counts fit 53 bits.\<close>

lemma ratio_f64:
  assumes "0 < t" "f \<le> t" "t \<le> 2 ^ 53"
  shows "div_f64 (f64_of_nat f) (f64_of_nat t) = Fin (rnd (of_nat f / of_nat t))"
proof -
  have "f \<le> 2 ^ 53" using assms by linarith
  then have eqs: "f64_of_nat f = Fin (of_nat f)" "f64_of_nat t = Fin (of_nat t)"
    using assms by (simp_all add: f64_of_nat_exact)
  have "(of_nat f / of_nat t :: rat) \<le> 1"
    using assms by (simp add: divide_le_eq)
  also have "(1 :: rat) \<le> safe_bound" unfolding safe_bound_def by (rule one_le_power) simp
  finally have "to_f64 (of_nat f / of_nat t) = Fin (rnd (of_nat f / of_nat t))"
    by (intro to_f64_small) simp
  then show ?thesis using assms(1) by (simp add: eqs)
qed

text \<open>Comparing a ratio with one half is exact: no ratio below one half rounds up to it.\<close>

lemma representable_half: "representable (1 / 2)"
  using representable_powi [of "- 1"] by simp

lemma representable_below_half: "representable (1 / 2 - 1 / 2 ^ 54)"
proof -
  have "(1 / 2 - 1 / 2 ^ 54 :: rat) = of_int (2 ^ 53 - 1) * 2 powi (- 54)"
    by (simp add: power_int_minus)
  moreover have "\<bar>2 ^ 53 - 1 :: int\<bar> \<le> 2 ^ 53" "- 1074 \<le> (- 54 :: int)" by simp_all
  ultimately show ?thesis unfolding representable_def by blast
qed

lemma ratio_below_half:
  fixes f t :: nat
  assumes "0 < t" "t \<le> 2 ^ 53" "2 * f < t"
  shows "(of_nat f / of_nat t :: rat) \<le> 1 / 2 - 1 / 2 ^ 54"
proof -
  have T: "0 < (of_nat t :: rat)" "(of_nat t :: rat) \<le> 2 ^ 53"
    using assms(1,2) by (simp, intro of_nat_le_pow)
  have "2 * f + 1 \<le> t" using assms(3) by simp
  then have "(of_nat (2 * f + 1) :: rat) \<le> of_nat t" by (simp only: of_nat_le_iff)
  then have "(of_nat f :: rat) \<le> of_nat t / 2 - 1 / 2" by simp
  then have "(of_nat f / of_nat t :: rat) \<le> (of_nat t / 2 - 1 / 2) / of_nat t"
    using T(1) by (simp add: divide_right_mono)
  also have "\<dots> = 1 / 2 - (1 / 2) / of_nat t" using T(1) by (simp add: field_simps)
  also have "\<dots> \<le> 1 / 2 - (1 / 2) / 2 ^ 53"
    using T by (intro diff_left_mono divide_left_mono) auto
  finally show ?thesis by simp
qed

lemma ratio_half_exact:
  fixes f t :: nat
  assumes "0 < t" "t \<le> 2 ^ 53"
  shows "1 / 2 \<le> rnd (of_nat f / of_nat t) \<longleftrightarrow> t \<le> 2 * f"
proof
  assume "t \<le> 2 * f"
  then have "(of_nat t :: rat) \<le> of_nat (2 * f)" by (simp only: of_nat_le_iff)
  then have "1 / 2 \<le> (of_nat f / of_nat t :: rat)" using assms(1) by (simp add: field_simps)
  then show "1 / 2 \<le> rnd (of_nat f / of_nat t)" by (rule b64.lower [OF representable_half])
next
  assume le: "1 / 2 \<le> rnd (of_nat f / of_nat t)"
  show "t \<le> 2 * f"
  proof (rule ccontr)
    assume "\<not> t \<le> 2 * f"
    then have "rnd (of_nat f / of_nat t) \<le> 1 / 2 - 1 / 2 ^ 54"
      using assms by (intro b64.upper [OF representable_below_half] ratio_below_half) auto
    with le show False by simp
  qed
qed

section \<open>Rounding error\<close>

text \<open>Half a unit in the last place: relative error \<open>2 ^ -53\<close>, plus half the smallest
  subnormal.\<close>

definition half_subnormal :: rat where
  "half_subnormal = 2 powi (- 1075)"

lemma half_subnormal_bounds: "0 < half_subnormal" "half_subnormal \<le> 1 / 2 ^ 60"
proof -
  show "0 < half_subnormal" by (simp add: half_subnormal_def)
  have "half_subnormal \<le> 2 powi (- 60)" unfolding half_subnormal_def by (simp add: powi_le_iff)
  then show "half_subnormal \<le> 1 / 2 ^ 60" by (simp add: power_int_minus inverse_eq_divide)
qed

lemma rnd_pos_error:
  assumes "0 < x"
  shows "\<bar>rnd_pos x - x\<bar> \<le> x / 2 ^ 53 + half_subnormal"
proof -
  let ?u = "2 powi ulp_exp x :: rat"
  have "\<bar>of_int (rne (x / ?u)) - x / ?u\<bar> \<le> 1 / 2"
    using rne_bounds [of "x / ?u"] by linarith
  then have "\<bar>(of_int (rne (x / ?u)) - x / ?u) * ?u\<bar> \<le> 1 / 2 * ?u"
    unfolding abs_mult by (intro mult_mono) auto
  then have "\<bar>rnd_pos x - x\<bar> \<le> ?u / 2"
    by (simp add: rnd_pos_def algebra_simps)
  also have "?u / 2 \<le> x / 2 ^ 53 + half_subnormal"
  proof (cases "ulp_exp x = - 1074")
    case True
    have "half_subnormal * 2 = 2 powi (- 1075 + 1)"
      unfolding half_subnormal_def by (simp only: powi_Suc)
    then have "?u / 2 = half_subnormal" using True by simp
    then show ?thesis using assms by simp
  next
    case False
    then have "ulp_exp x = ilog2 x - 52" by (simp add: ulp_exp_def max_def split: if_splits)
    then have "?u * 2 ^ 52 = 2 powi ilog2 x" by (simp add: power_int_diff)
    with ilog2_bounds(1) [OF assms] have "?u / 2 \<le> x / 2 ^ 53" by simp
    then show ?thesis using half_subnormal_bounds(1) by linarith
  qed
  finally show ?thesis .
qed

lemma rnd_error: "0 \<le> x \<Longrightarrow> \<bar>rnd x - x\<bar> \<le> x / 2 ^ 53 + half_subnormal"
  using rnd_pos_error [of x] half_subnormal_bounds(1) by (auto simp: rnd_def)

end
