(* ===== verification/Circuit_Breaker.thy ===== *)
theory Circuit_Breaker
  imports F64 "HOL-Library.Multiset"
begin

text \<open>
  The per-backend circuit breaker (router-core/src/circuit_breaker.rs). Every operation takes
  the clock reading \<open>now\<close> that the Rust method takes before it locks \<open>inner\<close>; the body
  under the lock is one atomic state transformer. Readings of different callers may reach
  the lock out of order, so no lemma assumes that \<open>now\<close> grows unless it says so.

  The theory shows: the well-formedness invariant, that the bucket ring implements a sliding
  window (\<open>window\<close>, refinement of \<open>rotate\<close>, \<open>clear\<close> and the recording of a verdict), the
  transitions of the state machine, and the contract \<open>probe_gate\<close> under which at most one
  half-open probe is ever outstanding.
\<close>

section \<open>Data\<close>

datatype circuit_state = Closed | Open | HalfOpen

fun as_u64 :: "circuit_state \<Rightarrow> u64" where
  "as_u64 Closed = 0"
| "as_u64 HalfOpen = 1"
| "as_u64 Open = 2"

text \<open>How a request was admitted. Only a \<open>Probe\<close> verdict may move a half-open breaker.\<close>

datatype admission = Normal | Probe

record bucket =
  successes :: u64
  failures :: u64

definition bucket_default :: bucket where
  "bucket_default = \<lparr>successes = 0, failures = 0\<rparr>"

record inner =
  state :: circuit_state
  opened_at :: "instant option"
  buckets :: "bucket list"
  head :: nat
  head_start :: instant
  probe_in_flight :: bool

record circuit_breaker =
  inner :: inner
  failure_rate_threshold :: f64
  min_requests :: u64
  open_duration :: duration

section \<open>Operations on the inner state\<close>

text \<open>Slide the window forward to \<open>now\<close>, zeroing the buckets that fell out.\<close>

definition rotate :: "instant \<Rightarrow> inner \<Rightarrow> inner" where
  "rotate now s =
     (let elapsed = as_secs (saturating_duration_since now (head_start s)) in
      if elapsed = 0 then s
      else
        let n = length (buckets s);
            steps = min elapsed n;
            bs = fold (\<lambda>i bs. bs[(head s + i) mod n := bucket_default]) [1..<Suc steps] (buckets s)
        in s\<lparr>buckets := bs,
             head := (head s + steps) mod n,
             head_start := head_start s + from_secs elapsed\<rparr>)"

definition totals :: "inner \<Rightarrow> u64 \<times> u64" where
  "totals s =
     (let failed = sum_list (map failures (buckets s));
          succeeded = sum_list (map successes (buckets s))
      in (failed, failed + succeeded))"

definition clear :: "instant \<Rightarrow> inner \<Rightarrow> inner" where
  "clear now s =
     s\<lparr>buckets := map (\<lambda>_. bucket_default) (buckets s), head := 0, head_start := now\<rparr>"

definition refresh :: "instant \<Rightarrow> duration \<Rightarrow> inner \<Rightarrow> inner" where
  "refresh now open_dur s =
     (if state s = Open then
        (case opened_at s of
           Some opened \<Rightarrow>
             if open_dur \<le> saturating_duration_since now opened then s\<lparr>state := HalfOpen\<rparr> else s
         | None \<Rightarrow> s)
      else s)"

section \<open>The breaker\<close>

definition new_breaker :: "f64 \<Rightarrow> u64 \<Rightarrow> u64 \<Rightarrow> u64 \<Rightarrow> instant \<Rightarrow> circuit_breaker" where
  "new_breaker threshold min_req window_secs open_duration_secs now =
     \<lparr>inner = \<lparr>state = Closed, opened_at = None,
               buckets = replicate (unat (max window_secs 1)) bucket_default,
               head = 0, head_start = now, probe_in_flight = False\<rparr>,
      failure_rate_threshold = threshold,
      min_requests = max min_req 1,
      open_duration = from_secs (unat open_duration_secs)\<rparr>"

definition refreshed :: "instant \<Rightarrow> circuit_breaker \<Rightarrow> inner" where
  "refreshed now cb = refresh now (open_duration cb) (inner cb)"

definition breaker_state :: "instant \<Rightarrow> circuit_breaker \<Rightarrow> circuit_state \<times> circuit_breaker" where
  "breaker_state now cb =
     (let s = refreshed now cb in (state s, cb\<lparr>inner := s\<rparr>))"

definition breaker_is_routable :: "instant \<Rightarrow> circuit_breaker \<Rightarrow> bool \<times> circuit_breaker" where
  "breaker_is_routable now cb =
     (let s = refreshed now cb in
      (case state s of Closed \<Rightarrow> True | HalfOpen \<Rightarrow> \<not> probe_in_flight s | Open \<Rightarrow> False,
       cb\<lparr>inner := s\<rparr>))"

definition try_begin :: "instant \<Rightarrow> circuit_breaker \<Rightarrow> admission option \<times> circuit_breaker" where
  "try_begin now cb =
     (let s = refreshed now cb in
      case state s of
        Closed \<Rightarrow> (Some Normal, cb\<lparr>inner := s\<rparr>)
      | Open \<Rightarrow> (None, cb\<lparr>inner := s\<rparr>)
      | HalfOpen \<Rightarrow>
          if probe_in_flight s then (None, cb\<lparr>inner := s\<rparr>)
          else (Some Probe, cb\<lparr>inner := s\<lparr>probe_in_flight := True\<rparr>\<rparr>))"

definition bump_success :: "inner \<Rightarrow> inner" where
  "bump_success s =
     (let b = buckets s ! head s
      in s\<lparr>buckets := (buckets s)[head s := b\<lparr>successes := successes b + 1\<rparr>]\<rparr>)"

definition bump_failure :: "inner \<Rightarrow> inner" where
  "bump_failure s =
     (let b = buckets s ! head s
      in s\<lparr>buckets := (buckets s)[head s := b\<lparr>failures := failures b + 1\<rparr>]\<rparr>)"

definition record_success :: "instant \<Rightarrow> admission \<Rightarrow> circuit_breaker \<Rightarrow> circuit_breaker" where
  "record_success now adm cb =
     (let s = rotate now (refreshed now cb);
          s = (if state s = HalfOpen \<and> adm = Probe
               then (clear now (s\<lparr>state := Closed, opened_at := None\<rparr>))\<lparr>probe_in_flight := False\<rparr>
               else s)
      in cb\<lparr>inner := bump_success s\<rparr>)"

text \<open>The trip condition: enough requests in the window, and the \<open>f64\<close> failure rate at or
  above the threshold.\<close>

definition should_trip :: "circuit_breaker \<Rightarrow> inner \<Rightarrow> bool" where
  "should_trip cb s =
     (case totals s of (failed, tot) \<Rightarrow>
        min_requests cb \<le> tot \<and>
        le_f64 (failure_rate_threshold cb) (div_f64 (f64_of_u64 failed) (f64_of_u64 tot)))"

definition record_failure :: "instant \<Rightarrow> admission \<Rightarrow> circuit_breaker \<Rightarrow> circuit_breaker" where
  "record_failure now adm cb =
     (let s = rotate now (refreshed now cb) in
      if state s = HalfOpen \<and> adm = Probe then
        cb\<lparr>inner := s\<lparr>state := Open, opened_at := Some now, probe_in_flight := False\<rparr>\<rparr>
      else
        let s = bump_failure s in
        if state s \<noteq> Closed then cb\<lparr>inner := s\<rparr>
        else if should_trip cb s
        then cb\<lparr>inner := s\<lparr>state := Open, opened_at := Some now\<rparr>\<rparr>
        else cb\<lparr>inner := s\<rparr>)"

text \<open>The request ended without a verdict. \<open>abandon\<close> does not look at the clock.\<close>

definition abandon :: "admission \<Rightarrow> circuit_breaker \<Rightarrow> circuit_breaker" where
  "abandon adm cb =
     (if adm \<noteq> Probe then cb
      else if state (inner cb) = HalfOpen then cb\<lparr>inner := (inner cb)\<lparr>probe_in_flight := False\<rparr>\<rparr>
      else cb)"

section \<open>Frame facts\<close>

lemma refresh_frame [frame_simps]:
  "buckets (refresh now d s) = buckets s" "head (refresh now d s) = head s"
  "head_start (refresh now d s) = head_start s" "opened_at (refresh now d s) = opened_at s"
  "probe_in_flight (refresh now d s) = probe_in_flight s"
  by (auto simp: refresh_def split: option.splits)

lemma refreshed_frame [frame_simps]:
  "buckets (refreshed now cb) = buckets (inner cb)" "head (refreshed now cb) = head (inner cb)"
  "head_start (refreshed now cb) = head_start (inner cb)"
  "opened_at (refreshed now cb) = opened_at (inner cb)"
  "probe_in_flight (refreshed now cb) = probe_in_flight (inner cb)"
  by (simp_all add: refreshed_def frame_simps)

lemma rotate_frame [frame_simps]:
  "state (rotate now s) = state s" "opened_at (rotate now s) = opened_at s"
  "probe_in_flight (rotate now s) = probe_in_flight s"
  by (simp_all add: rotate_def Let_def)

lemma clear_frame [frame_simps]:
  "state (clear now s) = state s" "opened_at (clear now s) = opened_at s"
  "probe_in_flight (clear now s) = probe_in_flight s"
  by (simp_all add: clear_def)

lemma bump_frame [frame_simps]:
  "state (bump_success s) = state s" "state (bump_failure s) = state s"
  "opened_at (bump_success s) = opened_at s" "opened_at (bump_failure s) = opened_at s"
  "probe_in_flight (bump_success s) = probe_in_flight s"
  "probe_in_flight (bump_failure s) = probe_in_flight s"
  "head (bump_success s) = head s" "head (bump_failure s) = head s"
  "head_start (bump_success s) = head_start s" "head_start (bump_failure s) = head_start s"
  by (simp_all add: bump_success_def bump_failure_def Let_def)

section \<open>Well-formedness\<close>

text \<open>
  The window is not empty and its head is an index of it (so no indexing in the code can
  panic), the opening time is recorded exactly while the circuit is not closed, and the probe
  flag is set only in the half-open state.
\<close>

definition window_ok :: "inner \<Rightarrow> bool" where
  "window_ok s \<longleftrightarrow> head s < length (buckets s)"

definition inner_ok :: "inner \<Rightarrow> bool" where
  "inner_ok s \<longleftrightarrow> window_ok s \<and> (opened_at s = None \<longleftrightarrow> state s = Closed) \<and>
     (probe_in_flight s \<longrightarrow> state s = HalfOpen)"

definition breaker_ok :: "circuit_breaker \<Rightarrow> bool" where
  "breaker_ok cb \<longleftrightarrow> inner_ok (inner cb) \<and> 0 < min_requests cb"

lemma length_fold_upd [simp]:
  "length (fold (\<lambda>i bs. bs[f i := v]) is xs) = length xs"
  by (induction "is" arbitrary: xs) auto

lemma length_buckets [simp]:
  "length (buckets (rotate now s)) = length (buckets s)"
  "length (buckets (clear now s)) = length (buckets s)"
  "length (buckets (bump_success s)) = length (buckets s)"
  "length (buckets (bump_failure s)) = length (buckets s)"
  by (simp_all add: rotate_def clear_def bump_success_def bump_failure_def Let_def)

lemma window_ok_simps [simp]:
  "window_ok (s\<lparr>state := a\<rparr>) = window_ok s" "window_ok (s\<lparr>opened_at := b\<rparr>) = window_ok s"
  "window_ok (s\<lparr>probe_in_flight := c\<rparr>) = window_ok s"
  by (simp_all add: window_ok_def)

lemma window_ok_ops [intro]:
  assumes "window_ok s"
  shows "window_ok (rotate now s)" "window_ok (clear now s)" "window_ok (refresh now d s)"
    "window_ok (bump_success s)" "window_ok (bump_failure s)"
proof -
  have n: "0 < length (buckets s)" using assms by (auto simp: window_ok_def)
  with assms show "window_ok (rotate now s)"
    by (auto simp: window_ok_def rotate_def Let_def)
  show "window_ok (clear now s)" using n by (simp add: window_ok_def clear_def)
  show "window_ok (refresh now d s)" "window_ok (bump_success s)" "window_ok (bump_failure s)"
    using assms by (simp_all add: window_ok_def frame_simps)
qed

lemma refresh_state:
  "state (refresh now d s) =
     (if state s = Open \<and> (\<exists>t. opened_at s = Some t \<and> d \<le> now - t) then HalfOpen else state s)"
  by (auto simp: refresh_def saturating_duration_since_def split: option.splits)

lemma inner_ok_refreshed [intro]: "inner_ok (inner cb) \<Longrightarrow> inner_ok (refreshed now cb)"
  by (auto simp: inner_ok_def refreshed_def frame_simps refresh_state)

lemma inner_ok_rotate [intro]: "inner_ok s \<Longrightarrow> inner_ok (rotate now s)"
  by (auto simp: inner_ok_def frame_simps)

lemma inner_ok_bump [intro]:
  "inner_ok s \<Longrightarrow> inner_ok (bump_success s)" "inner_ok s \<Longrightarrow> inner_ok (bump_failure s)"
  by (auto simp: inner_ok_def frame_simps)

lemma new_breaker_ok: "breaker_ok (new_breaker thr mr w od now)"
  by (simp add: breaker_ok_def inner_ok_def window_ok_def new_breaker_def)

lemma breaker_state_ok: "breaker_ok cb \<Longrightarrow> breaker_ok (snd (breaker_state now cb))"
  by (auto simp: breaker_ok_def breaker_state_def Let_def)

lemma breaker_is_routable_ok: "breaker_ok cb \<Longrightarrow> breaker_ok (snd (breaker_is_routable now cb))"
  by (auto simp: breaker_ok_def breaker_is_routable_def Let_def)

lemma try_begin_ok:
  assumes "breaker_ok cb"
  shows "breaker_ok (snd (try_begin now cb))"
proof -
  have "inner_ok (refreshed now cb)" using assms by (auto simp: breaker_ok_def)
  with assms show ?thesis
    by (auto simp: breaker_ok_def try_begin_def Let_def inner_ok_def split: circuit_state.splits)
qed

lemma record_success_ok:
  assumes "breaker_ok cb"
  shows "breaker_ok (record_success now adm cb)"
proof -
  have s: "inner_ok (rotate now (refreshed now cb))" using assms by (auto simp: breaker_ok_def)
  then have "window_ok (clear now (rotate now (refreshed now cb)\<lparr>state := Closed, opened_at := None\<rparr>))"
    by (auto simp: inner_ok_def)
  with s assms show ?thesis
    by (auto simp: breaker_ok_def record_success_def Let_def inner_ok_def frame_simps)
qed

lemma record_failure_ok:
  assumes "breaker_ok cb"
  shows "breaker_ok (record_failure now adm cb)"
proof -
  have s: "inner_ok (rotate now (refreshed now cb))" using assms by (auto simp: breaker_ok_def)
  then have "inner_ok (bump_failure (rotate now (refreshed now cb)))" by auto
  with s assms show ?thesis
    by (auto simp: breaker_ok_def record_failure_def Let_def inner_ok_def frame_simps)
qed

lemma abandon_ok: "breaker_ok cb \<Longrightarrow> breaker_ok (abandon adm cb)"
  by (auto simp: breaker_ok_def abandon_def inner_ok_def)

lemmas breaker_ok_ops = breaker_state_ok breaker_is_routable_ok try_begin_ok
  record_success_ok record_failure_ok abandon_ok

section \<open>The bucket ring as a sliding window\<close>

text \<open>
  The abstract window is the list of the last \<open>n\<close> one-second buckets, newest first. Under
  this abstraction rotating by \<open>k\<close> seconds shifts \<open>k\<close> empty buckets in, clearing empties
  every bucket, and recording a verdict changes the newest bucket only.
\<close>

definition window :: "inner \<Rightarrow> bucket list" where
  "window s =
     (let n = length (buckets s) in map (\<lambda>k. buckets s ! ((head s + n - k) mod n)) [0..<n])"

definition elapsed_secs :: "instant \<Rightarrow> inner \<Rightarrow> nat" where
  "elapsed_secs now s = as_secs (saturating_duration_since now (head_start s))"

lemma length_window [simp]: "length (window s) = length (buckets s)"
  by (simp add: window_def Let_def)

lemma window_nth:
  "k < length (buckets s) \<Longrightarrow>
     window s ! k = buckets s ! ((head s + length (buckets s) - k) mod length (buckets s))"
  by (simp add: window_def Let_def)

lemma fold_upd_nth:
  assumes "j < length xs"
  shows "fold (\<lambda>i bs. bs[f i := v]) is xs ! j = (if j \<in> f ` set is then v else xs ! j)"
  using assms by (induction "is" arbitrary: xs) (auto simp: nth_list_update)

text \<open>Ring arithmetic: which slots a rotation touches, seen from the new head.\<close>

lemma ring_slot_new:
  fixes n h steps k :: nat
  assumes "h < n" "k < steps" "steps \<le> n"
  shows "((h + steps) mod n + n - k) mod n = (h + (steps - k)) mod n"
proof -
  have "((h + steps) mod n + n - k) mod n = ((h + steps) mod n + (n - k)) mod n"
    using assms by simp
  also have "\<dots> = (h + steps + (n - k)) mod n" by (simp add: mod_add_left_eq)
  also have "h + steps + (n - k) = h + (steps - k) + n" using assms by simp
  finally show ?thesis by simp
qed

lemma ring_slot_old:
  fixes n h steps k :: nat
  assumes "h < n" "steps \<le> k" "k < n"
  shows "((h + steps) mod n + n - k) mod n = (h + n - (k - steps)) mod n"
proof -
  have "((h + steps) mod n + n - k) mod n = ((h + steps) mod n + (n - k)) mod n"
    using assms by simp
  also have "\<dots> = (h + steps + (n - k)) mod n" by (simp add: mod_add_left_eq)
  also have "h + steps + (n - k) = h + n - (k - steps)" using assms by simp
  finally show ?thesis .
qed

lemma ring_slot_inj:
  fixes n h i j :: nat
  assumes "i \<le> j" "j < i + n" "(h + i) mod n = (h + j) mod n"
  shows "i = j"
proof -
  have "(h + j - (h + i)) mod n = 0" using assms by (metis add_left_mono mod_eq_dvd_iff_nat
        dvd_eq_mod_eq_0)
  then have "n dvd j - i" by (simp add: dvd_eq_mod_eq_0)
  then show ?thesis using assms(1,2)
    by (metis add_diff_inverse_nat diff_is_0_eq dvd_imp_le le_antisym nat_add_left_cancel_less
        not_le not_less zero_less_diff)
qed

lemma ring_slot_untouched:
  fixes n h steps k i :: nat
  assumes "h < n" "steps \<le> k" "k < n" "1 \<le> i" "i \<le> steps"
  shows "((h + steps) mod n + n - k) mod n \<noteq> (h + i) mod n"
proof
  assume "((h + steps) mod n + n - k) mod n = (h + i) mod n"
  moreover have "h + (n - (k - steps)) = h + n - (k - steps)" using assms by simp
  ultimately have "(h + i) mod n = (h + (n - (k - steps))) mod n"
    using ring_slot_old [OF assms(1-3)] by simp
  moreover have "i < n - (k - steps)" "n - (k - steps) < i + n" using assms by arith+
  ultimately show False using ring_slot_inj [of i "n - (k - steps)" n h] by simp
qed

lemma head_rotate:
  assumes "window_ok s"
  shows "head (rotate now s) =
    (head s + min (elapsed_secs now s) (length (buckets s))) mod length (buckets s)"
  using assms by (simp add: rotate_def Let_def elapsed_secs_def window_ok_def)

lemma head_start_rotate:
  "head_start (rotate now s) = head_start s + from_secs (elapsed_secs now s)"
  by (simp add: rotate_def Let_def elapsed_secs_def)

lemma buckets_rotate_nth:
  assumes "j < length (buckets s)"
  shows "buckets (rotate now s) ! j =
    (if j \<in> (\<lambda>i. (head s + i) mod length (buckets s)) `
          {1..min (elapsed_secs now s) (length (buckets s))}
     then bucket_default else buckets s ! j)"
  using assms
  by (simp add: rotate_def Let_def fold_upd_nth elapsed_secs_def
      atLeastLessThanSuc_atLeastAtMost del: upt_Suc)

lemma window_rotate_nth:
  assumes "window_ok s" and k: "k < length (buckets s)"
  shows "window (rotate now s) ! k =
    (if k < elapsed_secs now s then bucket_default else window s ! (k - elapsed_secs now s))"
proof -
  let ?n = "length (buckets s)" and ?h = "head s" and ?e = "elapsed_secs now s"
  define steps where "steps = min ?e ?n"
  define j where "j = ((?h + steps) mod ?n + ?n - k) mod ?n"
  have h: "?h < ?n" using assms(1) by (simp add: window_ok_def)
  have j: "j < ?n" unfolding j_def using k by (intro mod_less_divisor) auto
  have lhs: "window (rotate now s) ! k = buckets (rotate now s) ! j"
    using k assms(1) by (simp add: window_nth head_rotate j_def steps_def)
  show ?thesis
  proof (cases "k < ?e")
    case True
    then have "j = (?h + (steps - k)) mod ?n"
      unfolding j_def using h k by (intro ring_slot_new) (auto simp: steps_def)
    moreover have "steps - k \<in> {1..steps}" using True k by (auto simp: steps_def)
    ultimately have "j \<in> (\<lambda>i. (?h + i) mod ?n) ` {1..steps}" by blast
    with True show ?thesis
      unfolding lhs buckets_rotate_nth [OF j] steps_def [symmetric] by simp
  next
    case False
    then have e: "steps = ?e" "?e \<le> k" using k by (auto simp: steps_def)
    then have "j = (?h + ?n - (k - ?e)) mod ?n"
      unfolding j_def using ring_slot_old [of ?h ?n ?e k] h k by simp
    moreover have "j \<notin> (\<lambda>i. (?h + i) mod ?n) ` {1..steps}"
    proof
      assume "j \<in> (\<lambda>i. (?h + i) mod ?n) ` {1..steps}"
      then obtain i where "1 \<le> i" "i \<le> steps" "j = (?h + i) mod ?n" by auto
      with ring_slot_untouched [of ?h ?n steps k i] h k e show False by (simp add: j_def)
    qed
    ultimately show ?thesis
      using False k unfolding lhs buckets_rotate_nth [OF j] steps_def [symmetric]
      by (simp add: window_nth)
  qed
qed

lemma window_rotate:
  assumes "window_ok s"
  shows "window (rotate now s) =
    take (length (buckets s)) (replicate (elapsed_secs now s) bucket_default @ window s)"
  using assms
  by (intro nth_equalityI) (auto simp: window_rotate_nth nth_append)

lemma window_clear: "window (clear now s) = replicate (length (buckets s)) bucket_default"
  by (rule nth_equalityI)
     (auto simp: window_nth clear_def simp del: length_greater_0_conv intro: mod_less_divisor)

lemma window_bump:
  assumes "window_ok s" "length (buckets s') = length (buckets s)" "head s' = head s"
    and "buckets s' = (buckets s)[head s := b]"
  shows "window s' = (window s)[0 := b]"
proof (rule nth_equalityI)
  fix k
  assume "k < length (window s')"
  then have k: "k < length (buckets s)" using assms(2) by simp
  have h: "head s < length (buckets s)" using assms(1) by (simp add: window_ok_def)
  have "(head s + length (buckets s) - k) mod length (buckets s) = head s \<longleftrightarrow> k = 0"
  proof
    assume eq: "(head s + length (buckets s) - k) mod length (buckets s) = head s"
    have "(head s + 0) mod length (buckets s) = (head s + (length (buckets s) - k)) mod length (buckets s)"
      using eq h k by simp
    moreover have "0 < k \<Longrightarrow> length (buckets s) - k < 0 + length (buckets s)" using k by arith
    ultimately show "k = 0"
      using ring_slot_inj [of 0 "length (buckets s) - k" "length (buckets s)" "head s"] k
      by (metis diff_is_0_eq' le_0_eq leD nat_le_linear neq0_conv zero_less_diff)
  qed (use h in simp)
  then show "window s' ! k = (window s)[0 := b] ! k"
    using k h assms by (auto simp: window_nth nth_list_update)
qed (use assms in simp)

lemma window_bump_success:
  assumes "window_ok s"
  shows "window (bump_success s) =
    (window s)[0 := (window s ! 0)\<lparr>successes := successes (window s ! 0) + 1\<rparr>]"
proof -
  have "window s ! 0 = buckets s ! head s"
    using assms by (subst window_nth) (auto simp: window_ok_def)
  with assms show ?thesis
    by (intro window_bump) (auto simp: bump_success_def Let_def)
qed

lemma window_bump_failure:
  assumes "window_ok s"
  shows "window (bump_failure s) =
    (window s)[0 := (window s ! 0)\<lparr>failures := failures (window s ! 0) + 1\<rparr>]"
proof -
  have "window s ! 0 = buckets s ! head s"
    using assms by (subst window_nth) (auto simp: window_ok_def)
  with assms show ?thesis
    by (intro window_bump) (auto simp: bump_failure_def Let_def)
qed

text \<open>The ring is a permutation of the window, so the totals can be read off the window.\<close>

lemma sum_window:
  fixes f :: "bucket \<Rightarrow> 'a::comm_monoid_add"
  assumes "window_ok s"
  shows "sum_list (map f (window s)) = sum_list (map f (buckets s))"
proof -
  let ?n = "length (buckets s)" and ?h = "head s"
  let ?g = "\<lambda>k. (?h + ?n - k) mod ?n"
  have n: "0 < ?n" and h: "?h < ?n" using assms by (auto simp: window_ok_def)
  have inj: "inj_on ?g {0..<?n}"
  proof (rule linorder_inj_onI)
    fix x y
    assume "x < y" "x \<in> {0..<?n}" "y \<in> {0..<?n}"
    then have le: "?n - y \<le> ?n - x" "?n - x < ?n - y + ?n" "?n - y \<noteq> ?n - x" by auto
    have eq: "?h + ?n - k = ?h + (?n - k)" if "k \<in> {0..<?n}" for k using that by auto
    show "?g x \<noteq> ?g y"
    proof
      assume "?g x = ?g y"
      then have "(?h + (?n - y)) mod ?n = (?h + (?n - x)) mod ?n"
        using eq \<open>x \<in> _\<close> \<open>y \<in> _\<close> by metis
      with ring_slot_inj le show False by blast
    qed
  qed auto
  moreover have "?g ` {0..<?n} \<subseteq> {0..<?n}" using n by auto
  ultimately have bij: "bij_betw ?g {0..<?n} {0..<?n}"
    using endo_inj_surj [of "{0..<?n}" ?g] by (simp add: bij_betw_def)
  have "sum_list (map f (window s)) = (\<Sum>k = 0..<?n. f (buckets s ! ?g k))"
    by (simp add: window_def Let_def interv_sum_list_conv_sum_set_nat comp_def)
  also have "\<dots> = (\<Sum>j = 0..<?n. f (buckets s ! j))"
    by (rule sum.reindex_bij_betw [OF bij])
  also have "\<dots> = sum_list (map f (buckets s))"
    by (simp add: sum_list_sum_nth)
  finally show ?thesis .
qed

lemma totals_window:
  "window_ok s \<Longrightarrow>
     totals s = (sum_list (map failures (window s)),
                 sum_list (map failures (window s)) + sum_list (map successes (window s)))"
  by (simp add: totals_def sum_window Let_def)

section \<open>What the window counts\<close>

text \<open>
  The reference: a log of verdicts with their times. Seconds are counted from the instant
  \<open>t0\<close> at which the window was last empty; the window at \<open>now\<close> holds the verdicts of the
  current second and of the \<open>n - 1\<close> seconds before it.
\<close>

type_synonym verdict_log = "(instant \<times> bool) list"

definition sec_of :: "instant \<Rightarrow> instant \<Rightarrow> nat" where
  "sec_of t0 t = as_secs (t - t0)"

definition verdicts_at :: "instant \<Rightarrow> verdict_log \<Rightarrow> bool \<Rightarrow> nat \<Rightarrow> nat" where
  "verdicts_at t0 evs ok j = length (filter (\<lambda>(t, b). b = ok \<and> sec_of t0 t = j) evs)"

definition in_window :: "instant \<Rightarrow> nat \<Rightarrow> instant \<Rightarrow> instant \<Rightarrow> bool" where
  "in_window t0 n now t \<longleftrightarrow> sec_of t0 now < sec_of t0 t + n"

definition bucket_of :: "instant \<Rightarrow> verdict_log \<Rightarrow> nat \<Rightarrow> bucket" where
  "bucket_of t0 evs j =
     \<lparr>successes = of_nat (verdicts_at t0 evs True j), failures = of_nat (verdicts_at t0 evs False j)\<rparr>"

definition record_verdict :: "instant \<Rightarrow> bool \<Rightarrow> circuit_breaker \<Rightarrow> circuit_breaker" where
  "record_verdict now ok cb =
     (if ok then record_success now Normal cb else record_failure now Normal cb)"

definition record_log :: "verdict_log \<Rightarrow> circuit_breaker \<Rightarrow> circuit_breaker" where
  "record_log evs cb = fold (\<lambda>(t, ok). record_verdict t ok) evs cb"

text \<open>The simulation relation between the log and the ring, at second \<open>c\<close>.\<close>

definition tracks :: "instant \<Rightarrow> nat \<Rightarrow> verdict_log \<Rightarrow> inner \<Rightarrow> bool" where
  "tracks t0 c evs s \<longleftrightarrow>
     window_ok s \<and> head_start s = t0 + from_secs c \<and> (\<forall>(t, _) \<in> set evs. sec_of t0 t \<le> c) \<and>
     (\<forall>k < length (buckets s).
        window s ! k = (if k \<le> c then bucket_of t0 evs (c - k) else bucket_default))"

lemma tracksD:
  assumes "tracks t0 c evs s"
  shows "window_ok s" "head_start s = t0 + from_secs c"
    "\<And>t b. (t, b) \<in> set evs \<Longrightarrow> sec_of t0 t \<le> c"
    "\<And>k. k < length (buckets s) \<Longrightarrow>
       window s ! k = (if k \<le> c then bucket_of t0 evs (c - k) else bucket_default)"
  using assms by (auto simp: tracks_def)

lemma bucket_of_future:
  assumes "\<And>t b. (t, b) \<in> set evs \<Longrightarrow> sec_of t0 t \<le> c" "c < j"
  shows "bucket_of t0 evs j = bucket_default"
proof -
  have "verdicts_at t0 evs ok j = 0" for ok
    using assms by (fastforce simp: verdicts_at_def filter_empty_conv)
  then show ?thesis by (simp add: bucket_of_def bucket_default_def)
qed

lemma bucket_of_Nil [simp]: "bucket_of t0 [] j = bucket_default"
  by (simp add: bucket_of_def verdicts_at_def bucket_default_def)

lemma bucket_of_snoc:
  "bucket_of t0 (evs @ [(t, ok)]) j =
     (let b = bucket_of t0 evs j in
      if sec_of t0 t \<noteq> j then b
      else if ok then b\<lparr>successes := successes b + 1\<rparr> else b\<lparr>failures := failures b + 1\<rparr>)"
  by (simp add: bucket_of_def verdicts_at_def Let_def)

lemma elapsed_tracks:
  assumes "head_start s = t0 + from_secs c" "t0 \<le> now" "c \<le> sec_of t0 now"
  shows "elapsed_secs now s = sec_of t0 now - c"
proof -
  have "from_secs c \<le> now - t0"
    using assms(3) from_secs_as_secs_le [of "now - t0"]
    by (simp add: sec_of_def from_secs_def)
  then obtain d where "now - t0 = from_secs c + d" by (metis le_Suc_ex)
  moreover have "now - (t0 + from_secs c) = now - t0 - from_secs c" by simp
  ultimately show ?thesis
    using assms(1) by (simp add: elapsed_secs_def sec_of_def saturating_duration_since_def)
qed

lemma tracks_rotate:
  assumes "tracks t0 c evs s" "t0 \<le> now" "c \<le> sec_of t0 now"
  shows "tracks t0 (sec_of t0 now) evs (rotate now s)"
proof -
  note tr = tracksD [OF assms(1)]
  have e: "elapsed_secs now s = sec_of t0 now - c" using tr(2) assms(2,3) by (rule elapsed_tracks)
  have "window (rotate now s) ! k =
      (if k \<le> sec_of t0 now then bucket_of t0 evs (sec_of t0 now - k) else bucket_default)"
    if k: "k < length (buckets s)" for k
  proof (cases "k < sec_of t0 now - c")
    case True
    then have "bucket_of t0 evs (sec_of t0 now - k) = bucket_default"
      using tr(3) by (intro bucket_of_future) auto
    with True show ?thesis using tr(1) k e by (simp add: window_rotate_nth)
  next
    case False
    then show ?thesis using tr(1) tr(4) [of "k - (sec_of t0 now - c)"] k e assms(3)
      by (auto simp: window_rotate_nth)
  qed
  moreover have "from_secs c + from_secs (sec_of t0 now - c) = from_secs (sec_of t0 now)"
    using assms(3) by (simp add: from_secs_def flip: add_mult_distrib)
  ultimately show ?thesis
    using tr assms(3) unfolding tracks_def head_start_rotate e by fastforce
qed

lemma tracks_bump:
  assumes "tracks t0 (sec_of t0 now) evs s"
  shows "tracks t0 (sec_of t0 now) (evs @ [(now, True)]) (bump_success s)"
    and "tracks t0 (sec_of t0 now) (evs @ [(now, False)]) (bump_failure s)"
proof -
  note tr = tracksD [OF assms]
  have pos: "0 < length (buckets s)" using tr(1) by (auto simp: window_ok_def)
  show "tracks t0 (sec_of t0 now) (evs @ [(now, True)]) (bump_success s)"
    "tracks t0 (sec_of t0 now) (evs @ [(now, False)]) (bump_failure s)"
    unfolding tracks_def using tr pos
    by (auto simp: frame_simps window_bump_success window_bump_failure nth_list_update
        bucket_of_snoc Let_def)
qed

lemma tracks_cong:
  "buckets s' = buckets s \<Longrightarrow> head s' = head s \<Longrightarrow> head_start s' = head_start s \<Longrightarrow>
     tracks t0 c evs s' = tracks t0 c evs s"
  by (simp add: tracks_def window_ok_def window_def)

lemma tracks_refreshed [simp]: "tracks t0 c evs (refreshed now cb) = tracks t0 c evs (inner cb)"
  by (rule tracks_cong) (simp_all add: frame_simps)

lemma record_verdict_buckets:
  fixes now ok cb
  defines "s \<equiv> rotate now (refreshed now cb)"
  defines "s' \<equiv> inner (record_verdict now ok cb)"
  shows "buckets s' = buckets (if ok then bump_success s else bump_failure s)"
    and "head s' = head s" and "head_start s' = head_start s"
  by (simp_all add: s_def s'_def record_verdict_def record_success_def record_failure_def
      Let_def frame_simps)

lemma tracks_record_verdict:
  assumes "tracks t0 c evs (inner cb)" "t0 \<le> now" "c \<le> sec_of t0 now"
  shows "tracks t0 (sec_of t0 now) (evs @ [(now, ok)]) (inner (record_verdict now ok cb))"
proof -
  let ?s = "rotate now (refreshed now cb)"
  have "tracks t0 (sec_of t0 now) evs ?s"
    using assms by (intro tracks_rotate) simp_all
  note bump = tracks_bump [OF this]
  have "tracks t0 (sec_of t0 now) (evs @ [(now, ok)])
      (if ok then bump_success ?s else bump_failure ?s)"
    using bump by (cases ok) simp_all
  moreover have "tracks t0 (sec_of t0 now) (evs @ [(now, ok)]) (inner (record_verdict now ok cb)) =
      tracks t0 (sec_of t0 now) (evs @ [(now, ok)]) (if ok then bump_success ?s else bump_failure ?s)"
    by (rule tracks_cong) (auto simp only: record_verdict_buckets frame_simps split: if_split)
  ultimately show ?thesis by simp
qed

lemma tracks_new: "tracks t0 0 [] (inner (new_breaker thr mr w od t0))"
  by (auto simp: tracks_def new_breaker_def window_ok_def window_def Let_def)

lemma record_log_snoc:
  "record_log (evs @ [(t, ok)]) cb = record_verdict t ok (record_log evs cb)"
  by (simp add: record_log_def)

lemma tracks_record_log:
  assumes "sorted (map fst evs)" "\<forall>(t, _) \<in> set evs. t0 \<le> t" "tracks t0 0 [] (inner cb)"
  shows "tracks t0 (if evs = [] then 0 else sec_of t0 (fst (last evs))) evs
    (inner (record_log evs cb))"
  using assms(1,2)
proof (induction evs rule: rev_induct)
  case Nil
  then show ?case using assms(3) by (simp add: record_log_def)
next
  case (snoc e evs)
  obtain t ok where e: "e = (t, ok)" by fastforce
  let ?c = "if evs = [] then 0 else sec_of t0 (fst (last evs))"
  have IH: "tracks t0 ?c evs (inner (record_log evs cb))"
    using snoc by (auto simp: sorted_append)
  have "t0 \<le> t" using snoc.prems e by auto
  moreover have "?c \<le> sec_of t0 t"
    using snoc.prems e by (auto simp: sorted_append sec_of_def intro!: as_secs_mono diff_le_mono)
  ultimately show ?case
    using tracks_record_verdict [OF IH] by (simp add: e record_log_snoc)
qed

text \<open>Summing the seconds of the window is counting the verdicts inside it.\<close>

lemma sum_verdicts:
  assumes "\<forall>(t, _) \<in> set evs. sec_of t0 t \<le> c"
  shows "(\<Sum>k = 0..<n. if k \<le> c then verdicts_at t0 evs ok (c - k) else 0) =
    length (filter (\<lambda>(t, b). b = ok \<and> c < sec_of t0 t + n) evs)"
  using assms
proof (induction evs)
  case Nil
  then show ?case by (simp add: verdicts_at_def)
next
  case (Cons e evs)
  obtain t b where e: "e = (t, b)" by fastforce
  let ?j = "sec_of t0 t"
  have j: "?j \<le> c" using Cons.prems e by auto
  have step: "(if k \<le> c then verdicts_at t0 (e # evs) ok (c - k) else 0) =
      (if k \<le> c then verdicts_at t0 evs ok (c - k) else 0) +
      (if k = c - ?j then of_bool (b = ok) else 0)" for k
    using j by (auto simp: verdicts_at_def e)
  have "(\<Sum>k = 0..<n. if k = c - ?j then of_bool (b = ok) else (0::nat)) =
      of_bool (b = ok \<and> c < ?j + n)"
    using j by (auto simp: sum.delta')
  with Cons show ?case by (simp add: step sum.distrib e)
qed

lemma tracks_totals:
  assumes "tracks t0 (sec_of t0 now) evs s"
  defines "n \<equiv> length (buckets s)"
  shows "totals s =
    (of_nat (length (filter (\<lambda>(t, ok). \<not> ok \<and> in_window t0 n now t) evs)),
     of_nat (length (filter (\<lambda>(t, ok). in_window t0 n now t) evs)))"
proof -
  let ?c = "sec_of t0 now"
  note tr = tracksD [OF assms(1)]
  have secs: "\<forall>(t, _) \<in> set evs. sec_of t0 t \<le> ?c" using tr(3) by auto
  have sum: "sum_list (map f (window s)) =
      of_nat (length (filter (\<lambda>(t, b). b = ok \<and> in_window t0 n now t) evs))"
    if f: "\<And>j. f (bucket_of t0 evs j) = of_nat (verdicts_at t0 evs ok j)" "f bucket_default = 0"
    for f :: "bucket \<Rightarrow> u64" and ok
  proof -
    have "sum_list (map f (window s)) = (\<Sum>k = 0..<n. f (window s ! k))"
      by (simp add: sum_list_sum_nth n_def)
    also have "\<dots> = (\<Sum>k = 0..<n. of_nat (if k \<le> ?c then verdicts_at t0 evs ok (?c - k) else 0))"
      by (rule sum.cong) (auto simp: tr(4) n_def f)
    also have "\<dots> = of_nat (length (filter (\<lambda>(t, b). b = ok \<and> ?c < sec_of t0 t + n) evs))"
      by (simp only: sum_verdicts [OF secs] flip: of_nat_sum)
    finally show ?thesis by (simp add: in_window_def)
  qed
  have split: "length (filter (\<lambda>(t, ok). in_window t0 n now t) evs) =
      length (filter (\<lambda>(t, b). b = False \<and> in_window t0 n now t) evs) +
      length (filter (\<lambda>(t, b). b = True \<and> in_window t0 n now t) evs)"
    by (induction evs) auto
  show ?thesis
    unfolding totals_window [OF tr(1)] split
    by (simp add: sum [of failures False] sum [of successes True] bucket_of_def
        bucket_default_def)
qed

section \<open>State transitions\<close>

lemma refreshed_state:
  "state (refreshed now cb) =
     (if state (inner cb) = Open \<and>
         (\<exists>t. opened_at (inner cb) = Some t \<and> open_duration cb \<le> now - t)
      then HalfOpen else state (inner cb))"
  by (simp add: refreshed_def refresh_state)

lemma record_success_state:
  "state (inner (record_success now adm cb)) =
     (if state (refreshed now cb) = HalfOpen \<and> adm = Probe then Closed
      else state (refreshed now cb))"
  "opened_at (inner (record_success now adm cb)) =
     (if state (refreshed now cb) = HalfOpen \<and> adm = Probe then None
      else opened_at (inner cb))"
  "probe_in_flight (inner (record_success now adm cb)) =
     (if state (refreshed now cb) = HalfOpen \<and> adm = Probe then False
      else probe_in_flight (inner cb))"
  by (simp_all add: record_success_def Let_def frame_simps)

lemma record_failure_state:
  fixes now adm cb
  defines "s \<equiv> refreshed now cb"
  defines "trips \<equiv> should_trip cb (bump_failure (rotate now s))"
  shows "state (inner (record_failure now adm cb)) =
      (if state s = HalfOpen \<and> adm = Probe then Open
       else if state s = Closed \<and> trips then Open else state s)"
    and "opened_at (inner (record_failure now adm cb)) =
      (if state s = HalfOpen \<and> adm = Probe \<or> state s = Closed \<and> trips then Some now
       else opened_at (inner cb))"
    and "probe_in_flight (inner (record_failure now adm cb)) =
      (if state s = HalfOpen \<and> adm = Probe then False else probe_in_flight (inner cb))"
  by (auto simp: record_failure_def Let_def frame_simps s_def trips_def)

lemma try_begin_result:
  "fst (try_begin now cb) =
     (case state (refreshed now cb) of
        Closed \<Rightarrow> Some Normal
      | Open \<Rightarrow> None
      | HalfOpen \<Rightarrow> if probe_in_flight (inner cb) then None else Some Probe)"
  "state (inner (snd (try_begin now cb))) = state (refreshed now cb)"
  "opened_at (inner (snd (try_begin now cb))) = opened_at (inner cb)"
  "probe_in_flight (inner (snd (try_begin now cb))) =
     (probe_in_flight (inner cb) \<or> state (refreshed now cb) = HalfOpen)"
  by (auto simp: try_begin_def Let_def frame_simps split: circuit_state.splits)

lemma breaker_is_routable_result:
  "fst (breaker_is_routable now cb) =
     (case state (refreshed now cb) of
        Closed \<Rightarrow> True | HalfOpen \<Rightarrow> \<not> probe_in_flight (inner cb) | Open \<Rightarrow> False)"
  "inner (snd (breaker_is_routable now cb)) = refreshed now cb"
  by (auto simp: breaker_is_routable_def Let_def frame_simps split: circuit_state.splits)

lemma config_frame [frame_simps]:
  "open_duration (snd (breaker_state now cb)) = open_duration cb"
  "open_duration (snd (breaker_is_routable now cb)) = open_duration cb"
  "open_duration (snd (try_begin now cb)) = open_duration cb"
  "open_duration (record_success now adm cb) = open_duration cb"
  "open_duration (record_failure now adm cb) = open_duration cb"
  "open_duration (abandon adm cb) = open_duration cb"
  by (auto simp: breaker_state_def breaker_is_routable_def try_begin_def record_success_def
      record_failure_def abandon_def Let_def split: circuit_state.splits)

lemma breaker_state_result:
  "fst (breaker_state now cb) = state (refreshed now cb)"
  "inner (snd (breaker_state now cb)) = refreshed now cb"
  by (simp_all add: breaker_state_def Let_def)

lemma abandon_state:
  "state (inner (abandon adm cb)) = state (inner cb)"
  "opened_at (inner (abandon adm cb)) = opened_at (inner cb)"
  "probe_in_flight (inner (abandon adm cb)) =
     (if adm = Probe \<and> state (inner cb) = HalfOpen then False else probe_in_flight (inner cb))"
  by (simp_all add: abandon_def)

lemmas breaker_results = record_success_state record_failure_state try_begin_result
  breaker_is_routable_result breaker_state_result abandon_state

section \<open>The probe gate\<close>

text \<open>
  The contract between the breaker and the code that holds admissions: a probe is handed out
  only when none is out and marks the gate; ordinary admissions never touch the mark; giving
  the probe back, by any verdict, clears it. Under this contract the number of outstanding
  probes is the mark, whatever the order of the calls.
\<close>

locale probe_gate =
  fixes ok :: "'b \<Rightarrow> bool" and marked :: "'b \<Rightarrow> bool"
    and enter :: "instant \<Rightarrow> 'b \<Rightarrow> admission option \<times> 'b"
    and succeed :: "instant \<Rightarrow> admission \<Rightarrow> 'b \<Rightarrow> 'b"
    and fail :: "instant \<Rightarrow> admission \<Rightarrow> 'b \<Rightarrow> 'b"
    and leave :: "admission \<Rightarrow> 'b \<Rightarrow> 'b"
  assumes ok_enter: "ok b \<Longrightarrow> ok (snd (enter t b))"
    and ok_succeed: "ok b \<Longrightarrow> ok (succeed t a b)"
    and ok_fail: "ok b \<Longrightarrow> ok (fail t a b)"
    and ok_leave: "ok b \<Longrightarrow> ok (leave a b)"
    and enter_probe: "ok b \<Longrightarrow> fst (enter t b) = Some Probe \<Longrightarrow>
      \<not> marked b \<and> marked (snd (enter t b))"
    and enter_other: "ok b \<Longrightarrow> fst (enter t b) \<noteq> Some Probe \<Longrightarrow>
      marked (snd (enter t b)) = marked b"
    and normal_keeps: "ok b \<Longrightarrow> marked (succeed t Normal b) = marked b"
      "ok b \<Longrightarrow> marked (fail t Normal b) = marked b" "ok b \<Longrightarrow> marked (leave Normal b) = marked b"
    and probe_clears: "ok b \<Longrightarrow> marked b \<Longrightarrow> \<not> marked (succeed t Probe b)"
      "ok b \<Longrightarrow> marked b \<Longrightarrow> \<not> marked (fail t Probe b)"
      "ok b \<Longrightarrow> marked b \<Longrightarrow> \<not> marked (leave Probe b)"
begin

lemma balance_enter:
  assumes "ok b" "count T Probe = of_bool (marked b)" "enter t b = (Some a, b')"
  shows "count (add_mset a T) Probe = of_bool (marked b')"
  using assms enter_probe [of b t] enter_other [of b t] by (cases a) auto

lemma balance_refused:
  assumes "ok b" "count T Probe = of_bool (marked b)" "enter t b = (None, b')"
  shows "count T Probe = of_bool (marked b')"
  using assms enter_other [of b t] by auto

lemma balance_end:
  assumes "ok b" "count T Probe = of_bool (marked b)" "a \<in># T"
  shows "count (T - {#a#}) Probe = of_bool (marked (succeed t a b))"
    and "count (T - {#a#}) Probe = of_bool (marked (fail t a b))"
    and "count (T - {#a#}) Probe = of_bool (marked (leave a b))"
proof -
  have "a = Probe \<Longrightarrow> marked b" using assms(2,3) by (auto simp flip: count_greater_zero_iff)
  then show "count (T - {#a#}) Probe = of_bool (marked (succeed t a b))"
    "count (T - {#a#}) Probe = of_bool (marked (fail t a b))"
    "count (T - {#a#}) Probe = of_bool (marked (leave a b))"
    using assms(1,2) normal_keeps probe_clears by (cases a; simp)+
qed

end

abbreviation probe_out :: "circuit_breaker \<Rightarrow> bool" where
  "probe_out cb \<equiv> probe_in_flight (inner cb)"

lemma probe_out_half_open:
  "breaker_ok cb \<Longrightarrow> probe_out cb \<Longrightarrow> state (inner cb) = HalfOpen \<and> state (refreshed now cb) = HalfOpen"
  by (simp add: breaker_ok_def inner_ok_def refreshed_state)

lemma try_begin_probe:
  assumes "fst (try_begin now cb) = Some Probe"
  shows "\<not> probe_out cb \<and> probe_out (snd (try_begin now cb))"
  using assms by (cases "state (refreshed now cb)") (auto simp: try_begin_result split: if_splits)

lemma try_begin_no_probe:
  assumes "fst (try_begin now cb) \<noteq> Some Probe"
  shows "probe_out (snd (try_begin now cb)) = probe_out cb"
  using assms by (cases "state (refreshed now cb)") (auto simp: try_begin_result split: if_splits)

interpretation gate: probe_gate breaker_ok probe_out try_begin record_success record_failure abandon
proof unfold_locales
  fix cb t and a :: admission
  assume ok: "breaker_ok cb"
  then show "breaker_ok (snd (try_begin t cb))" "breaker_ok (record_success t a cb)"
    "breaker_ok (record_failure t a cb)" "breaker_ok (abandon a cb)"
    by (simp_all add: breaker_ok_ops)
  show "fst (try_begin t cb) = Some Probe \<Longrightarrow> \<not> probe_out cb \<and> probe_out (snd (try_begin t cb))"
    by (rule try_begin_probe)
  show "fst (try_begin t cb) \<noteq> Some Probe \<Longrightarrow> probe_out (snd (try_begin t cb)) = probe_out cb"
    by (rule try_begin_no_probe)
  show "probe_out (record_success t Normal cb) = probe_out cb"
    "probe_out (record_failure t Normal cb) = probe_out cb"
    "probe_out (abandon Normal cb) = probe_out cb"
    by (simp_all add: breaker_results)
  assume "probe_out cb"
  with ok show "\<not> probe_out (record_success t Probe cb)" "\<not> probe_out (record_failure t Probe cb)"
    "\<not> probe_out (abandon Probe cb)"
    using probe_out_half_open [of cb t] by (simp_all add: breaker_results)
qed

section \<open>Interleavings of the callers\<close>

text \<open>
  The breaker together with the admissions that callers hold. One step is one locked method
  call with any clock reading: an observation (metrics, routable set), an attempt to begin, the
  early verdict of a probe on its response headers (\<open>resolve_probe_on_headers\<close>, after which
  the request holds an ordinary admission), and the three ways a held admission ends.
\<close>

type_synonym breaker_sys = "circuit_breaker \<times> admission multiset"

inductive breaker_step :: "breaker_sys \<Rightarrow> breaker_sys \<Rightarrow> bool" where
  observe_state: "breaker_step (cb, T) (snd (breaker_state now cb), T)"
| observe_routable: "breaker_step (cb, T) (snd (breaker_is_routable now cb), T)"
| admitted: "try_begin now cb = (Some adm, cb') \<Longrightarrow> breaker_step (cb, T) (cb', add_mset adm T)"
| refused: "try_begin now cb = (None, cb') \<Longrightarrow> breaker_step (cb, T) (cb', T)"
| headers: "Probe \<in># T \<Longrightarrow>
    breaker_step (cb, T) (record_success now Probe cb, add_mset Normal (T - {#Probe#}))"
| success: "adm \<in># T \<Longrightarrow> breaker_step (cb, T) (record_success now adm cb, T - {#adm#})"
| failure: "adm \<in># T \<Longrightarrow> breaker_step (cb, T) (record_failure now adm cb, T - {#adm#})"
| disconnect: "adm \<in># T \<Longrightarrow> breaker_step (cb, T) (abandon adm cb, T - {#adm#})"

inductive breaker_reachable :: "breaker_sys \<Rightarrow> bool" where
  start: "breaker_reachable (new_breaker thr mr w od now, {#})"
| step: "breaker_reachable s \<Longrightarrow> breaker_step s s' \<Longrightarrow> breaker_reachable s'"

definition balanced :: "breaker_sys \<Rightarrow> bool" where
  "balanced s \<longleftrightarrow> breaker_ok (fst s) \<and> count (snd s) Probe = of_bool (probe_out (fst s))"

lemma breaker_step_balanced:
  assumes "breaker_step s s'" "balanced s"
  shows "balanced s'"
  using assms
proof cases
  case (admitted now cb adm cb' T)
  with assms(2) show ?thesis
    using gate.balance_enter [of cb T now adm cb'] try_begin_ok [of cb now] by (simp add: balanced_def)
next
  case (refused now cb cb' T)
  with assms(2) show ?thesis
    using gate.balance_refused [of cb T now cb'] try_begin_ok [of cb now] by (simp add: balanced_def)
next
  case (headers T cb now)
  with assms(2) show ?thesis
    using gate.balance_end(1) [of cb T Probe now] by (simp add: balanced_def breaker_ok_ops)
next
  case (success adm T cb now)
  with assms(2) show ?thesis
    using gate.balance_end(1) [of cb T adm now] by (simp add: balanced_def breaker_ok_ops)
next
  case (failure adm T cb now)
  with assms(2) show ?thesis
    using gate.balance_end(2) [of cb T adm now] by (simp add: balanced_def breaker_ok_ops)
next
  case (disconnect adm T cb)
  with assms(2) show ?thesis
    using gate.balance_end(3) [of cb T adm] by (simp add: balanced_def breaker_ok_ops)
qed (auto simp: balanced_def breaker_ok_ops breaker_results frame_simps)

lemma reachable_balanced: "breaker_reachable s \<Longrightarrow> balanced s"
proof (induction rule: breaker_reachable.induct)
  case (start thr mr w od now)
  show ?case using new_breaker_ok by (simp add: balanced_def) (simp add: new_breaker_def)
next
  case (step s s')
  then show ?case by (blast intro: breaker_step_balanced)
qed

inductive_cases breaker_stepE: "breaker_step (cb, T) (cb', T')"

section \<open>Verdict logs and the trip decision\<close>

lemma record_verdict_frame [frame_simps]:
  "failure_rate_threshold (record_verdict now ok cb) = failure_rate_threshold cb"
  "min_requests (record_verdict now ok cb) = min_requests cb"
  "open_duration (record_verdict now ok cb) = open_duration cb"
  "length (buckets (inner (record_verdict now ok cb))) = length (buckets (inner cb))"
  by (auto simp: record_verdict_def record_success_def record_failure_def Let_def frame_simps)

lemma record_log_frame [frame_simps]:
  "failure_rate_threshold (record_log evs cb) = failure_rate_threshold cb"
  "min_requests (record_log evs cb) = min_requests cb"
  "open_duration (record_log evs cb) = open_duration cb"
  "length (buckets (inner (record_log evs cb))) = length (buckets (inner cb))"
  by (induction evs rule: rev_induct) (auto simp: record_log_def frame_simps split_beta)

lemma new_breaker_fields:
  "failure_rate_threshold (new_breaker thr mr w od t0) = thr"
  "min_requests (new_breaker thr mr w od t0) = max mr 1"
  "open_duration (new_breaker thr mr w od t0) = from_secs (unat od)"
  "length (buckets (inner (new_breaker thr mr w od t0))) = unat (max w 1)"
  by (simp_all add: new_breaker_def)

lemma record_log_totals:
  fixes w :: u64
  assumes "sorted (map fst evs)" "\<forall>(t, _) \<in> set evs. t0 \<le> t" "evs \<noteq> []"
  defines "now \<equiv> fst (last evs)" and "n \<equiv> unat (max w 1)"
  shows "totals (inner (record_log evs (new_breaker thr mr w od t0))) =
    (of_nat (length (filter (\<lambda>(t, ok). \<not> ok \<and> in_window t0 n now t) evs)),
     of_nat (length (filter (\<lambda>(t, ok). in_window t0 n now t) evs)))"
proof -
  let ?s = "inner (record_log evs (new_breaker thr mr w od t0))"
  have "tracks t0 (sec_of t0 now) evs ?s"
    using tracks_record_log [OF assms(1,2) tracks_new] assms(3) by (simp add: now_def)
  from tracks_totals [OF this] show ?thesis
    by (simp add: frame_simps new_breaker_fields n_def)
qed

lemma max_one_pos: "0 < max mr (1 :: u64)"
  by (simp add: max_def word_less_nat_alt word_le_nat_alt)

lemma should_trip_rate:
  assumes "failure_rate_threshold cb = Fin q" "totals s = (of_nat f, of_nat n)"
    and "f \<le> n" "n \<le> 2 ^ 53" "0 < min_requests cb"
  shows "should_trip cb s \<longleftrightarrow> unat (min_requests cb) \<le> n \<and> q \<le> rnd (of_nat f / of_nat n)"
proof -
  have u: "unat (of_nat n :: u64) = n" "unat (of_nat f :: u64) = f"
    using assms(3,4) by (simp_all add: unat_of_nat_u64)
  have rate: "le_f64 (Fin q) (div_f64 (f64_of_u64 (of_nat f)) (f64_of_u64 (of_nat n))) \<longleftrightarrow>
      q \<le> rnd (of_nat f / of_nat n)" if "0 < n"
    using that assms(3,4) by (simp only: f64_of_u64_def u ratio_f64 le_f64.simps)
  have "min_requests cb \<le> (of_nat n :: u64) \<longleftrightarrow> unat (min_requests cb) \<le> n"
    unfolding word_le_nat_alt u ..
  moreover have "0 < unat (min_requests cb)" using assms(5) by (simp add: word_less_nat_alt)
  ultimately show ?thesis
    using rate assms(1,2) by (cases "0 < n") (auto simp: should_trip_def)
qed

lemma should_trip_half:
  assumes "failure_rate_threshold cb = Fin (1 / 2)" "totals s = (of_nat f, of_nat n)"
    and "f \<le> n" "n \<le> 2 ^ 53" "0 < min_requests cb"
  shows "should_trip cb s \<longleftrightarrow> unat (min_requests cb) \<le> n \<and> n \<le> 2 * f"
proof -
  have "0 < unat (min_requests cb)" using assms(5) by (simp add: word_less_nat_alt)
  then show ?thesis using should_trip_rate [OF assms] ratio_half_exact [of n f] assms(3,4) by (cases "0 < n") auto
qed

text \<open>A failure on a closed circuit: the decision is taken on the verdicts inside the window.\<close>

definition inside_window :: "u64 \<Rightarrow> instant \<Rightarrow> instant \<Rightarrow> (instant \<times> bool) list \<Rightarrow> (instant \<times> bool) list" where
  "inside_window w t0 now evs = filter (\<lambda>(t, ok). in_window t0 (unat (max w 1)) now t) evs"

abbreviation failed_in :: "(instant \<times> bool) list \<Rightarrow> nat" where
  "failed_in evs \<equiv> length (filter (\<lambda>(t, ok). \<not> ok) evs)"

lemma last_failure_decides:
  fixes w mr :: u64
  assumes "sorted (map fst (evs @ [(now, False)]))" "\<forall>(t, _) \<in> set (evs @ [(now, False)]). t0 \<le> t"
    and "state (inner (record_log evs (new_breaker thr mr w od t0))) = Closed" "length evs < 2 ^ 53"
  defines "cb \<equiv> record_log (evs @ [(now, False)]) (new_breaker thr mr w od t0)"
    and "inside \<equiv> inside_window w t0 now (evs @ [(now, False)])"
  shows "\<exists>cb0 s. failure_rate_threshold cb0 = thr \<and> min_requests cb0 = max mr 1 \<and>
    totals s = (of_nat (failed_in inside), of_nat (length inside)) \<and> length inside \<le> 2 ^ 53 \<and>
    state (inner cb) = (if should_trip cb0 s then Open else Closed)"
proof -
  let ?cb0 = "record_log evs (new_breaker thr mr w od t0)"
  let ?s = "bump_failure (rotate now (refreshed now ?cb0))"
  have cb: "cb = record_failure now Normal ?cb0"
    by (simp add: cb_def record_log_snoc record_verdict_def)
  have st: "state (inner cb) = (if should_trip ?cb0 ?s then Open else Closed)"
    using assms(3) unfolding cb by (simp add: record_failure_state refreshed_state)
  have "buckets ?s = buckets (inner cb)"
    using record_verdict_buckets [of now False ?cb0] by (simp add: cb record_verdict_def)
  then have "totals ?s = totals (inner cb)" by (simp add: totals_def)
  also have "\<dots> = (of_nat (failed_in inside), of_nat (length inside))"
    using record_log_totals [OF assms(1,2)]
    by (simp add: cb_def inside_def inside_window_def split_def conj_commute)
  finally have tot: "totals ?s = \<dots>" .
  have "length inside \<le> 2 ^ 53"
    using length_filter_le [of _ "evs @ [(now, False)]"] assms(4) unfolding inside_def inside_window_def
    by (metis (no_types, lifting) Suc_leI le_trans length_append_singleton)
  moreover have "failure_rate_threshold ?cb0 = thr" "min_requests ?cb0 = max mr 1"
    by (simp_all add: frame_simps new_breaker_fields)
  ultimately show ?thesis using st tot by blast
qed

lemma totals_clear_bump:
  assumes "window_ok s"
  shows "totals (bump_success (clear now s)) = (0, 1)"
proof -
  have ok: "window_ok (clear now s)" using assms by auto
  obtain m where n: "length (buckets s) = Suc m"
    using assms by (cases "length (buckets s)") (auto simp: window_ok_def)
  have "window (bump_success (clear now s)) =
      \<lparr>successes = 1, failures = 0\<rparr> # replicate m bucket_default"
    unfolding window_bump_success [OF ok] window_clear n by (simp add: bucket_default_def)
  moreover have "window_ok (bump_success (clear now s))" using ok by auto
  ultimately show ?thesis
    by (simp add: totals_window sum_list_replicate bucket_default_def map_replicate)
qed

lemma probe_success_totals:
  assumes "breaker_ok cb" "state (refreshed now cb) = HalfOpen"
  shows "totals (inner (record_success now Probe cb)) = (0, 1)"
proof -
  let ?s = "rotate now (refreshed now cb)"
  have "inner_ok ?s" using assms(1) by (auto simp: breaker_ok_def)
  then have "window_ok ?s" by (simp add: inner_ok_def)
  then have "totals (bump_success (clear now (?s\<lparr>state := Closed, opened_at := None\<rparr>))) = (0, 1)"
    by (intro totals_clear_bump) simp
  moreover have "totals (inner (record_success now Probe cb)) =
      totals (bump_success (clear now (?s\<lparr>state := Closed, opened_at := None\<rparr>)))"
    using assms(2) by (simp add: record_success_def frame_simps totals_def bump_success_def Let_def)
  ultimately show ?thesis by simp
qed

lemmas breaker_eval = new_breaker_def try_begin_def record_failure_def record_success_def
  refreshed_def refresh_def rotate_def clear_def bump_failure_def bump_success_def
  bucket_default_def saturating_duration_since_def as_secs_def from_secs_def Let_def

text \<open>A concrete run: one request fails and trips the circuit, the next one is the probe.\<close>

definition tiny_breaker :: circuit_breaker where
  "tiny_breaker = new_breaker (Fin (1 / 2)) 1 1 0 0"

definition tripped_breaker :: circuit_breaker where
  "tripped_breaker = record_failure 0 Normal tiny_breaker"

lemma tiny_breaker_begin: "try_begin 0 tiny_breaker = (Some Normal, tiny_breaker)"
  unfolding tiny_breaker_def by (simp add: breaker_eval)

lemma tiny_breaker_trips: "should_trip tiny_breaker (bump_failure (rotate 0 (refreshed 0 tiny_breaker)))"
proof -
  have "totals (bump_failure (rotate 0 (refreshed 0 tiny_breaker))) = (of_nat 1, of_nat 1)"
    unfolding tiny_breaker_def by (simp add: breaker_eval totals_def)
  then show ?thesis
    by (subst should_trip_half [of _ _ 1 1]) (simp_all add: tiny_breaker_def new_breaker_fields)
qed

lemma tripped_breaker_fields:
  "state (inner tripped_breaker) = Open" "opened_at (inner tripped_breaker) = Some 0"
  "\<not> probe_out tripped_breaker" "open_duration tripped_breaker = 0"
  using tiny_breaker_trips
  by (simp_all add: tripped_breaker_def record_failure_state frame_simps)
     (simp_all add: tiny_breaker_def new_breaker_def refreshed_def refresh_def)

lemma probe_example: "breaker_reachable (snd (try_begin 1 tripped_breaker), {#Probe#})"
proof -
  have "breaker_reachable (tiny_breaker, {#})"
    unfolding tiny_breaker_def by (rule breaker_reachable.start)
  then have "breaker_reachable (tiny_breaker, {#Normal#})"
    using breaker_step.admitted [OF tiny_breaker_begin] by (rule breaker_reachable.step)
  moreover have "breaker_step (tiny_breaker, {#Normal#}) (tripped_breaker, {#Normal#} - {#Normal#})"
    unfolding tripped_breaker_def by (rule breaker_step.failure) simp
  ultimately have "breaker_reachable (tripped_breaker, {#})"
    using breaker_reachable.step by fastforce
  moreover have "fst (try_begin 1 tripped_breaker) = Some Probe"
    by (simp add: try_begin_result refreshed_state tripped_breaker_fields)
  then have "try_begin 1 tripped_breaker = (Some Probe, snd (try_begin 1 tripped_breaker))"
    by (metis prod.collapse)
  ultimately show ?thesis
    using breaker_step.admitted [of 1 tripped_breaker Probe _ "{#}"] breaker_reachable.step by blast
qed

section \<open>Properties\<close>

text \<open>
  C4. Half-open admits exactly one probe. In every interleaving of the callers at most one
  probe admission is outstanding; while it is, the circuit is half-open, every other caller is
  refused and the backend is not offered; while it is not, a half-open circuit grants the
  probe to the next caller, so no probe is ever lost.
\<close>

theorem at_most_one_probe:
  assumes "breaker_reachable (cb, T)"
  shows "count T Probe \<le> 1 \<and>
    (Probe \<in># T \<longrightarrow> state (inner cb) = HalfOpen \<and> fst (try_begin now cb) = None \<and>
       \<not> fst (breaker_is_routable now cb)) \<and>
    (Probe \<notin># T \<and> state (inner cb) = HalfOpen \<longrightarrow> fst (try_begin now cb) = Some Probe \<and>
       fst (breaker_is_routable now cb))"
proof -
  have b: "breaker_ok cb" "count T Probe = of_bool (probe_out cb)"
    using reachable_balanced [OF assms] by (simp_all add: balanced_def)
  then have "count T Probe \<le> 1" by simp
  moreover have "Probe \<in># T \<longleftrightarrow> probe_out cb" using b(2) by (simp flip: count_greater_zero_iff)
  ultimately show ?thesis
    using probe_out_half_open [OF b(1)] by (simp add: breaker_results refreshed_state)
qed

theorem at_most_one_probe_witness:
  "\<exists>cb. breaker_reachable (cb, {#Probe#}) \<and> state (inner cb) = HalfOpen \<and>
     fst (try_begin 2 cb) = None"
  using at_most_one_probe [OF probe_example, of 2] probe_example by auto

text \<open>
  C5. The circuit closes only on the verdict of the outstanding probe, and then starts from
  an empty window that holds just that one success. No other call, in no interleaving, moves
  an open or half-open circuit back to closed.
\<close>

theorem closes_only_by_probe:
  assumes "breaker_reachable (cb, T)" "breaker_step (cb, T) (cb', T')"
    and "state (inner cb) \<noteq> Closed" "state (inner cb') = Closed"
  shows "Probe \<in># T \<and> Probe \<notin># T' \<and> totals (inner cb') = (0, 1)"
proof -
  have ok: "breaker_ok cb" using reachable_balanced [OF assms(1)] by (simp add: balanced_def)
  have bal: "count T Probe \<le> 1"
    using reachable_balanced [OF assms(1)] by (simp add: balanced_def)
  have nc: "state (refreshed now cb) \<noteq> Closed" for now using assms(3) by (simp add: refreshed_state)
  have "\<exists>now. cb' = record_success now Probe cb \<and> Probe \<in># T \<and>
      (T' = T - {#Probe#} \<or> T' = add_mset Normal (T - {#Probe#}))"
    using assms(2)
    by (cases rule: breaker_stepE)
       (use assms(3,4) nc in \<open>auto simp: breaker_results split: if_splits dest!: arg_cong [where f = snd]\<close>)
  then obtain now where cb': "cb' = record_success now Probe cb" and T: "Probe \<in># T"
      "T' = T - {#Probe#} \<or> T' = add_mset Normal (T - {#Probe#})"
    by blast
  have "Probe \<notin># T'" using T bal by (auto simp: not_in_iff)
  moreover have "state (refreshed now cb) = HalfOpen"
    using assms(3,4) nc unfolding cb' by (auto simp: breaker_results split: if_splits)
  then have "totals (inner cb') = (0, 1)"
    using probe_success_totals [OF ok] unfolding cb' by simp
  ultimately show ?thesis using T(1) by blast
qed

theorem closes_only_by_probe_witness:
  "\<exists>cb cb'. breaker_step (cb, {#Probe#}) (cb', {#}) \<and> state (inner cb') = Closed \<and>
     totals (inner cb') = (0, 1)"
proof -
  let ?cb = "snd (try_begin 1 tripped_breaker)"
  have st: "state (inner ?cb) = HalfOpen"
    by (simp add: breaker_results refreshed_state tripped_breaker_fields)
  have step: "breaker_step (?cb, {#Probe#}) (record_success 2 Probe ?cb, {#})"
    using breaker_step.success [of Probe "{#Probe#}" ?cb 2] by simp
  have "state (inner (record_success 2 Probe ?cb)) = Closed"
    using st by (simp add: record_success_state refreshed_state)
  with closes_only_by_probe [OF probe_example step] st step show ?thesis by auto
qed

text \<open>
  C6. The sliding window. After any verdicts of ordinary requests at non-decreasing times,
  the totals over the bucket ring are exactly the failures and the verdicts of the current
  second and the \<open>window_secs - 1\<close> seconds before it (as \<open>u64\<close> values).
\<close>

theorem sliding_window_counts:
  fixes w :: u64
  assumes "sorted (map fst (evs @ [(now, ok)]))" "\<forall>(t, _) \<in> set (evs @ [(now, ok)]). t0 \<le> t"
  shows "totals (inner (record_log (evs @ [(now, ok)]) (new_breaker thr mr w od t0))) =
    (of_nat (length (filter (\<lambda>(t, ok). \<not> ok \<and> in_window t0 (unat (max w 1)) now t)
       (evs @ [(now, ok)]))),
     of_nat (length (filter (\<lambda>(t, ok). in_window t0 (unat (max w 1)) now t) (evs @ [(now, ok)]))))"
  using record_log_totals [OF assms] by simp

theorem sliding_window_counts_witness:
  "totals (inner (record_log [(0, False), (9000000000, False), (10000000000, True)]
     (new_breaker (Fin (1 / 2)) 4 10 30 0))) = (1, 2)"
proof -
  have "max 10 (1 :: u64) = 10" by (simp add: max_def word_le_nat_alt)
  then show ?thesis
    using sliding_window_counts [of "[(0, False), (9000000000, False)]" 10000000000 True 0
        "Fin (1 / 2)" 4 10 30]
    by (simp add: in_window_def sec_of_def as_secs_def)
qed

text \<open>
  C7. The trip decision with the default threshold 0.5 is exact although it is computed in
  \<open>f64\<close>: a failure of an ordinary request on a closed circuit opens it if and only if the
  window now holds at least \<open>min_requests\<close> verdicts and at least half of them are failures.
\<close>

theorem trips_exactly_at_half:
  fixes w mr :: u64
  assumes "sorted (map fst (evs @ [(now, False)]))" "\<forall>(t, _) \<in> set (evs @ [(now, False)]). t0 \<le> t"
    and "state (inner (record_log evs (new_breaker (Fin (1 / 2)) mr w od t0))) = Closed"
    and "length evs < 2 ^ 53"
  defines "cb \<equiv> record_log (evs @ [(now, False)]) (new_breaker (Fin (1 / 2)) mr w od t0)"
    and "inside \<equiv> inside_window w t0 now (evs @ [(now, False)])"
  shows "state (inner cb) =
    (if unat (max mr 1) \<le> length inside \<and> length inside \<le> 2 * failed_in inside then Open else Closed)"
proof -
  obtain cb0 s where d: "failure_rate_threshold cb0 = Fin (1 / 2)" "min_requests cb0 = max mr 1"
    "totals s = (of_nat (failed_in inside), of_nat (length inside))" "length inside \<le> 2 ^ 53"
    "state (inner cb) = (if should_trip cb0 s then Open else Closed)"
    using last_failure_decides [OF assms(1-4)] unfolding cb_def inside_def by blast
  have "0 < min_requests cb0" unfolding d(2) by (rule max_one_pos)
  then show ?thesis using should_trip_half [OF d(1,3) length_filter_le d(4)] d(2,5) by simp
qed

theorem trips_exactly_at_half_witness:
  "state (inner (record_log [(0, True), (0, False), (1, False)]
     (new_breaker (Fin (1 / 2)) 3 1 30 0))) = Open"
proof -
  let ?cb = "record_log [(0, True), (0, False)] (new_breaker (Fin (1 / 2)) 3 1 30 0)"
  have m: "max 3 (1 :: u64) = 3" by (simp add: max_def word_le_nat_alt)
  have closed: "state (inner ?cb) = Closed"
    by (simp add: record_log_def record_verdict_def breaker_eval should_trip_def totals_def m
        word_le_nat_alt)
  from trips_exactly_at_half [OF _ _ closed, of 1]
  show ?thesis by (simp add: inside_window_def in_window_def sec_of_def as_secs_def m)
qed

text \<open>
  C8. The trip decision at any threshold. Let the configured threshold be the decimal \<open>d\<close>, stored
  as the nearest \<open>f64\<close>. A failure on a closed circuit opens it whenever the window holds at
  least \<open>min_requests\<close> verdicts and the failures reach the share \<open>d\<close> of them, exactly as
  written, in spite of both roundings. And it opens only if the share exceeds every number
  below the stored threshold that \<open>f64\<close> can represent.
\<close>

theorem trips_at_threshold:
  fixes w mr :: u64
  assumes "sorted (map fst (evs @ [(now, False)]))" "\<forall>(t, _) \<in> set (evs @ [(now, False)]). t0 \<le> t"
    and "state (inner (record_log evs (new_breaker (Fin (rnd d)) mr w od t0))) = Closed"
    and "length evs < 2 ^ 53"
  defines "cb \<equiv> record_log (evs @ [(now, False)]) (new_breaker (Fin (rnd d)) mr w od t0)"
    and "inside \<equiv> inside_window w t0 now (evs @ [(now, False)])"
  shows "(unat (max mr 1) \<le> length inside \<and> d \<le> of_nat (failed_in inside) / of_nat (length inside) \<longrightarrow>
      state (inner cb) = Open) \<and>
    (state (inner cb) = Open \<longrightarrow> unat (max mr 1) \<le> length inside \<and>
      (\<forall>t. representable t \<and> t < rnd d \<longrightarrow> t < of_nat (failed_in inside) / of_nat (length inside)))"
proof -
  obtain cb0 s where c: "failure_rate_threshold cb0 = Fin (rnd d)" "min_requests cb0 = max mr 1"
    "totals s = (of_nat (failed_in inside), of_nat (length inside))" "length inside \<le> 2 ^ 53"
    "state (inner cb) = (if should_trip cb0 s then Open else Closed)"
    using last_failure_decides [OF assms(1-4)] unfolding cb_def inside_def by blast
  have "0 < min_requests cb0" unfolding c(2) by (rule max_one_pos)
  from should_trip_rate [OF c(1,3) length_filter_le c(4) this] have
    trip: "state (inner cb) = Open \<longleftrightarrow> unat (max mr 1) \<le> length inside \<and>
      rnd d \<le> rnd (of_nat (failed_in inside) / of_nat (length inside))" using c(2,5) by simp
  show ?thesis using trip b64.mono b64.above by (meson order_less_le_trans)
qed

theorem trips_at_threshold_witness:
  "state (inner (record_log [(0, True), (0, True), (1, False)]
     (new_breaker (Fin (rnd (1 / 3))) 3 1 30 0))) = Open"
proof -
  let ?cb = "record_log [(0, True), (0, True)] (new_breaker (Fin (rnd (1 / 3))) 3 1 30 0)"
  have m: "max 3 (1 :: u64) = 3" by (simp add: max_def word_le_nat_alt)
  have closed: "state (inner ?cb) = Closed"
    by (simp add: record_log_def record_verdict_def breaker_eval should_trip_def totals_def m
        word_le_nat_alt)
  from trips_at_threshold [OF _ _ closed, of 1]
  show ?thesis by (simp add: inside_window_def in_window_def sec_of_def as_secs_def m)
qed

text \<open>
  The open period. Verdicts of ordinary requests that arrive while the circuit is open
  never close it, never extend it and never release a probe: at any later \<open>now\<close> the state is
  half-open exactly when \<open>open_duration\<close> has passed since the circuit opened.
\<close>

theorem open_period:
  assumes "state (inner cb) = Open" "opened_at (inner cb) = Some t"
    and "\<forall>(t', _) \<in> set evs. t' - t < open_duration cb"
  shows "state (inner (record_log evs cb)) = Open \<and> opened_at (inner (record_log evs cb)) = Some t \<and>
    probe_out (record_log evs cb) = probe_out cb \<and>
    fst (breaker_state now (record_log evs cb)) =
      (if open_duration cb \<le> now - t then HalfOpen else Open)"
proof -
  have "state (inner (record_log evs cb)) = Open \<and> opened_at (inner (record_log evs cb)) = Some t \<and>
      probe_out (record_log evs cb) = probe_out cb"
    using assms(3)
  proof (induction evs rule: rev_induct)
    case Nil
    with assms show ?case by (simp add: record_log_def)
  next
    case (snoc e evs)
    obtain t' ok where e: "e = (t', ok)" by fastforce
    with snoc have "state (refreshed t' (record_log evs cb)) = Open"
      by (simp add: refreshed_state frame_simps)
    with snoc e show ?case
      by (cases ok) (simp_all add: record_log_snoc record_verdict_def breaker_results)
  qed
  then show ?thesis by (simp add: breaker_state_result refreshed_state frame_simps)
qed

theorem open_period_witness:
  "fst (breaker_state 3 (record_log [] tripped_breaker)) = HalfOpen"
  using open_period [OF tripped_breaker_fields(1,2), of "[]" 3]
  by (simp add: tripped_breaker_fields)

text \<open>
  A backend is never lost for good: in every reachable state without an outstanding probe
  there is an instant, at most \<open>open_duration\<close> after the circuit opened, from which on the
  breaker offers the backend and admits a request.
\<close>

theorem breaker_recovers:
  assumes "breaker_reachable (cb, T)" "Probe \<notin># T"
  shows "\<exists>t1. (\<forall>t. opened_at (inner cb) = Some t \<longrightarrow> t1 = t + open_duration cb) \<and>
    (\<forall>now \<ge> t1. fst (breaker_is_routable now cb) \<and> fst (try_begin now cb) \<noteq> None)"
proof -
  have ok: "breaker_ok cb" and np: "\<not> probe_out cb"
    using reachable_balanced [OF assms(1)] assms(2) by (auto simp: balanced_def not_in_iff)
  show ?thesis
  proof (cases "opened_at (inner cb)")
    case None
    with ok have "state (inner cb) = Closed" by (simp add: breaker_ok_def inner_ok_def)
    then show ?thesis using None by (auto simp: breaker_results refreshed_state)
  next
    case (Some t)
    with ok have "state (inner cb) \<noteq> Closed" by (auto simp: breaker_ok_def inner_ok_def)
    then have "state (refreshed now cb) = HalfOpen" if "t + open_duration cb \<le> now" for now
      using that Some by (cases "state (inner cb)") (auto simp: refreshed_state)
    then show ?thesis
      using Some np by (intro exI [of _ "t + open_duration cb"]) (simp add: breaker_results)
  qed
qed

theorem breaker_recovers_witness:
  "\<exists>t1. \<forall>now \<ge> t1. fst (try_begin now tiny_breaker) \<noteq> None"
  using breaker_recovers [OF breaker_reachable.start, of "Fin (1 / 2)" 1 1 0 0]
  unfolding tiny_breaker_def by auto

end
