(* ===== verification/Backend.thy ===== *)
theory Backend
  imports Circuit_Breaker
begin

text \<open>
  One backend and the pool (router-core/src/backend.rs). The atomics of \<open>Backend\<close> are the
  fields of a record, its breaker is embedded in it. A shared reference (\<open>Arc\<close>) to a
  backend is its position in \<open>BackendPool.backends\<close>, which never changes after startup, so
  an update through one reference is seen through every other.

  The theory shows the routable set (health, breaker and the soft queue limit), that building
  it never claims a probe, and the range of the latency estimate in \<open>f64\<close> arithmetic.
\<close>

section \<open>Data\<close>

record backend =
  backend_id :: nat
  url :: string
  weight :: u32
  breaker :: circuit_breaker
  healthy :: bool
  active_connections :: usize
  ewma_latency_us :: u64
  queue_depth :: u64
  kv_cache_usage_bp :: u64
  consecutive_health_failures :: u64
  consecutive_health_successes :: u64

record backend_pool =
  backends :: "backend list"
  max_queue_depth :: u64

section \<open>Operations\<close>

definition new_backend :: "nat \<Rightarrow> string \<Rightarrow> u32 \<Rightarrow> circuit_breaker \<Rightarrow> backend" where
  "new_backend i u w cb =
     \<lparr>backend_id = i, url = u, weight = w, breaker = cb, healthy = True,
      active_connections = 0, ewma_latency_us = 0, queue_depth = 0, kv_cache_usage_bp = 0,
      consecutive_health_failures = 0, consecutive_health_successes = 0\<rparr>"

definition is_healthy :: "backend \<Rightarrow> bool" where
  "is_healthy b = healthy b"

text \<open>Short-circuit \<open>&&\<close>: the breaker is asked (and refreshed) only if the backend is healthy.\<close>

definition backend_is_routable :: "instant \<Rightarrow> backend \<Rightarrow> bool \<times> backend" where
  "backend_is_routable now b =
     (if is_healthy b
      then (case breaker_is_routable now (breaker b) of (r, cb) \<Rightarrow> (r, b\<lparr>breaker := cb\<rparr>))
      else (False, b))"

definition mark_healthy :: "backend \<Rightarrow> backend" where
  "mark_healthy b = b\<lparr>healthy := True, consecutive_health_failures := 0\<rparr>"

definition mark_unhealthy :: "backend \<Rightarrow> backend" where
  "mark_unhealthy b = b\<lparr>healthy := False, consecutive_health_successes := 0\<rparr>"

definition record_request_start :: "backend \<Rightarrow> backend" where
  "record_request_start b = b\<lparr>active_connections := active_connections b + 1\<rparr>"

definition record_request_end :: "backend \<Rightarrow> backend" where
  "record_request_end b = b\<lparr>active_connections := active_connections b - 1\<rparr>"

text \<open>
  The new estimate is computed from the old one between a load and a store, which are two
  operations on the atomic: \<open>next_latency\<close> is what happens between them.
\<close>

definition next_latency :: "u64 \<Rightarrow> f64 \<Rightarrow> u64 \<Rightarrow> u64" where
  "next_latency latency_us alpha old =
     (if old = 0 then latency_us
      else
        let old_f = f64_of_u64 old;
            new_f = f64_of_u64 latency_us
        in u64_of_f64
             (add_f64 (mul_f64 alpha new_f)
                      (mul_f64 (sub_f64 (Fin 1) alpha) old_f)))"

definition update_ewma_latency :: "u64 \<Rightarrow> f64 \<Rightarrow> backend \<Rightarrow> backend" where
  "update_ewma_latency latency_us alpha b =
     (let old = ewma_latency_us b in b\<lparr>ewma_latency_us := next_latency latency_us alpha old\<rparr>)"

definition new_pool :: "backend list \<Rightarrow> u64 \<Rightarrow> backend_pool" where
  "new_pool bs m = \<lparr>backends = bs, max_queue_depth = m\<rparr>"

definition pool_len :: "backend_pool \<Rightarrow> nat" where
  "pool_len p = length (backends p)"

definition pool_is_empty :: "backend_pool \<Rightarrow> bool" where
  "pool_is_empty p \<longleftrightarrow> backends p = []"

text \<open>
  The routable references, and the pool whose breakers were refreshed on the way. The
  reading \<open>ts i\<close> is the one taken when backend \<open>i\<close> is checked.
\<close>

definition routable :: "(nat \<Rightarrow> instant) \<Rightarrow> backend_pool \<Rightarrow> nat list \<times> backend_pool" where
  "routable ts p =
     (let n = length (backends p);
          checked = map (\<lambda>i. backend_is_routable (ts i) (backends p ! i)) [0..<n];
          p' = p\<lparr>backends := map snd checked\<rparr>;
          available = filter (\<lambda>i. fst (checked ! i)) [0..<n];
          under_limit = filter (\<lambda>i. queue_depth (backends p' ! i) \<le> max_queue_depth p) available
      in (if under_limit = [] then available else under_limit, p'))"

section \<open>The routable set\<close>

definition pool_ok :: "backend_pool \<Rightarrow> bool" where
  "pool_ok p \<longleftrightarrow> (\<forall>b \<in> set (backends p). breaker_ok (breaker b)) \<and>
     (\<forall>i < length (backends p). backend_id (backends p ! i) = i)"

text \<open>What a reader of the pool sees of backend \<open>i\<close> at its reading.\<close>

definition available_at :: "(nat \<Rightarrow> instant) \<Rightarrow> backend_pool \<Rightarrow> nat \<Rightarrow> bool" where
  "available_at ts p i \<longleftrightarrow> i < length (backends p) \<and> healthy (backends p ! i) \<and>
     fst (breaker_is_routable (ts i) (breaker (backends p ! i)))"

definition within_queue_limit :: "backend_pool \<Rightarrow> nat \<Rightarrow> bool" where
  "within_queue_limit p i \<longleftrightarrow> queue_depth (backends p ! i) \<le> max_queue_depth p"

lemma backend_is_routable_simps:
  "fst (backend_is_routable now b) \<longleftrightarrow> healthy b \<and> fst (breaker_is_routable now (breaker b))"
  "snd (backend_is_routable now b) =
     (if healthy b then b\<lparr>breaker := snd (breaker_is_routable now (breaker b))\<rparr> else b)"
  by (auto simp: backend_is_routable_def is_healthy_def split_def)

lemma backend_is_routable_frame [frame_simps]:
  "backend_id (snd (backend_is_routable now b)) = backend_id b"
  "url (snd (backend_is_routable now b)) = url b"
  "weight (snd (backend_is_routable now b)) = weight b"
  "healthy (snd (backend_is_routable now b)) = healthy b"
  "active_connections (snd (backend_is_routable now b)) = active_connections b"
  "ewma_latency_us (snd (backend_is_routable now b)) = ewma_latency_us b"
  "queue_depth (snd (backend_is_routable now b)) = queue_depth b"
  "probe_out (breaker (snd (backend_is_routable now b))) = probe_out (breaker b)"
  by (simp_all add: backend_is_routable_simps breaker_results frame_simps)

lemma routable_pool:
  "length (backends (snd (routable ts p))) = length (backends p)"
  "i < length (backends p) \<Longrightarrow>
     backends (snd (routable ts p)) ! i = snd (backend_is_routable (ts i) (backends p ! i))"
  "max_queue_depth (snd (routable ts p)) = max_queue_depth p"
  by (simp_all add: routable_def Let_def)

lemma routable_list:
  "fst (routable ts p) =
     (let available = filter (available_at ts p) [0..<length (backends p)];
          under_limit = filter (within_queue_limit p) available
      in if under_limit = [] then available else under_limit)"
proof -
  let ?n = "length (backends p)"
  have av: "filter (\<lambda>i. fst (map (\<lambda>i. backend_is_routable (ts i) (backends p ! i)) [0..<?n] ! i)) [0..<?n]
      = filter (available_at ts p) [0..<?n]"
    by (rule filter_cong) (auto simp: available_at_def backend_is_routable_simps)
  have ul: "filter (\<lambda>i. queue_depth
          (map snd (map (\<lambda>i. backend_is_routable (ts i) (backends p ! i)) [0..<?n]) ! i) \<le> max_queue_depth p)
        (filter (available_at ts p) [0..<?n]) =
      filter (within_queue_limit p) (filter (available_at ts p) [0..<?n])"
    by (rule filter_cong) (auto simp: within_queue_limit_def frame_simps)
  have sel: "backends (p\<lparr>backends := xs\<rparr>) = xs" for xs by simp
  show ?thesis unfolding routable_def Let_def av sel ul by simp
qed

lemma routable_distinct: "distinct (fst (routable ts p))"
  by (simp add: routable_list Let_def)

lemma routable_mem:
  "i \<in> set (fst (routable ts p)) \<longleftrightarrow> available_at ts p i \<and>
     (within_queue_limit p i \<or> (\<forall>j. available_at ts p j \<longrightarrow> \<not> within_queue_limit p j))"
  by (auto simp: routable_list Let_def filter_empty_conv available_at_def)

lemma routable_pool_ok:
  assumes "pool_ok p"
  shows "pool_ok (snd (routable ts p))"
  using assms
  by (auto simp: pool_ok_def routable_pool frame_simps backend_is_routable_simps breaker_ok_ops
      in_set_conv_nth [of _ "backends (snd (routable ts p))"])

section \<open>The latency estimate\<close>

text \<open>The four roundings of one EWMA update, on values small enough not to overflow.\<close>

definition ewma_exact :: "rat \<Rightarrow> rat \<Rightarrow> rat \<Rightarrow> rat" where
  "ewma_exact a new_v old_v = rnd (rnd (a * new_v) + rnd (rnd (1 - a) * old_v))"

lemma ewma_error:
  assumes a: "0 \<le> a" "a \<le> 1" and v: "0 \<le> x" "x \<le> 2 ^ 50" "0 \<le> y" "y \<le> 2 ^ 50"
  shows "\<bar>rnd (a * x) + rnd (rnd (1 - a) * y) - (a * x + (1 - a) * y)\<bar> < 1 / 2"
    and "0 \<le> rnd (a * x)" "0 \<le> rnd (1 - a)" "rnd (1 - a) \<le> 1" "0 \<le> rnd (rnd (1 - a) * y)"
proof -
  define b h where "b = rnd (1 - a)" and "h = half_subnormal"
  have h: "0 < h" "h \<le> 1 / 2 ^ 60" unfolding h_def by (rule half_subnormal_bounds)+
  have b: "0 \<le> b" "b \<le> 1"
    unfolding b_def using a representable_of_nat [of 1] by (auto intro: rnd_nonneg b64.upper)
  then show "0 \<le> rnd (1 - a)" "rnd (1 - a) \<le> 1" by (simp_all add: b_def)
  show "0 \<le> rnd (a * x)" using a v by (intro rnd_nonneg) simp
  show "0 \<le> rnd (rnd (1 - a) * y)" using b v unfolding b_def by (intro rnd_nonneg) simp
  have p: "\<bar>rnd (a * x) - a * x\<bar> \<le> a * x / 2 ^ 53 + h"
    unfolding h_def using a v by (intro rnd_error) simp
  have q: "\<bar>rnd (b * y) - b * y\<bar> \<le> b * y / 2 ^ 53 + h"
    unfolding h_def using b v by (intro rnd_error) simp
  have "\<bar>b - (1 - a)\<bar> \<le> (1 - a) / 2 ^ 53 + h"
    unfolding b_def h_def using a by (intro rnd_error) simp
  then have "\<bar>(b - (1 - a)) * y\<bar> \<le> ((1 - a) / 2 ^ 53 + h) * y"
    unfolding abs_mult using v by (intro mult_mono) auto
  then have d: "\<bar>b * y - (1 - a) * y\<bar> \<le> (1 - a) * y / 2 ^ 53 + h * y"
    by (simp add: algebra_simps)
  have "a * x \<le> 1 * 2 ^ 50" "b * y \<le> 1 * 2 ^ 50" "(1 - a) * y \<le> 1 * 2 ^ 50"
    using a b v by (intro mult_mono; simp)+
  moreover have "h * y \<le> 1 / 2 ^ 60 * 2 ^ 50" using h v by (intro mult_mono) auto
  ultimately have "a * x / 2 ^ 53 \<le> 1 / 8" "b * y / 2 ^ 53 \<le> 1 / 8" "(1 - a) * y / 2 ^ 53 \<le> 1 / 8"
    "h * y \<le> 1 / 1024" "h \<le> 1 / 1024"
    using h by (simp_all add: mult.commute)
  with p q d have "\<bar>rnd (a * x) + rnd (b * y) - (a * x + (1 - a) * y)\<bar> < 1 / 2" by linarith
  then show "\<bar>rnd (a * x) + rnd (rnd (1 - a) * y) - (a * x + (1 - a) * y)\<bar> < 1 / 2"
    by (simp add: b_def)
qed

lemma representable_plus_half:
  assumes "n < 2 ^ 52"
  shows "representable (of_nat n + 1 / 2)"
proof -
  have "(of_nat n + 1 / 2 :: rat) = of_int (2 * int n + 1) * 2 powi (- 1)"
    by (simp add: power_int_minus field_simps)
  moreover have "\<bar>2 * int n + 1\<bar> \<le> 2 ^ 53" using assms by simp
  ultimately show ?thesis unfolding representable_def
    by (intro exI [of _ "2 * int n + 1"] exI [of _ "- 1"]) simp
qed

lemma ewma_range:
  fixes m M :: nat and a x y :: rat
  assumes a: "0 \<le> a" "a \<le> 1" and M: "M \<le> 2 ^ 50"
    and x: "of_nat m \<le> x" "x \<le> of_nat M" and y: "of_nat m \<le> y" "y \<le> of_nat M"
  shows "of_nat m - 1 \<le> ewma_exact a x y" and "ewma_exact a x y \<le> of_nat M + 1 / 2"
    and "0 \<le> ewma_exact a x y"
proof -
  have le: "(of_nat M :: rat) \<le> 2 ^ 50" using M by (rule of_nat_le_pow)
  have xy: "0 \<le> x" "x \<le> 2 ^ 50" "0 \<le> y" "y \<le> 2 ^ 50"
    using x y le of_nat_0_le_iff [of m, where 'a = rat] by linarith+
  note err = ewma_error [OF a xy]
  have "a * of_nat m \<le> a * x" "a * x \<le> a * of_nat M"
    "(1 - a) * of_nat m \<le> (1 - a) * y" "(1 - a) * y \<le> (1 - a) * of_nat M"
    using a x y by (simp_all add: mult_left_mono)
  moreover have "a * of_nat k + (1 - a) * of_nat k = of_nat k" for k by (simp add: algebra_simps)
  ultimately have "of_nat m \<le> a * x + (1 - a) * y" "a * x + (1 - a) * y \<le> of_nat M"
    by (metis add_mono)+
  then have s: "of_nat m - 1 \<le> rnd (a * x) + rnd (rnd (1 - a) * y)"
    "rnd (a * x) + rnd (rnd (1 - a) * y) \<le> of_nat M + 1 / 2"
    using err(1) by linarith+
  show "ewma_exact a x y \<le> of_nat M + 1 / 2"
    unfolding ewma_exact_def using s(2) M by (intro b64.upper representable_plus_half) auto
  have "0 \<le> rnd (a * x) + rnd (rnd (1 - a) * y)" using err(2,5) by simp
  then show "0 \<le> ewma_exact a x y" unfolding ewma_exact_def by (rule rnd_nonneg)
  have "m \<le> M" using x by (metis of_nat_le_iff order_trans)
  then have "representable (of_nat m - 1)"
    using M representable_of_int [of "int m - 1"] by simp
  then show "of_nat m - 1 \<le> ewma_exact a x y"
    unfolding ewma_exact_def using s(1) by (rule b64.lower)
qed

lemma ewma_range_nat:
  assumes "0 \<le> a" "a \<le> 1" "n \<le> 2 ^ 50" "k \<le> 2 ^ 50"
  shows "of_nat (min k n) - 1 \<le> ewma_exact a (of_nat n) (of_nat k)"
    and "ewma_exact a (of_nat n) (of_nat k) \<le> of_nat (max k n) + 1 / 2"
    and "0 \<le> ewma_exact a (of_nat n) (of_nat k)"
proof -
  have M: "max k n \<le> 2 ^ 50" using assms by simp
  have "of_nat (min k n) \<le> (of_nat n :: rat)" "(of_nat n :: rat) \<le> of_nat (max k n)"
    "of_nat (min k n) \<le> (of_nat k :: rat)" "(of_nat k :: rat) \<le> of_nat (max k n)"
    by simp_all
  note rng = ewma_range [OF assms(1,2) M this]
  show "of_nat (min k n) - 1 \<le> ewma_exact a (of_nat n) (of_nat k)" by (rule rng)
  show "ewma_exact a (of_nat n) (of_nat k) \<le> of_nat (max k n) + 1 / 2" by (rule rng)
  show "0 \<le> ewma_exact a (of_nat n) (of_nat k)" by (rule rng)
qed

lemma pow50_safe: "x \<le> 2 ^ 51 \<Longrightarrow> x \<le> safe_bound"
proof -
  assume "x \<le> 2 ^ 51"
  also have "(2 :: rat) ^ 51 \<le> 2 ^ 128" by (rule power_increasing) simp_all
  finally show ?thesis by (simp add: safe_bound_def)
qed

lemma ewma_f64:
  assumes a: "0 \<le> a" "a \<le> 1" and n: "n \<le> 2 ^ 50" "k \<le> 2 ^ 50"
  shows "add_f64 (mul_f64 (Fin a) (f64_of_nat n)) (mul_f64 (sub_f64 (Fin 1) (Fin a)) (f64_of_nat k)) =
    Fin (ewma_exact a (of_nat n) (of_nat k))"
proof -
  let ?x = "of_nat n :: rat" and ?y = "of_nat k :: rat"
  have x: "0 \<le> ?x" "?x \<le> 2 ^ 50" and y: "0 \<le> ?y" "?y \<le> 2 ^ 50"
    using n of_nat_le_pow by auto
  note err = ewma_error [OF a x y]
  have "a * ?x \<le> 1 * 2 ^ 50" "rnd (1 - a) * ?y \<le> 1 * 2 ^ 50"
    using a x y err by (intro mult_mono; simp)+
  then have le: "a * ?x \<le> 2 ^ 50" "rnd (1 - a) * ?y \<le> 2 ^ 50" by simp_all
  moreover have "rnd (a * ?x) \<le> 2 ^ 50" by (rule b64.upper [OF representable_pow le(1)])
  moreover have "rnd (rnd (1 - a) * ?y) \<le> 2 ^ 50"
    by (rule b64.upper [OF representable_pow le(2)])
  ultimately have "to_f64 (a * ?x) = Fin (rnd (a * ?x))"
    "to_f64 (rnd (1 - a) * ?y) = Fin (rnd (rnd (1 - a) * ?y))"
    "to_f64 (rnd (a * ?x) + rnd (rnd (1 - a) * ?y)) = Fin (rnd (rnd (a * ?x) + rnd (rnd (1 - a) * ?y)))"
    using a x y err by (auto intro!: to_f64_small pow50_safe)
  moreover have "to_f64 (1 - a) = Fin (rnd (1 - a))"
    using a by (intro to_f64_small) (auto intro: pow50_safe)
  moreover have "f64_of_nat n = Fin ?x" "f64_of_nat k = Fin ?y"
    using n by (simp_all add: f64_of_nat_exact)
  ultimately show ?thesis by (simp add: sub_f64_def ewma_exact_def)
qed

lemma below_pow64: "(x :: rat) \<le> z + 1 / 2 \<Longrightarrow> z \<le> 2 ^ 50 \<Longrightarrow> x < 2 ^ 64"
  by simp

lemma unat_of_int_u64: "0 \<le> i \<Longrightarrow> i < 2 ^ 64 \<Longrightarrow> unat (of_int i :: u64) = nat i"
  using unat_of_nat_u64 [of "nat i"] by (metis nat_less_numeral_power_cancel_iff of_int_of_nat_eq int_nat_eq)

lemma unat_u64_of_f64:
  assumes "0 \<le> x" "x < 2 ^ 64"
  shows "unat (u64_of_f64 (Fin x)) = nat \<lfloor>x\<rfloor>"
proof (cases "x = 0")
  case False
  have "\<lfloor>x\<rfloor> < 2 ^ 64" using assms(2) by (simp add: floor_less_iff)
  then have "unat (of_int \<lfloor>x\<rfloor> :: u64) = nat \<lfloor>x\<rfloor>"
    using assms(1) by (intro unat_of_int_u64) simp_all
  moreover have "\<not> x \<le> 0" "\<not> 2 ^ 64 \<le> x" using assms False by linarith+
  ultimately show ?thesis by (simp only: u64_of_f64.simps if_False)
qed simp

section \<open>Properties\<close>

text \<open>
  C17. The routable set. A backend is offered to the strategy exactly when it is healthy, its
  breaker lets traffic through and its scraped queue is within the limit; if every such
  backend is over the limit, all of them are offered. Computing the set claims no probe.
\<close>

theorem routable_spec:
  "(i \<in> set (fst (routable ts p)) \<longleftrightarrow>
      available_at ts p i \<and>
      (within_queue_limit p i \<or> \<not> (\<exists>j. available_at ts p j \<and> within_queue_limit p j))) \<and>
   (fst (routable ts p) = [] \<longleftrightarrow> \<not> (\<exists>j. available_at ts p j)) \<and>
   map (\<lambda>b. probe_out (breaker b)) (backends (snd (routable ts p))) =
     map (\<lambda>b. probe_out (breaker b)) (backends p)"
proof -
  have "fst (routable ts p) = [] \<longleftrightarrow> (\<forall>i. i \<notin> set (fst (routable ts p)))" by auto
  then have "fst (routable ts p) = [] \<longleftrightarrow> \<not> (\<exists>j. available_at ts p j)"
    unfolding routable_mem by blast
  moreover have "map (\<lambda>b. probe_out (breaker b)) (backends (snd (routable ts p))) =
      map (\<lambda>b. probe_out (breaker b)) (backends p)"
    by (rule nth_equalityI) (simp_all add: routable_pool frame_simps)
  ultimately show ?thesis using routable_mem [of i ts p] by blast
qed

text \<open>One backend, over the queue limit, and still routable.\<close>

theorem routable_spec_witness:
  "0 \<in> set (fst (routable (\<lambda>_. 0) (new_pool [(new_backend 0 ''http://b0'' 1 tiny_breaker)\<lparr>queue_depth := 9\<rparr>] 8)))"
proof -
  have "breaker_is_routable 0 tiny_breaker = (True, tiny_breaker)"
    by (simp add: tiny_breaker_def breaker_is_routable_def breaker_eval)
  then show ?thesis
    using routable_spec [of 0 "\<lambda>_. 0" "new_pool [(new_backend 0 ''http://b0'' 1 tiny_breaker)\<lparr>queue_depth := 9\<rparr>] 8"]
    by (simp add: available_at_def within_queue_limit_def new_pool_def new_backend_def)
qed

text \<open>
  C36. The latency estimate stays in range. For smoothing factors in \<open>[0, 1]\<close> and latencies up
  to \<open>2 ^ 50\<close> microseconds, four roundings and a truncation later, the new estimate is never
  above both the old estimate and the sample, and at most one microsecond below both.
\<close>

theorem ewma_bounds:
  assumes "0 \<le> a" "a \<le> 1" "ewma_latency_us b \<noteq> 0"
    and "unat (ewma_latency_us b) \<le> 2 ^ 50" "unat lat \<le> 2 ^ 50"
  defines "r \<equiv> unat (ewma_latency_us (update_ewma_latency lat (Fin a) b))"
  shows "r \<le> max (unat (ewma_latency_us b)) (unat lat) \<and>
    min (unat (ewma_latency_us b)) (unat lat) \<le> r + 1"
proof -
  let ?n = "unat lat" and ?k = "unat (ewma_latency_us b)"
  define v where "v = ewma_exact a (of_nat ?n) (of_nat ?k)"
  have rng: "of_nat (min ?k ?n) - 1 \<le> v" "v \<le> of_nat (max ?k ?n) + 1 / 2" "0 \<le> v"
    unfolding v_def by (rule ewma_range_nat [OF assms(1,2,5,4)])+
  have "(of_nat (max ?k ?n) :: rat) \<le> 2 ^ 50" using assms(4,5) by (intro of_nat_le_pow) simp
  with rng(2) have "v < 2 ^ 64" by (rule below_pow64)
  have "r = unat (u64_of_f64 (Fin v))"
    unfolding r_def update_ewma_latency_def next_latency_def Let_def f64_of_u64_def v_def
    using assms(3) ewma_f64 [OF assms(1,2,5,4)] by simp
  also have "\<dots> = nat \<lfloor>v\<rfloor>" using rng(3) \<open>v < 2 ^ 64\<close> by (rule unat_u64_of_f64)
  finally have r: "r = nat \<lfloor>v\<rfloor>" .
  have "\<lfloor>v\<rfloor> \<le> int (max ?k ?n)" using rng(2) by linarith
  moreover have "int (min ?k ?n) \<le> \<lfloor>v\<rfloor> + 1" using rng(1) by linarith
  ultimately show ?thesis unfolding r by linarith
qed

text \<open>An estimate of 200 us, a sample of 100 us and the smoothing factor 1/4.\<close>

definition warm_backend :: backend where
  "warm_backend = (new_backend 0 ''b0'' 1 (new_breaker (Fin (1 / 2)) 30 10 5 0))
     \<lparr>ewma_latency_us := 200\<rparr>"

theorem ewma_bounds_witness:
  "unat (ewma_latency_us (update_ewma_latency 100 (Fin (1 / 4)) warm_backend)) \<le> 200 \<and>
   99 \<le> unat (ewma_latency_us (update_ewma_latency 100 (Fin (1 / 4)) warm_backend))"
  using ewma_bounds [of "1 / 4" warm_backend 100] by (simp add: warm_backend_def)

end
