(* ===== verification/Routing.thy ===== *)
theory Routing
  imports Backend
begin

text \<open>
  The interface of the routing strategies (router-core/src/routing/mod.rs): what a strategy
  may look at, the contract of \<open>RoutingStrategy::select\<close> as a locale, and the iterator
  adaptor \<open>min_by_key\<close> that three strategies share.

  The request body is a \<open>serde_json::Value\<close>; its type is the type parameter \<open>'v\<close>. A strategy
  is handed the routable backends as the records they are at that moment.
\<close>

record 'v incoming_request =
  req_path :: string
  req_body :: "'v option"

section \<open>The contract of a strategy\<close>

text \<open>
  A strategy picks one of the backends it is offered, and gives up only when it is offered
  none. \<open>sel\<close> is one strategy with its state (a counter, a ring); \<open>fits\<close> says which lists
  the state was built for.
\<close>

locale routing_strategy =
  fixes fits :: "'s \<Rightarrow> backend list \<Rightarrow> bool"
    and sel :: "'v incoming_request \<Rightarrow> backend list \<Rightarrow> 's \<Rightarrow> nat option \<times> 's"
  assumes sel_empty: "fst (sel r [] s) = None"
    and sel_total: "fits s bs \<Longrightarrow> bs \<noteq> [] \<Longrightarrow> fst (sel r bs s) \<noteq> None"
    and sel_offered: "fits s bs \<Longrightarrow> fst (sel r bs s) = Some i \<Longrightarrow> i \<in> backend_id ` set bs"
    and sel_fits: "fits s bs \<Longrightarrow> fits (snd (sel r bs' s)) bs"
begin

lemma sel_None_iff: "fits s bs \<Longrightarrow> fst (sel r bs s) = None \<longleftrightarrow> bs = []"
  using sel_empty sel_total by metis

lemma sel_cases:
  assumes "fits s bs" "bs \<noteq> []"
  obtains b where "b \<in> set bs" "fst (sel r bs s) = Some (backend_id b)"
proof -
  obtain i where i: "fst (sel r bs s) = Some i" using sel_total [OF assms] by auto
  with sel_offered [OF assms(1) i] show thesis using that by auto
qed

end

section \<open>\<open>Iterator::min_by_key\<close>\<close>

text \<open>The first of the elements with the least key.\<close>

fun min_by_key :: "('a \<Rightarrow> 'k :: linorder) \<Rightarrow> 'a list \<Rightarrow> 'a option" where
  "min_by_key k [] = None"
| "min_by_key k (x # xs) = Some (fold (\<lambda>y m. if k y < k m then y else m) xs x)"

lemma fold_min_key:
  fixes k :: "'a \<Rightarrow> 'k :: linorder"
  defines "step \<equiv> \<lambda>y m. if k y < k m then y else m"
  shows "fold step xs x \<in> set (x # xs)" "y \<in> set (x # xs) \<Longrightarrow> k (fold step xs x) \<le> k y"
proof -
  show "fold step xs x \<in> set (x # xs)"
    by (induction xs arbitrary: x) (auto simp: step_def)
  have "k (fold step xs x) \<le> k x \<and> (\<forall>y \<in> set xs. k (fold step xs x) \<le> k y)"
    by (induction xs arbitrary: x) (force simp: step_def)+
  then show "y \<in> set (x # xs) \<Longrightarrow> k (fold step xs x) \<le> k y" by auto
qed

lemma min_by_key_Some:
  assumes "min_by_key k xs = Some x"
  shows "x \<in> set xs" "y \<in> set xs \<Longrightarrow> k x \<le> k y"
  using assms fold_min_key [where k = k] by (cases xs; auto)+

lemma min_by_key_None [simp]: "min_by_key k xs = None \<longleftrightarrow> xs = []"
  by (cases xs) simp_all

lemma min_by_key_first:
  assumes "min_by_key k xs = Some x"
  shows "\<exists>us vs. xs = us @ x # vs \<and> (\<forall>u \<in> set us. k x < k u) \<and> (\<forall>v \<in> set vs. k x \<le> k v)"
proof -
  define step where "step = (\<lambda>y m. if k y < k m then y else m)"
  have "\<exists>us vs. y # ys = us @ fold step ys y # vs \<and> (\<forall>u \<in> set us. k (fold step ys y) < k u)
      \<and> (\<forall>v \<in> set vs. k (fold step ys y) \<le> k v)" for y ys
  proof (induction ys arbitrary: y rule: rev_induct)
    case (snoc z ys)
    obtain us vs where IH: "y # ys = us @ fold step ys y # vs"
      "\<forall>u \<in> set us. k (fold step ys y) < k u" "\<forall>v \<in> set vs. k (fold step ys y) \<le> k v"
      using snoc.IH by blast
    show ?case
    proof (cases "k z < k (fold step ys y)")
      case True
      have "\<forall>u \<in> set (y # ys). k z < k u" unfolding IH(1) using True IH(2,3) by force
      with True show ?thesis by (intro exI [of _ "y # ys"] exI [of _ "[]"]) (simp add: step_def)
    next
      case False
      then have "fold step (ys @ [z]) y = fold step ys y" by (simp add: step_def)
      with False IH show ?thesis by (intro exI [of _ us] exI [of _ "vs @ [z]"]) auto
    qed
  next
    case Nil
    show ?case by (intro exI [of _ "[]"]) simp
  qed
  with assms show ?thesis by (cases xs) (auto simp: step_def)
qed

text \<open>The shared tail of the strategies: the id of the least-keyed backend.\<close>

lemma min_by_key_id:
  assumes "map_option backend_id (min_by_key k bs) = Some i"
  shows "i \<in> backend_id ` set bs"
  using assms min_by_key_Some(1) [of k bs] by auto

end
