(* ===== verification/Least_Loaded.thy ===== *)
theory Least_Loaded
  imports Routing
begin

text \<open>
  The two stateless strategies that take the first backend with the least load
  (router-core/src/routing/least_connections.rs and least_load.rs). \<open>LeastLoad\<close> adds the
  scraped queue depth to the connection count in \<open>u64\<close>, which wraps in the release build.
\<close>

section \<open>Operations\<close>

datatype least_connections = LeastConnections
datatype least_load = LeastLoad

definition least_connections_select ::
  "'v incoming_request \<Rightarrow> backend list \<Rightarrow> least_connections \<Rightarrow> nat option \<times> least_connections" where
  "least_connections_select req bs s = (map_option backend_id (min_by_key active_connections bs), s)"

definition load_of :: "backend \<Rightarrow> u64" where
  "load_of b = active_connections b + queue_depth b"

definition least_load_select ::
  "'v incoming_request \<Rightarrow> backend list \<Rightarrow> least_load \<Rightarrow> nat option \<times> least_load" where
  "least_load_select req bs s = (map_option backend_id (min_by_key load_of bs), s)"

section \<open>The strategy contract\<close>

interpretation lc: routing_strategy "\<lambda>_ _. True" least_connections_select
  by unfold_locales (auto simp: least_connections_select_def dest: min_by_key_Some)

interpretation ll: routing_strategy "\<lambda>_ _. True" least_load_select
  by unfold_locales (auto simp: least_load_select_def dest: min_by_key_Some)

section \<open>Least true load\<close>

text \<open>The load a reader means: connections and waiting requests, added without wrap.\<close>

definition true_load :: "backend \<Rightarrow> nat" where
  "true_load b = unat (active_connections b) + unat (queue_depth b)"

lemma unat_load_of: "true_load b < 2 ^ 64 \<Longrightarrow> unat (load_of b) = true_load b"
  by (simp add: load_of_def true_load_def unat_word_ariths)

lemma min_by_key_select:
  assumes "map_option backend_id (min_by_key k bs) = Some i"
  shows "\<exists>us b vs. bs = us @ b # vs \<and> backend_id b = i \<and>
    (\<forall>u \<in> set us. k b < k u) \<and> (\<forall>v \<in> set vs. k b \<le> k v)"
proof -
  obtain b where b: "min_by_key k bs = Some b" "backend_id b = i" using assms by auto
  show ?thesis using min_by_key_first [OF b(1)] b(2) by blast
qed

section \<open>Properties\<close>

text \<open>
  Least connections. The chosen backend has the fewest open connections of the routable
  ones, and is the first such; nothing is chosen only when nothing is routable.
\<close>

lemma least_connections_first_min:
  "case fst (least_connections_select req bs s) of
     None \<Rightarrow> bs = []
   | Some i \<Rightarrow> (\<exists>us b vs. bs = us @ b # vs \<and> backend_id b = i \<and>
       (\<forall>u \<in> set us. active_connections b < active_connections u) \<and>
       (\<forall>v \<in> set vs. active_connections b \<le> active_connections v))"
  using lc.sel_None_iff [OF TrueI, of req bs s] min_by_key_select [of active_connections bs]
  by (auto simp: least_connections_select_def split: option.split)

text \<open>
  As long as no backend's connections and waiting requests add up to
  \<open>2 ^ 64\<close>, the chosen backend has the least such total, and is the first one with it.
\<close>

lemma least_load_first_min:
  assumes "\<forall>b \<in> set bs. true_load b < 2 ^ 64" "fst (least_load_select req bs s) = Some i"
  shows "\<exists>us b vs. bs = us @ b # vs \<and> backend_id b = i \<and>
    (\<forall>u \<in> set us. true_load b < true_load u) \<and> (\<forall>v \<in> set vs. true_load b \<le> true_load v)"
proof -
  obtain us b vs where bs: "bs = us @ b # vs" "backend_id b = i"
    "\<forall>u \<in> set us. load_of b < load_of u" "\<forall>v \<in> set vs. load_of b \<le> load_of v"
    using min_by_key_select [of load_of bs i] assms(2) by (auto simp: least_load_select_def)
  have "unat (load_of c) = true_load c" if "c \<in> set bs" for c
    using assms(1) that by (intro unat_load_of) blast
  with bs show ?thesis by (intro exI [of _ us] exI [of _ b] exI [of _ vs])
      (auto simp: word_less_nat_alt word_le_nat_alt)
qed

definition busy_backend :: backend where
  "busy_backend = warm_backend\<lparr>active_connections := 2, queue_depth := 10\<rparr>"

definition idle_backend :: backend where
  "idle_backend = warm_backend\<lparr>backend_id := 1, active_connections := 5\<rparr>"

text \<open>
  The sum wraps: a backend whose connections and waiting requests add up to exactly
  \<open>2 ^ 64\<close> counts as idle: it is chosen over every backend listed before it that has any load,
  however small, and over everything listed after it. (A scraped queue beyond the range of
  \<open>u64\<close> is stored as \<open>2 ^ 64 - 1\<close>; one open connection then completes the sum.)
\<close>

lemma least_load_wraps:
  assumes "true_load b = 2 ^ 64" "\<forall>u \<in> set us. 0 < true_load u \<and> true_load u < 2 ^ 64"
  shows "fst (least_load_select req (us @ b # vs) s) = Some (backend_id b)"
proof -
  have "of_nat (true_load b) = (0 :: u64)" using assms(1) by simp
  then have b: "load_of b = 0" by (simp add: load_of_def true_load_def)
  have pos: "load_of b < load_of u" if "u \<in> set us" for u
    using assms(2) that unat_load_of [of u] by (auto simp: b word_less_nat_alt)
  obtain c where c: "min_by_key load_of (us @ b # vs) = Some c"
    using min_by_key_None [of load_of "us @ b # vs"] by (cases "min_by_key load_of (us @ b # vs)") simp_all
  obtain xs ys where split: "us @ b # vs = xs @ c # ys" "\<forall>u \<in> set xs. load_of c < load_of u"
    "\<forall>v \<in> set ys. load_of c \<le> load_of v"
    using min_by_key_first [OF c] by blast
  have "load_of c \<le> load_of b" using min_by_key_Some(2) [OF c, of b] by simp
  then have c0: "load_of c = load_of b" by (simp add: b)
  have "length xs = length us"
  proof (rule ccontr)
    assume "length xs \<noteq> length us"
    then consider "length xs < length us" | "length us < length xs" by linarith
    then show False
    proof cases
      case 1
      then have "c \<in> set us" using split(1) by (metis nth_append nth_append_length nth_mem)
      then show False using pos [of c] c0 by simp
    next
      case 2
      then have "b \<in> set xs" using split(1) by (metis nth_append nth_append_length nth_mem)
      then show False using split(2) c0 by auto
    qed
  qed
  then have "c = b" using split(1) by simp
  then show ?thesis using c by (simp add: least_load_select_def)
qed

text \<open>
  C40. Least load. As long as no backend's connections and waiting requests add up to
  \<open>2 ^ 64\<close>, the chosen backend has the least such total, and is the first one with it. But a
  backend where they add up to exactly \<open>2 ^ 64\<close> counts as idle and is chosen over every backend
  listed before it that has any load, and over everything listed after it.
\<close>

theorem least_load_choice:
  "((\<forall>b \<in> set bs. true_load b < 2 ^ 64) \<and> fst (least_load_select req bs s) = Some i \<longrightarrow>
     (\<exists>us b vs. bs = us @ b # vs \<and> backend_id b = i \<and>
       (\<forall>u \<in> set us. true_load b < true_load u) \<and> (\<forall>v \<in> set vs. true_load b \<le> true_load v))) \<and>
   (true_load b = 2 ^ 64 \<and> (\<forall>u \<in> set us. 0 < true_load u \<and> true_load u < 2 ^ 64) \<longrightarrow>
     fst (least_load_select req (us @ b # vs) s) = Some (backend_id b))"
  using least_load_first_min [of bs req s i] least_load_wraps [of b us req vs s] by blast

theorem least_load_choice_witness:
  "(\<exists>us b vs. [busy_backend, idle_backend] = us @ b # vs \<and> backend_id b = 1) \<and>
   fst (least_load_select \<lparr>req_path = [], req_body = None :: unit option\<rparr>
     ([idle_backend] @ warm_backend\<lparr>active_connections := 1, queue_depth := - 1\<rparr> # []) LeastLoad) = Some 0"
proof -
  let ?req = "\<lparr>req_path = [], req_body = None :: unit option\<rparr>"
  note defs = least_load_select_def busy_backend_def idle_backend_def warm_backend_def new_backend_def
    load_of_def true_load_def
  have "fst (least_load_select ?req [busy_backend, idle_backend] LeastLoad) = Some 1" by (simp add: defs)
  moreover have "\<forall>b \<in> set [busy_backend, idle_backend]. true_load b < 2 ^ 64" by (simp add: defs)
  moreover have "true_load (warm_backend\<lparr>active_connections := 1, queue_depth := - 1\<rparr>) = 2 ^ 64"
    "\<forall>u \<in> set [idle_backend]. 0 < true_load u \<and> true_load u < 2 ^ 64"
    by (simp_all add: defs unat_u64_max)
  moreover have "backend_id (warm_backend\<lparr>active_connections := 1, queue_depth := - 1\<rparr>) = 0"
    by (simp add: warm_backend_def new_backend_def)
  ultimately show ?thesis
    using least_load_choice [of "[busy_backend, idle_backend]" ?req LeastLoad 1
        "warm_backend\<lparr>active_connections := 1, queue_depth := - 1\<rparr>" "[idle_backend]" "[]"] by metis
qed

end
