(* ===== verification/Ring.thy ===== *)
theory Ring
  imports Prelude "HOL-Library.Product_Lexorder"
begin

text \<open>
  Consistent hashing with virtual nodes (router-core/src/routing/ring.rs). SHA-256 is a
  function of the sha2 crate, so the digest is the parameter \<open>sha256\<close>, from bytes to bytes.

  The reference for the lookup is clockwise distance: the word \<open>h - key\<close>, modulo \<open>2 ^ 64\<close>.
  The scan from the partition point, wrapping at the end of the sorted vector, finds the
  routable point at the least clockwise distance, and taking backends out of rotation moves
  only the keys they owned.
\<close>

section \<open>Hashing\<close>

definition DEFAULT_VNODES :: nat where
  "DEFAULT_VNODES = 128"

fun le_nat :: "string \<Rightarrow> nat" where
  "le_nat [] = 0"
| "le_nat (c # cs) = of_char c + 256 * le_nat cs"

definition from_le_bytes :: "string \<Rightarrow> u64" where
  "from_le_bytes bytes = of_nat (le_nat bytes)"

text \<open>A digest has 32 bytes by its type, so the conversion of its first eight cannot fail.\<close>

definition hash_key :: "(string \<Rightarrow> string) \<Rightarrow> string \<Rightarrow> u64" where
  "hash_key sha256 key = from_le_bytes (take 8 (sha256 key))"

section \<open>The ring\<close>

record hash_ring =
  points :: "(u64 \<times> nat) list"

definition vnode_label :: "nat \<Rightarrow> nat \<Rightarrow> string" where
  "vnode_label i v = ''backend-'' @ show_nat i @ ''-vnode-'' @ show_nat v"

definition new_ring :: "(string \<Rightarrow> string) \<Rightarrow> nat \<Rightarrow> nat \<Rightarrow> hash_ring" where
  "new_ring sha256 num_backends vnodes =
     \<lparr>points = sort (concat (map (\<lambda>i. map (\<lambda>v. (hash_key sha256 (vnode_label i v), i)) [0..<vnodes])
        [0..<num_backends]))\<rparr>"

text \<open>\<open>partition_point\<close> of a vector partitioned by \<open>P\<close>: where the first part ends.\<close>

definition partition_point :: "('a \<Rightarrow> bool) \<Rightarrow> 'a list \<Rightarrow> nat" where
  "partition_point P xs = length (takeWhile P xs)"

definition lookup :: "hash_ring \<Rightarrow> u64 \<Rightarrow> (nat \<Rightarrow> bool) \<Rightarrow> nat option" where
  "lookup r key_hash routable =
     (if points r = [] then None
      else
        let n = length (points r);
            start = partition_point (\<lambda>(h, _). h < key_hash) (points r)
        in find routable (map (\<lambda>i. snd (points r ! ((start + i) mod n))) [0..<n]))"

section \<open>The scan order\<close>

text \<open>The points in the order in which a lookup of \<open>key\<close> visits them.\<close>

definition clockwise :: "hash_ring \<Rightarrow> u64 \<Rightarrow> (u64 \<times> nat) list" where
  "clockwise r key =
     dropWhile (\<lambda>(h, _). h < key) (points r) @ takeWhile (\<lambda>(h, _). h < key) (points r)"

lemma set_clockwise: "set (clockwise r key) = set (points r)"
proof -
  have "set (points r) = set (takeWhile Q (points r) @ dropWhile Q (points r))" for Q by simp
  then show ?thesis unfolding clockwise_def set_append by blast
qed

lemma rotate_takeWhile:
  "List.rotate (length (takeWhile P xs)) xs = dropWhile P xs @ takeWhile P xs"
  using rotate_append [of "takeWhile P xs" "dropWhile P xs"] by simp

lemma lookup_clockwise: "lookup r key P = find P (map snd (clockwise r key))"
proof (cases "points r = []")
  case False
  let ?s = "partition_point (\<lambda>(h, _). h < key) (points r)"
  have "clockwise r key = List.rotate ?s (points r)"
    by (simp add: clockwise_def partition_point_def rotate_takeWhile)
  also have "\<dots> = map (\<lambda>i. points r ! ((?s + i) mod length (points r))) [0..<length (points r)]"
    by (rule nth_equalityI) (simp_all add: nth_rotate)
  finally show ?thesis using False by (simp add: lookup_def Let_def comp_def)
qed (simp add: lookup_def clockwise_def)

definition ring_key :: "u64 \<Rightarrow> u64 \<times> nat \<Rightarrow> u64 \<times> nat" where
  "ring_key key p = (fst p - key, snd p)"

lemma word_minus_mono:
  fixes a b k :: u64
  assumes "k \<le> a" "a \<le> b"
  shows "a - k \<le> b - k" "a < b \<Longrightarrow> a - k < b - k"
  using assms by (simp_all add: word_le_nat_alt word_less_nat_alt unat_sub)

lemma word_minus_mono_below:
  fixes a b k :: u64
  assumes "a \<le> b" "b < k"
  shows "a - k \<le> b - k" "a < b \<Longrightarrow> a - k < b - k"
proof -
  have "unat (c - k) = unat c + 2 ^ 64 - unat k" if "c < k" for c
    using that by (simp add: unat_sub_if' word_less_nat_alt)
  then have "unat (a - k) = unat a + 2 ^ 64 - unat k" "unat (b - k) = unat b + 2 ^ 64 - unat k"
    using assms by (meson le_less_trans)+
  moreover have "unat k < 2 ^ 64" by simp
  ultimately show "a - k \<le> b - k" "a < b \<Longrightarrow> a - k < b - k"
    using assms unfolding word_le_nat_alt word_less_nat_alt by linarith+
qed

lemma word_minus_wrap_less:
  fixes a b k :: u64
  assumes "k \<le> a" "b < k"
  shows "a - k < b - k"
proof -
  have "unat (a - k) = unat a - unat k" using assms(1) by (simp add: unat_sub)
  moreover have "unat (b - k) = unat b + 2 ^ 64 - unat k"
    using assms(2) by (simp add: unat_sub_if' word_less_nat_alt)
  moreover have "unat a < 2 ^ 64" "unat k < 2 ^ 64" by simp_all
  ultimately show ?thesis unfolding word_less_nat_alt by linarith
qed

lemma sorted_map_mono:
  assumes "sorted xs" "\<And>x y. x \<in> set xs \<Longrightarrow> y \<in> set xs \<Longrightarrow> x \<le> y \<Longrightarrow> f x \<le> f y"
  shows "sorted (map f xs)"
  using assms by (simp add: sorted_map) (rule sorted_wrt_mono_rel [of xs "(\<le>)"], auto)

lemma sorted_clockwise:
  assumes "sorted (points r)"
  shows "sorted (map (ring_key key) (clockwise r key))"
proof -
  let ?P = "\<lambda>(h, _ :: nat). h < key"
  have lo: "x \<in> set (takeWhile ?P (points r)) \<Longrightarrow> fst x < key" for x
    by (auto dest: set_takeWhileD)
  have split: "points r = takeWhile ?P (points r) @ dropWhile ?P (points r)" by simp
  have sorted: "sorted (takeWhile ?P (points r))" "sorted (dropWhile ?P (points r))"
    using assms by (metis split sorted_append)+
  have hi: "key \<le> fst x" if x: "x \<in> set (dropWhile ?P (points r))" for x
  proof -
    let ?d = "dropWhile ?P (points r)"
    have ne: "?d \<noteq> []" using x by (metis empty_iff empty_set)
    then have "key \<le> fst (hd ?d)" using hd_dropWhile [of ?P "points r"] by (auto simp: split_def)
    moreover have "hd ?d \<le> x" using sorted(2) x ne by (cases ?d) auto
    ultimately show ?thesis by (auto simp: less_eq_prod_def)
  qed
  have "sorted (map (ring_key key) (dropWhile ?P (points r)))"
    using hi by (intro sorted_map_mono [OF sorted(2)])
      (auto simp: ring_key_def less_eq_prod_def word_minus_mono)
  moreover have "sorted (map (ring_key key) (takeWhile ?P (points r)))"
    using lo by (intro sorted_map_mono [OF sorted(1)])
      (auto simp: ring_key_def less_eq_prod_def word_minus_mono_below)
  moreover have "ring_key key x \<le> ring_key key y"
    if "x \<in> set (dropWhile ?P (points r))" "y \<in> set (takeWhile ?P (points r))" for x y
    using word_minus_wrap_less [OF hi lo] that by (simp add: ring_key_def less_eq_prod_def)
  ultimately show ?thesis by (simp add: clockwise_def sorted_append)
qed

lemma find_sorted:
  assumes "sorted (map f xs)" "find P (map g xs) = Some y"
  shows "\<exists>x \<in> set xs. g x = y \<and> P y \<and> (\<forall>z \<in> set xs. P (g z) \<longrightarrow> f x \<le> f z)"
  using assms by (induction xs) (auto split: if_splits)

lemma points_new_ring:
  "sorted (points (new_ring sha n v))"
  "set (points (new_ring sha n v)) = {(hash_key sha (vnode_label i j), i) | i j. i < n \<and> j < v}"
  by (auto simp: new_ring_def)

section \<open>Lookup lemmas\<close>

lemma lookup_None: "lookup r key P = None \<longleftrightarrow> (\<forall>p \<in> set (points r). \<not> P (snd p))"
  by (auto simp: lookup_clockwise find_eq_None set_clockwise)

lemma lookup_Some: "lookup r key P = Some i \<Longrightarrow> P i \<and> i \<in> snd ` set (points r)"
  unfolding lookup_clockwise
  using find_Some_iff_set [of P "map snd (clockwise r key)" i] set_clockwise [of r key] by simp

lemma find_restrict:
  "find Q xs = Some x \<Longrightarrow> P x \<Longrightarrow> (\<And>y. P y \<Longrightarrow> Q y) \<Longrightarrow> find P xs = Some x"
  by (induction xs) (auto split: if_splits)

lemma lookup_restrict:
  assumes "\<And>j. P j \<Longrightarrow> Q j" "lookup r key Q = Some i" "P i"
  shows "lookup r key P = Some i"
  using find_restrict [where Q = Q and P = P, OF _ assms(3,1)] assms(2) unfolding lookup_clockwise .

lemma lookup_new_ring_total:
  assumes "0 < v" "P i" "i < n"
  shows "lookup (new_ring sha n v) key P \<noteq> None"
proof -
  have "(hash_key sha (vnode_label i 0), i) \<in> set (points (new_ring sha n v))"
    unfolding points_new_ring(2) using assms by blast
  then show ?thesis unfolding lookup_None using assms(2) by (metis snd_conv)
qed

section \<open>Properties\<close>

text \<open>
  C19. Consistent hashing. On the ring built for any number of backends and virtual nodes, a
  lookup returns the owner of the routable point that is nearest clockwise from the key
  (word subtraction is the clockwise distance; equal points go to the smaller id), and
  returns nothing only if no point is routable.
\<close>

theorem ring_lookup_nearest:
  "case lookup (new_ring sha n v) key P of
     None \<Rightarrow> (\<forall>(h, j) \<in> set (points (new_ring sha n v)). \<not> P j)
   | Some i \<Rightarrow> P i \<and> (\<exists>h. (h, i) \<in> set (points (new_ring sha n v)) \<and>
       (\<forall>(h', j) \<in> set (points (new_ring sha n v)).
          P j \<longrightarrow> h - key < h' - key \<or> (h = h' \<and> i \<le> j)))"
proof (cases "lookup (new_ring sha n v) key P")
  case None
  then have "\<forall>p \<in> set (points (new_ring sha n v)). \<not> P (snd p)" by (simp only: lookup_None)
  with None show ?thesis by auto
next
  case (Some i)
  let ?r = "new_ring sha n v"
  have "find P (map snd (clockwise ?r key)) = Some i" using Some by (simp add: lookup_clockwise)
  from find_sorted [OF sorted_clockwise [OF points_new_ring(1)] this]
  obtain p where p: "p \<in> set (points ?r)" "snd p = i" "P i"
    "\<forall>z \<in> set (points ?r). P (snd z) \<longrightarrow> ring_key key p \<le> ring_key key z"
    unfolding set_clockwise by blast
  have "fst p - key < h' - key \<or> (fst p = h' \<and> i \<le> j)" if "(h', j) \<in> set (points ?r)" "P j" for h' j
    using bspec [OF p(4) that(1)] that(2) p(2) by (auto simp: ring_key_def less_eq_prod_def)
  moreover have "(fst p, i) \<in> set (points ?r)" using p(1,2) by (metis prod.collapse)
  ultimately show ?thesis using Some p(3) by auto
qed

text \<open>A digest whose first byte is the ninth byte of the label, the digit of the backend.\<close>

definition sample_sha :: "string \<Rightarrow> string" where
  "sample_sha s = (s ! 8) # replicate 31 (CHR 0x00)"

lemma le_nat_zeros [simp]: "le_nat (replicate n (CHR 0x00)) = 0"
  by (induction n) simp_all

lemma sample_hash: "hash_key sample_sha s = of_nat (of_char (s ! 8))"
  by (simp add: hash_key_def from_le_bytes_def sample_sha_def)

lemma sample_ring: "points (new_ring sample_sha 2 1) = [(48, 0), (49, 1)]"
proof -
  have "[0..<2] = [0, 1 :: nat]" "[0..<1] = [0 :: nat]" by (simp_all add: upt_rec)
  then show ?thesis
    by (simp add: new_ring_def sample_hash vnode_label_def show_nat.simps less_prod_def less_eq_prod_def)
qed

theorem ring_lookup_nearest_witness:
  "lookup (new_ring sample_sha 2 1) 49 (\<lambda>i. i < 2) = Some 1 \<and>
   lookup (new_ring sample_sha 2 1) 50 (\<lambda>i. i < 2) = Some 0"
  using ring_lookup_nearest [where sha = sample_sha and n = 2 and v = 1 and key = 49 and P = "\<lambda>i. i < 2"]
  by (simp add: lookup_clockwise clockwise_def sample_ring del: One_nat_def)

section \<open>Shares of the key space\<close>

text \<open>
  Among points in order, the one that is found for a key, and the keys for which the \<open>j\<close>-th is
  found: those after the point before it up to its own hash. The first point also has those after
  the last.
\<close>

definition first_at :: "(u64 \<times> nat) list \<Rightarrow> u64 \<Rightarrow> nat" where
  "first_at ps key = (if \<exists>p \<in> set ps. key \<le> fst p then length (takeWhile (\<lambda>p. fst p < key) ps) else 0)"

definition arc :: "(u64 \<times> nat) list \<Rightarrow> nat \<Rightarrow> u64 set" where
  "arc ps j =
     (if j = 0 then {key. key \<le> fst (ps ! 0) \<or> fst (last ps) < key}
      else {key. fst (ps ! (j - 1)) < key \<and> key \<le> fst (ps ! j)})"

definition arc_length :: "(u64 \<times> nat) list \<Rightarrow> nat \<Rightarrow> nat" where
  "arc_length ps j =
     (if j = 0 then 2 ^ 64 + unat (fst (ps ! 0)) - unat (fst (last ps))
      else unat (fst (ps ! j)) - unat (fst (ps ! (j - 1))))"

lemma sorted_fst: "sorted ps \<Longrightarrow> i \<le> j \<Longrightarrow> j < length ps \<Longrightarrow> fst (ps ! i) \<le> fst (ps ! j)"
  for ps :: "(u64 \<times> nat) list"
  using sorted_nth_mono [of ps i j] by (auto simp: less_eq_prod_def)

lemma first_at_arc:
  assumes "sorted ps" "j < length ps"
  shows "first_at ps key = j \<longleftrightarrow> key \<in> arc ps j"
proof -
  let ?P = "\<lambda>p. fst p < key" and ?k = "length (takeWhile (\<lambda>p. fst p < key) ps)"
  have ne: "ps \<noteq> []" using assms(2) by auto
  then have lst: "last ps = ps ! (length ps - 1)" by (simp add: last_conv_nth)
  have some: "(\<exists>p \<in> set ps. key \<le> fst p) \<longleftrightarrow> key \<le> fst (last ps)"
  proof
    assume "\<exists>p \<in> set ps. key \<le> fst p"
    then obtain i where i: "i < length ps" "key \<le> fst (ps ! i)" by (auto simp: in_set_conv_nth)
    have "fst (ps ! i) \<le> fst (last ps)" using sorted_fst [OF assms(1), of i "length ps - 1"] i(1) lst by simp
    then show "key \<le> fst (last ps)" using i(2) by simp
  qed (use ne in auto)
  have stop: "?k = i" if "\<And>l. l < i \<Longrightarrow> fst (ps ! l) < key" "i < length ps" "key \<le> fst (ps ! i)" for i
    using takeWhile_eq_take_P_nth [of i ps ?P] that by (simp add: not_less)
  have at: "key \<le> fst (ps ! ?k)" if "?k < length ps" using nth_length_takeWhile [OF that] by simp
  have before: "fst (ps ! l) < key" if "l < ?k" for l
    using that takeWhile_nth [OF that] nth_mem [OF that] set_takeWhileD by metis
  show ?thesis
  proof (cases "j = 0")
    case True
    have "?k = 0 \<longleftrightarrow> key \<le> fst (ps ! 0)" using stop [of 0] at ne by auto
    then show ?thesis using True some by (auto simp: first_at_def arc_def not_le)
  next
    case False
    have "?k = j" if "fst (ps ! (j - 1)) < key" "key \<le> fst (ps ! j)"
    proof (rule stop [OF _ assms(2) that(2)])
      fix l assume "l < j"
      then have "fst (ps ! l) \<le> fst (ps ! (j - 1))" using assms by (intro sorted_fst) simp_all
      then show "fst (ps ! l) < key" using that(1) by simp
    qed
    moreover have "\<exists>p \<in> set ps. key \<le> fst p" if "key \<le> fst (ps ! j)" using assms(2) that nth_mem by blast
    ultimately show ?thesis using False at before [of "j - 1"] assms(2) by (auto simp: first_at_def arc_def)
  qed
qed

lemma first_at_less:
  assumes "ps \<noteq> []"
  shows "first_at ps key < length ps"
proof (cases "\<exists>p \<in> set ps. key \<le> fst p")
  case True
  then have "takeWhile (\<lambda>p. fst p < key) ps \<noteq> ps" by (auto simp: takeWhile_eq_all_conv not_less)
  then have "length (takeWhile (\<lambda>p. fst p < key) ps) \<noteq> length ps"
    by (metis order_refl take_all takeWhile_eq_take)
  then show ?thesis using True length_takeWhile_le [of "\<lambda>p. fst p < key" ps] by (simp add: first_at_def)
qed (use assms in \<open>auto simp: first_at_def\<close>)

lemma find_hd_filter: "find P (map f xs) = (case filter (P \<circ> f) xs of [] \<Rightarrow> None | x # _ \<Rightarrow> Some (f x))"
  by (induction xs) auto

lemma sorted_split:
  assumes "sorted (ps :: (u64 \<times> nat) list)"
  shows "takeWhile (\<lambda>p. fst p < key) ps = filter (\<lambda>p. fst p < key) ps \<and>
    dropWhile (\<lambda>p. fst p < key) ps = filter (\<lambda>p. key \<le> fst p) ps"
  using assms
proof (induction ps)
  case (Cons p ps)
  have "\<forall>q \<in> set ps. fst p \<le> fst q" using Cons.prems by (auto simp: less_eq_prod_def)
  then have "\<forall>q \<in> set ps. key \<le> fst q" if "key \<le> fst p" using that order_trans by blast
  then show ?case using Cons by (auto simp: not_less filter_empty_conv filter_id_conv not_le)
qed simp

definition routable_points :: "hash_ring \<Rightarrow> (nat \<Rightarrow> bool) \<Rightarrow> (u64 \<times> nat) list" where
  "routable_points r P = filter (P \<circ> snd) (points r)"

lemma sorted_routable_points: "sorted (points r) \<Longrightarrow> sorted (routable_points r P)"
  using sorted_filter [of id "points r"] by (simp add: routable_points_def)

text \<open>The routable points alone decide.\<close>

lemma lookup_first:
  assumes "sorted (points r)"
  shows "lookup r key P =
    (if routable_points r P = [] then None else Some (snd (routable_points r P ! first_at (routable_points r P) key)))"
proof -
  let ?ps = "routable_points r P" and ?Q = "\<lambda>p :: u64 \<times> nat. fst p < key"
  have Q: "(\<lambda>(h, _ :: nat). h < key) = ?Q" by auto
  have "filter (P \<circ> snd) (clockwise r key) = filter (\<lambda>p. key \<le> fst p) ?ps @ filter ?Q ?ps"
    using sorted_split [OF assms, of key] by (simp add: clockwise_def Q routable_points_def conj_commute)
  also have "\<dots> = dropWhile ?Q ?ps @ takeWhile ?Q ?ps"
    using sorted_split [OF sorted_routable_points [OF assms], of key P] by simp
  also have "\<dots> = drop (first_at ?ps key) ?ps @ take (first_at ?ps key) ?ps"
  proof (cases "\<exists>p \<in> set ?ps. key \<le> fst p")
    case True
    then have "first_at ?ps key = length (takeWhile ?Q ?ps)" by (simp add: first_at_def)
    then show ?thesis using dropWhile_eq_drop [of ?Q ?ps] takeWhile_eq_take [of ?Q ?ps] by metis
  next
    case False
    then have all: "takeWhile ?Q ?ps = ?ps" by (auto simp: takeWhile_eq_all_conv not_le)
    then have none: "dropWhile ?Q ?ps = []" by (metis append_self_conv takeWhile_dropWhile_id)
    have "first_at ?ps key = 0" using False by (simp add: first_at_def)
    then show ?thesis unfolding all none by simp
  qed
  finally have order: "filter (P \<circ> snd) (clockwise r key) = drop (first_at ?ps key) ?ps @ take (first_at ?ps key) ?ps" .
  show ?thesis
  proof (cases "?ps = []")
    case True
    then show ?thesis using order by (simp add: lookup_clockwise find_hd_filter)
  next
    case False
    then have "filter (P \<circ> snd) (clockwise r key) = ?ps ! first_at ?ps key # (drop (Suc (first_at ?ps key)) ?ps @ take (first_at ?ps key) ?ps)"
      using order Cons_nth_drop_Suc [OF first_at_less [OF False], of key] by simp
    then show ?thesis using False by (simp add: lookup_clockwise find_hd_filter)
  qed
qed

lemma card_interval: "card {key :: u64. a < key \<and> key \<le> b} = unat b - unat a"
proof -
  have "unat ` {key. a < key \<and> key \<le> b} = {unat a <.. unat b}"
  proof (intro set_eqI iffI)
    fix x assume x: "x \<in> {unat a <.. unat b}"
    moreover have "unat b < 2 ^ 64" by simp
    ultimately have "x < 2 ^ 64" unfolding greaterThanAtMost_iff by linarith
    then have "unat (of_nat x :: u64) = x" by (simp add: unat_of_nat)
    with x show "x \<in> unat ` {key. a < key \<and> key \<le> b}"
      by (intro image_eqI [of _ _ "of_nat x"]) (simp_all add: word_less_nat_alt word_le_nat_alt)
  qed (auto simp: word_less_nat_alt word_le_nat_alt)
  moreover have "inj_on unat {key. a < key \<and> key \<le> b}" by (rule inj_onI) (simp only: word_unat_eq_iff)
  ultimately show ?thesis using card_image [of unat "{key. a < key \<and> key \<le> b}"] by simp
qed

lemma card_arc:
  assumes "sorted ps" "j < length ps"
  shows "card (arc ps j) = arc_length ps j"
proof (cases "j = 0")
  case True
  let ?a = "fst (ps ! 0)" and ?b = "fst (last ps)"
  have "last ps = ps ! (length ps - 1)" using assms(2) by (intro last_conv_nth) auto
  then have "?a \<le> ?b" using sorted_fst [OF assms(1), of 0 "length ps - 1"] assms(2) by simp
  then have "unat ?a \<le> unat ?b" by (simp add: word_le_nat_alt)
  moreover have "arc ps 0 = UNIV - {key. ?a < key \<and> key \<le> ?b}" by (auto simp: arc_def)
  moreover have "card (UNIV :: u64 set) = 2 ^ 64" by (simp add: card_word)
  moreover have "unat ?b < 2 ^ 64" by simp
  ultimately show ?thesis using True card_interval [of ?a ?b] by (simp add: card_Diff_subset arc_length_def)
qed (simp add: arc_def arc_length_def card_interval)

text \<open>
  C20. Shares of the ring. On the ring built for any number of backends and virtual nodes, the
  keys that go to a backend are exactly the arcs that end at its routable points; so of all
  \<open>2 ^ 64\<close> keys its number is the sum of the lengths of these arcs. When it leaves the
  routable set exactly these keys move, and every other key stays where it was.
\<close>

theorem ring_shares:
  "{key. lookup (new_ring sha n v) key P = Some i} =
     (\<Union>j \<in> {j. j < length (routable_points (new_ring sha n v) P) \<and> snd (routable_points (new_ring sha n v) P ! j) = i}.
        arc (routable_points (new_ring sha n v) P) j) \<and>
   card {key. lookup (new_ring sha n v) key P = Some i} =
     (\<Sum>j | j < length (routable_points (new_ring sha n v) P) \<and> snd (routable_points (new_ring sha n v) P ! j) = i.
        arc_length (routable_points (new_ring sha n v) P) j) \<and>
   {key. lookup (new_ring sha n v) key (\<lambda>k. P k \<and> k \<noteq> i) \<noteq> lookup (new_ring sha n v) key P} =
     {key. lookup (new_ring sha n v) key P = Some i}"
proof (intro conjI)
  let ?r = "new_ring sha n v"
  let ?ps = "routable_points ?r P"
  let ?J = "{j. j < length ?ps \<and> snd (?ps ! j) = i}"
  have srt: "sorted ?ps" by (rule sorted_routable_points [OF points_new_ring(1)])
  note found = lookup_first [OF points_new_ring(1), of sha n v _ P] and fibre = first_at_arc [OF srt]
  show own: "{key. lookup ?r key P = Some i} = (\<Union>j \<in> ?J. arc ?ps j)"
  proof (intro set_eqI iffI)
    fix key assume "key \<in> {key. lookup ?r key P = Some i}"
    then have l: "first_at ?ps key < length ?ps" "snd (?ps ! first_at ?ps key) = i"
      using found [of key] first_at_less [of ?ps key] by (auto split: if_splits)
    then show "key \<in> (\<Union>j \<in> ?J. arc ?ps j)" using fibre [OF l(1), of key] by blast
  next
    fix key assume "key \<in> (\<Union>j \<in> ?J. arc ?ps j)"
    then obtain j where j: "j < length ?ps" "snd (?ps ! j) = i" "key \<in> arc ?ps j" by blast
    then have "first_at ?ps key = j" using fibre [OF j(1), of key] by simp
    then show "key \<in> {key. lookup ?r key P = Some i}" using found [of key] j(1,2) by auto
  qed
  have "arc ?ps j \<inter> arc ?ps k = {}" if "j < length ?ps" "k < length ?ps" "j \<noteq> k" for j k
  proof (rule equals0I)
    fix key assume "key \<in> arc ?ps j \<inter> arc ?ps k"
    then have "first_at ?ps key = j" "first_at ?ps key = k" using fibre [OF that(1)] fibre [OF that(2)] by auto
    with that(3) show False by simp
  qed
  then have "card (\<Union>j \<in> ?J. arc ?ps j) = (\<Sum>j \<in> ?J. card (arc ?ps j))" by (intro card_UN_disjoint) auto
  also have "\<dots> = (\<Sum>j \<in> ?J. arc_length ?ps j)" by (intro sum.cong refl card_arc [OF srt]) simp
  finally show "card {key. lookup ?r key P = Some i} = (\<Sum>j \<in> ?J. arc_length ?ps j)" unfolding own .
  show "{key. lookup ?r key (\<lambda>k. P k \<and> k \<noteq> i) \<noteq> lookup ?r key P} = {key. lookup ?r key P = Some i}"
  proof (intro set_eqI iffI; unfold mem_Collect_eq)
    fix key assume moved: "lookup ?r key (\<lambda>k. P k \<and> k \<noteq> i) \<noteq> lookup ?r key P"
    then obtain j where j: "lookup ?r key P = Some j" by (cases "lookup ?r key P") (auto simp: lookup_None)
    then show "lookup ?r key P = Some i"
      using moved lookup_restrict [of "\<lambda>k. P k \<and> k \<noteq> i" P ?r key j] lookup_Some [OF j] by auto
  next
    fix key assume "lookup ?r key P = Some i"
    then show "lookup ?r key (\<lambda>k. P k \<and> k \<noteq> i) \<noteq> lookup ?r key P" using lookup_Some by fastforce
  qed
qed

end
