(* ===== verification/Prefix_Cache.thy ===== *)
theory Prefix_Cache
  imports Routing Ring
begin

text \<open>
  Prefix-cache affinity (router-core/src/routing/prefix_cache.rs): requests whose prompts
  share a prefix go to the same backend, by consistent hashing of the prefix.

  The body is a \<open>serde_json::Value\<close> of the serde_json crate. Its type is the parameter \<open>'v\<close>
  and its accessors are the record \<open>json_api\<close>; nothing is assumed of them. A Rust string is
  the list of its code points where the code walks it by \<open>chars\<close>, and its UTF-8 bytes where
  the code takes \<open>as_bytes\<close>.
\<close>

section \<open>Text\<close>

type_synonym code_points = "nat list"

definition utf8_char :: "nat \<Rightarrow> string" where
  "utf8_char c =
     map char_of
       (if c < 128 then [c]
        else if c < 2048 then [192 + c div 64, 128 + c mod 64]
        else if c < 65536 then [224 + c div 4096, 128 + c div 64 mod 64, 128 + c mod 64]
        else [240 + c div 262144, 128 + c div 4096 mod 64, 128 + c div 64 mod 64, 128 + c mod 64])"

definition as_bytes :: "code_points \<Rightarrow> string" where
  "as_bytes t = concat (map utf8_char t)"

text \<open>\<open>join(" ")\<close>\<close>

fun join_space :: "code_points list \<Rightarrow> code_points" where
  "join_space [] = []"
| "join_space [t] = t"
| "join_space (t # u # ts) = t @ 32 # join_space (u # ts)"

section \<open>JSON accessors\<close>

record 'v json_api =
  json_get :: "'v \<Rightarrow> string \<Rightarrow> 'v option"
  as_str :: "'v \<Rightarrow> code_points option"
  as_array :: "'v \<Rightarrow> 'v list option"

section \<open>Operations\<close>

record prefix_cache_aware =
  prefix_char_limit :: usize
  ring :: hash_ring

definition new_prefix_cache :: "(string \<Rightarrow> string) \<Rightarrow> usize \<Rightarrow> nat \<Rightarrow> prefix_cache_aware" where
  "new_prefix_cache sha256 prefix_token_count num_backends =
     \<lparr>prefix_char_limit = prefix_token_count * 4, ring = new_ring sha256 num_backends DEFAULT_VNODES\<rparr>"

definition content_text :: "'v json_api \<Rightarrow> 'v \<Rightarrow> code_points option" where
  "content_text api content =
     (case as_str api content of
        Some s \<Rightarrow> Some s
      | None \<Rightarrow>
          (case as_array api content of
             None \<Rightarrow> None
           | Some items \<Rightarrow>
               let parts = List.map_filter
                     (\<lambda>p. Option.bind (json_get api p ''text'') (as_str api)) items
               in if parts \<noteq> [] then Some (join_space parts) else None))"

definition extract_prefix :: "'v json_api \<Rightarrow> prefix_cache_aware \<Rightarrow> 'v option \<Rightarrow> code_points" where
  "extract_prefix api s body =
     (case body of
        None \<Rightarrow> []
      | Some b \<Rightarrow>
          (case Option.bind (json_get api b ''messages'') (as_array api) of
             Some messages \<Rightarrow>
               take (unat (prefix_char_limit s))
                 (join_space (List.map_filter
                    (\<lambda>m. Option.bind (json_get api m ''content'') (content_text api)) messages))
           | None \<Rightarrow>
               (case Option.bind (json_get api b ''prompt'') (as_str api) of
                  Some prompt \<Rightarrow> take (unat (prefix_char_limit s)) prompt
                | None \<Rightarrow> [])))"

definition prefix_cache_select ::
  "(string \<Rightarrow> string) \<Rightarrow> 'v json_api \<Rightarrow> 'v incoming_request \<Rightarrow> backend list \<Rightarrow>
   prefix_cache_aware \<Rightarrow> nat option \<times> prefix_cache_aware" where
  "prefix_cache_select sha256 api req bs s =
     (if bs = [] then (None, s)
      else
        let pre = extract_prefix api s (req_body req)
        in if pre = [] then (map_option backend_id (min_by_key active_connections bs), s)
           else (lookup (ring s) (hash_key sha256 (as_bytes pre))
                   (\<lambda>i. \<exists>b \<in> set bs. backend_id b = i), s))"

section \<open>The strategy contract\<close>

text \<open>The ring was built for the pool the backends come from.\<close>

definition ring_fits :: "(string \<Rightarrow> string) \<Rightarrow> prefix_cache_aware \<Rightarrow> backend list \<Rightarrow> bool" where
  "ring_fits sha256 s bs \<longleftrightarrow>
     (\<exists>n. ring s = new_ring sha256 n DEFAULT_VNODES \<and> (\<forall>b \<in> set bs. backend_id b < n))"

lemma ring_fits_lookup:
  assumes "ring_fits sha s bs" "bs \<noteq> []"
  shows "lookup (ring s) key (\<lambda>i. \<exists>b \<in> set bs. backend_id b = i) \<noteq> None"
proof -
  obtain n where n: "ring s = new_ring sha n DEFAULT_VNODES" "\<forall>b \<in> set bs. backend_id b < n"
    using assms(1) by (auto simp: ring_fits_def)
  have "hd bs \<in> set bs" using assms(2) by simp
  then show ?thesis unfolding n(1) using n(2)
    by (intro lookup_new_ring_total [where i = "backend_id (hd bs)"]) (auto simp: DEFAULT_VNODES_def)
qed

interpretation pc: routing_strategy "ring_fits sha" "prefix_cache_select sha api" for sha api
proof
  fix s bs i and r :: "'a incoming_request"
  assume fits: "ring_fits sha s bs"
  show "fst (prefix_cache_select sha api r bs s) \<noteq> None" if "bs \<noteq> []"
    using that ring_fits_lookup [OF fits that] min_by_key_None [of active_connections bs]
    by (simp add: prefix_cache_select_def Let_def del: min_by_key_None not_None_eq)
  show "i \<in> backend_id ` set bs" if "fst (prefix_cache_select sha api r bs s) = Some i"
    using that by (auto simp: prefix_cache_select_def Let_def split: if_splits
        dest: min_by_key_Some lookup_Some)
qed (auto simp: prefix_cache_select_def Let_def)

section \<open>Prefix lemmas\<close>

lemma extract_prefix_length: "length (extract_prefix api s body) \<le> unat (prefix_char_limit s)"
  by (simp add: extract_prefix_def split: option.split)

lemma select_by_prefix:
  assumes "extract_prefix api s (req_body r) \<noteq> []" "bs \<noteq> []"
  shows "fst (prefix_cache_select sha api r bs s) =
    lookup (ring s) (hash_key sha (as_bytes (extract_prefix api s (req_body r))))
      (\<lambda>i. \<exists>b \<in> set bs. backend_id b = i)"
  using assms by (simp add: prefix_cache_select_def Let_def)

section \<open>Properties\<close>

text \<open>
  C21. Cache affinity. Let a request with a non-empty prompt prefix have gone to backend \<open>i\<close>, and
  let \<open>i\<close> still be routable when another request with the same prefix comes. Then that request
  goes to \<open>i\<close>, or to a backend that has joined the routable set since. So affinity survives
  every departure of other backends, and only a backend that joined can break it: the request is
  never moved between two backends that were routable both times.
\<close>

theorem prefix_affinity:
  assumes "extract_prefix api s (req_body r) = extract_prefix api s (req_body r')"
    and "extract_prefix api s (req_body r) \<noteq> []"
    and "fst (prefix_cache_select sha api r bs s) = Some i"
    and "i \<in> backend_id ` set bs'"
  shows "\<exists>j. fst (prefix_cache_select sha api r' bs' s) = Some j \<and>
    (j = i \<or> j \<in> backend_id ` set bs' - backend_id ` set bs)"
proof -
  let ?key = "hash_key sha (as_bytes (extract_prefix api s (req_body r)))"
  define P where "P = (\<lambda>i. \<exists>b \<in> set bs'. backend_id b = i)"
  define Q where "Q = (\<lambda>i. \<exists>b \<in> set bs. backend_id b = i)"
  have ne: "bs \<noteq> []" "bs' \<noteq> []" using assms(3,4) by (auto simp: prefix_cache_select_def)
  have first: "lookup (ring s) ?key Q = Some i"
    using assms(3) select_by_prefix [OF assms(2) ne(1), of sha] unfolding Q_def by simp
  have Pi: "P i" using assms(4) by (auto simp: P_def)
  have i: "i \<in> snd ` set (points (ring s))" "Q i" using lookup_Some [OF first] by auto
  then obtain j where j: "lookup (ring s) ?key P = Some j"
    using Pi lookup_None [of "ring s" ?key P] by fastforce
  have same: "j = i" if "Q j"
  proof -
    have "P j" using lookup_Some [OF j] by simp
    then have "lookup (ring s) ?key (\<lambda>x. P x \<and> Q x) = Some j"
      using lookup_restrict [of "\<lambda>x. P x \<and> Q x" P] j that by blast
    moreover have "lookup (ring s) ?key (\<lambda>x. P x \<and> Q x) = Some i"
      using lookup_restrict [of "\<lambda>x. P x \<and> Q x" Q] first Pi i(2) by blast
    ultimately show ?thesis by simp
  qed
  have joined: "j \<in> backend_id ` set bs'" using lookup_Some [OF j] unfolding P_def by blast
  have left: "j = i" if "j \<in> backend_id ` set bs" using that same unfolding Q_def by blast
  have "fst (prefix_cache_select sha api r' bs' s) = Some j"
    using select_by_prefix [of api s r' bs' sha] assms(1,2) ne(2) j unfolding P_def by simp
  with joined left show ?thesis by (cases "j \<in> backend_id ` set bs") simp_all
qed

text \<open>Bodies that are bare prompts, and a ring of two points.\<close>

definition prompt_api :: "code_points json_api" where
  "prompt_api =
     \<lparr>json_get = (\<lambda>v k. if k = ''prompt'' then Some v else None), as_str = Some, as_array = (\<lambda>_. None)\<rparr>"

definition two_point_cache :: prefix_cache_aware where
  "two_point_cache = \<lparr>prefix_char_limit = 4, ring = \<lparr>points = [(48, 0), (49, 1)]\<rparr>\<rparr>"

theorem prefix_affinity_witness:
  "fst (prefix_cache_select (\<lambda>_. [CHR ''1'']) prompt_api
      \<lparr>req_path = [], req_body = Some [72, 233, 72, 72, 90]\<rparr>
      [warm_backend\<lparr>backend_id := 1\<rparr>] two_point_cache) = Some 1"
  using prefix_affinity [where r = "\<lparr>req_path = [], req_body = Some [72, 233, 72, 72]\<rparr>"
      and r' = "\<lparr>req_path = [], req_body = Some [72, 233, 72, 72, 90]\<rparr>"
      and api = prompt_api and s = two_point_cache and i = 1 and sha = "\<lambda>_. [CHR ''1'']"
      and bs = "[warm_backend, warm_backend\<lparr>backend_id := 1\<rparr>]"
      and bs' = "[warm_backend\<lparr>backend_id := 1\<rparr>]"]
  by (auto simp: extract_prefix_def prompt_api_def two_point_cache_def prefix_cache_select_def
      hash_key_def from_le_bytes_def lookup_clockwise clockwise_def warm_backend_def new_backend_def)

end
