(* ===== verification/Round_Robin.thy ===== *)
theory Round_Robin
  imports Routing
begin

text \<open>
  Weighted round robin (router-core/src/routing/round_robin.rs). The reference for the
  slot arithmetic is the table \<open>slots\<close> that lists every backend as often as its weight says;
  \<open>weighted_pick\<close> is indexing in that table, and a full turn of the counter visits each
  entry exactly once.
\<close>

section \<open>Operations\<close>

record round_robin =
  counter :: usize

definition new_round_robin :: round_robin where
  "new_round_robin = \<lparr>counter = 0\<rparr>"

text \<open>\<open>u64::from (b.weight.max(1))\<close>\<close>

definition slot_weight :: "backend \<Rightarrow> u64" where
  "slot_weight b = ucast (max (weight b) 1)"

definition total_weight :: "backend list \<Rightarrow> u64" where
  "total_weight bs = sum_list (map slot_weight bs)"

fun weighted_pick :: "u64 \<Rightarrow> backend list \<Rightarrow> nat option" where
  "weighted_pick slot [] = None"
| "weighted_pick slot (b # bs) =
     (let w = slot_weight b
      in if slot < w then Some (backend_id b) else weighted_pick (slot - w) bs)"

definition round_robin_select ::
  "'v incoming_request \<Rightarrow> backend list \<Rightarrow> round_robin \<Rightarrow> nat option \<times> round_robin" where
  "round_robin_select req bs s =
     (let tot = total_weight bs
      in if tot = 0 then (None, s)
         else (weighted_pick (counter s mod tot) bs, s\<lparr>counter := counter s + 1\<rparr>))"

section \<open>The slot table\<close>

definition shares :: "backend \<Rightarrow> nat" where
  "shares b = max (unat (weight b)) 1"

definition slots :: "backend list \<Rightarrow> nat list" where
  "slots bs = concat (map (\<lambda>b. replicate (shares b) (backend_id b)) bs)"

lemma unat_slot_weight: "unat (slot_weight b) = shares b"
proof -
  have "unat (slot_weight b) = unat (max (weight b) 1)"
    unfolding slot_weight_def using unat_u32_less [of "max (weight b) 1"]
    by (simp add: unsigned_ucast_eq take_bit_nat_eq_self)
  also have "\<dots> = shares b" by (simp add: shares_def max_def word_le_nat_alt)
  finally show ?thesis .
qed

lemma shares_bounds: "1 \<le> shares b" "shares b < 2 ^ 32"
  using unat_u32_less [of "weight b"] by (simp_all add: shares_def)

lemma shares_pos [simp]: "0 < shares b" "shares b \<noteq> 0"
  using shares_bounds(1) [of b] by simp_all

lemma length_slots_le: "length (slots bs) \<le> length bs * (2 ^ 32 - 1)"
proof (induction bs)
  case (Cons b bs)
  then show ?case using shares_bounds(2) [of b] by (simp add: slots_def)
qed (simp add: slots_def)

lemma length_slots_bound: "length bs \<le> 2 ^ 32 \<Longrightarrow> length (slots bs) < 2 ^ 64"
  using length_slots_le [of bs] by simp

lemma slots_Cons: "slots (b # bs) = replicate (shares b) (backend_id b) @ slots bs"
  by (simp add: slots_def)

lemma slots_empty_iff [simp]: "slots bs = [] \<longleftrightarrow> bs = []"
  by (cases bs) (auto simp: slots_def)

lemma set_slots: "set (slots bs) = backend_id ` set bs"
  by (induction bs) (auto simp: slots_def)

lemma total_weight_slots:
  assumes "length bs \<le> 2 ^ 32"
  shows "unat (total_weight bs) = length (slots bs)"
proof -
  have "total_weight bs = of_nat (length (slots bs))"
  proof (induction bs)
    case (Cons b bs)
    have "slot_weight b = of_nat (shares b)" by (metis unat_slot_weight word_of_unat)
    with Cons show ?case by (simp add: total_weight_def slots_def)
  qed (simp add: total_weight_def slots_def)
  then show ?thesis using length_slots_bound [OF assms] by (simp only: unat_of_nat_u64)
qed

lemma weighted_pick_slots:
  "weighted_pick slot bs = (if unat slot < length (slots bs) then Some (slots bs ! unat slot) else None)"
proof (induction slot bs rule: weighted_pick.induct)
  case (2 slot b bs)
  show ?case
  proof (cases "slot < slot_weight b")
    case True
    then show ?thesis by (simp add: slots_Cons nth_append word_less_nat_alt unat_slot_weight)
  next
    case False
    then have "unat (slot - slot_weight b) = unat slot - shares b"
      by (simp add: unat_sub word_less_nat_alt word_le_nat_alt unat_slot_weight)
    with False 2 [OF refl] show ?thesis
      by (auto simp: slots_Cons nth_append word_less_nat_alt unat_slot_weight)
  qed
qed (simp add: slots_def)

lemma weighted_pick_in_range:
  assumes "bs \<noteq> []" "length bs \<le> 2 ^ 32"
  shows "weighted_pick (c mod total_weight bs) bs =
    Some (slots bs ! (unat c mod length (slots bs)))"
proof -
  have "unat (c mod total_weight bs) = unat c mod length (slots bs)"
    by (simp add: unat_mod_distrib total_weight_slots [OF assms(2)])
  moreover have "0 < length (slots bs)" using assms(1) by simp
  ultimately show ?thesis by (simp add: weighted_pick_slots)
qed

lemma weighted_pick_mem: "weighted_pick slot bs = Some i \<Longrightarrow> i \<in> backend_id ` set bs"
  by (auto simp: weighted_pick_slots set_slots [symmetric] split: if_splits)

lemma total_weight_eq_0: "length bs \<le> 2 ^ 32 \<Longrightarrow> total_weight bs = 0 \<longleftrightarrow> bs = []"
  by (metis length_0_conv slots_empty_iff total_weight_slots unat_eq_0)

section \<open>The strategy contract\<close>

interpretation rr: routing_strategy "\<lambda>(s :: round_robin) bs. length bs \<le> 2 ^ 32" round_robin_select
proof
  fix s :: round_robin and bs :: "backend list" and r :: "'v incoming_request"
  assume len: "length bs \<le> 2 ^ 32"
  show "fst (round_robin_select r bs s) \<noteq> None" if "bs \<noteq> []"
    using that len weighted_pick_in_range [OF that len]
    by (simp add: round_robin_select_def Let_def total_weight_eq_0)
  show "i \<in> backend_id ` set bs" if "fst (round_robin_select r bs s) = Some i" for i
    using that weighted_pick_mem by (auto simp: round_robin_select_def Let_def split: if_splits)
qed (simp_all add: round_robin_select_def total_weight_def)

text \<open>A number of requests in a row against the same routable set.\<close>

fun round_robin_picks :: "nat \<Rightarrow> 'v incoming_request \<Rightarrow> backend list \<Rightarrow> round_robin \<Rightarrow> nat option list" where
  "round_robin_picks 0 req bs s = []"
| "round_robin_picks (Suc n) req bs s =
     (case round_robin_select req bs s of (i, s') \<Rightarrow> i # round_robin_picks n req bs s')"

lemma round_robin_picks_nth:
  assumes "bs \<noteq> []" "length bs \<le> 2 ^ 32" "unat (counter s) + n \<le> 2 ^ 64"
  shows "round_robin_picks n req bs s =
    map (\<lambda>k. Some (slots bs ! ((unat (counter s) + k) mod length (slots bs)))) [0..<n]"
  using assms(3)
proof (induction n arbitrary: s)
  case (Suc n)
  let ?s = "s\<lparr>counter := counter s + 1\<rparr>"
  have sel: "round_robin_select req bs s =
      (Some (slots bs ! (unat (counter s) mod length (slots bs))), ?s)"
    using assms(1,2) by (simp add: round_robin_select_def total_weight_eq_0 weighted_pick_in_range)
  show ?case
  proof (cases n)
    case (Suc m)
    then have c: "unat (counter ?s) = Suc (unat (counter s))" using Suc.prems by simp
    then have IH: "round_robin_picks n req bs ?s =
        map (\<lambda>k. Some (slots bs ! ((unat (counter ?s) + k) mod length (slots bs)))) [0..<n]"
      using Suc.prems by (intro Suc.IH) simp
    have "map f [0..<Suc n] = f 0 # map (\<lambda>k. f (Suc k)) [0..<n]" for f :: "nat \<Rightarrow> nat option"
      by (simp only: map_upt_Suc)
    moreover have "unat (counter s + 1) = Suc (unat (counter s))" using c by simp
    ultimately show ?thesis by (simp add: sel IH del: upt_Suc unat_Suc_no_wrap)
  qed (simp add: sel)
qed simp

lemma count_slots:
  assumes "distinct (map backend_id bs)" "b \<in> set bs"
  shows "count_list (slots bs) (backend_id b) = shares b"
proof -
  have rep: "count_list (replicate n x) y = (if x = y then n else 0)" for n and x y :: nat
    by (induction n) auto
  have out: "i \<notin> backend_id ` set bs \<Longrightarrow> count_list (slots bs) i = 0" for i bs
    by (simp add: set_slots)
  show ?thesis using assms
  proof (induction bs)
    case (Cons c bs)
    then show ?case by (auto simp: slots_Cons rep out)
  qed simp
qed

section \<open>Properties\<close>

text \<open>
  Weighted fairness. As many requests as the weights add up to, against an unchanged
  routable set, walk once through the slot table from where the counter stood, so each
  backend serves exactly its weight of them (a weight of 0 counts as 1). The counter must
  not wrap in between.
\<close>

theorem round_robin_fair:
  assumes "bs \<noteq> []" "length bs \<le> 2 ^ 32" "distinct (map backend_id bs)" "b \<in> set bs"
    and "unat (counter s) + length (slots bs) \<le> 2 ^ 64"
    and "picks = round_robin_picks (length (slots bs)) req bs s"
  shows "picks = map Some (List.rotate (unat (counter s)) (slots bs)) \<and>
    count_list picks (Some (backend_id b)) = max (unat (weight b)) 1"
proof -
  have picks: "picks = map Some (List.rotate (unat (counter s)) (slots bs))"
    unfolding assms(6) round_robin_picks_nth [OF assms(1,2,5)]
    by (rule nth_equalityI) (simp_all add: nth_rotate)
  have some: "count_list (map Some xs) (Some x) = count_list xs x" for xs and x :: nat
    by (induction xs) auto
  have rot: "count_list (List.rotate n xs) x = count_list xs x" for n and xs :: "nat list" and x
    by (metis add.commute append_take_drop_id count_list_append rotate_drop_take)
  show ?thesis using count_slots [OF assms(3,4)] by (simp add: picks some rot shares_def)
qed

definition two_backends :: "backend list" where
  "two_backends =
     [new_backend 0 ''a'' 1 (new_breaker (Fin (1 / 2)) 5 10 30 0),
      new_backend 1 ''b'' 3 (new_breaker (Fin (1 / 2)) 5 10 30 0)]"

theorem round_robin_fair_witness:
  "count_list (round_robin_picks 4 \<lparr>req_path = ''/v1'', req_body = None :: unit option\<rparr>
     two_backends new_round_robin) (Some 1) = 3"
proof -
  have len: "length (slots two_backends) = 4"
    by (simp add: two_backends_def slots_def shares_def new_backend_def)
  have "two_backends ! 1 \<in> set two_backends \<and> backend_id (two_backends ! 1) = 1 \<and>
      unat (weight (two_backends ! 1)) = 3"
    by (simp add: two_backends_def new_backend_def)
  moreover have "two_backends \<noteq> []" "length two_backends \<le> 2 ^ 32" "distinct (map backend_id two_backends)"
    by (simp_all add: two_backends_def new_backend_def)
  moreover have "unat (counter new_round_robin) + length (slots two_backends) \<le> 2 ^ 64"
    by (simp add: len new_round_robin_def)
  ultimately show ?thesis
    using round_robin_fair [of two_backends "two_backends ! 1" new_round_robin _
        "\<lparr>req_path = ''/v1'', req_body = None :: unit option\<rparr>", OF _ _ _ _ _ refl, THEN conjunct2]
    by (simp add: len)
qed

end
