(* ===== verification/Latency_Aware.thy ===== *)
theory Latency_Aware
  imports Round_Robin
begin

text \<open>
  Latency-aware routing (router-core/src/routing/latency_aware.rs): a random pick weighted by
  configured weight over EWMA latency, in \<open>f64\<close> arithmetic, that falls back to weighted round
  robin while the latencies are flat. The draw of \<open>rand::thread_rng().gen::<f64>()\<close> is an
  argument.
\<close>

section \<open>\<open>f64::total_cmp\<close>\<close>

text \<open>
  The total order that sorts the sampled latencies. The values have no sign of zero or of NaN
  here; the latencies that are sorted are positive and finite.
\<close>

fun total_rank :: "f64 \<Rightarrow> nat \<times> rat" where
  "total_rank NInf = (0, 0)"
| "total_rank (Fin x) = (1, x)"
| "total_rank PInf = (2, 0)"
| "total_rank NaN = (3, 0)"

lemma total_rank_inj: "total_rank x = total_rank y \<Longrightarrow> x = y"
  by (cases x; cases y) auto

instantiation f64 :: linorder
begin

definition less_eq_f64 :: "f64 \<Rightarrow> f64 \<Rightarrow> bool" where
  "less_eq_f64 x y \<longleftrightarrow> fst (total_rank x) < fst (total_rank y) \<or>
     (fst (total_rank x) = fst (total_rank y) \<and> snd (total_rank x) \<le> snd (total_rank y))"

definition less_f64 :: "f64 \<Rightarrow> f64 \<Rightarrow> bool" where
  "less_f64 x y \<longleftrightarrow> x \<le> y \<and> \<not> y \<le> (x :: f64)"

instance
proof
  fix x y z :: f64
  show "x < y \<longleftrightarrow> x \<le> y \<and> \<not> y \<le> x" by (rule less_f64_def)
  show "x \<le> x" by (simp add: less_eq_f64_def)
  show "x \<le> y \<Longrightarrow> y \<le> z \<Longrightarrow> x \<le> z" by (auto simp: less_eq_f64_def)
  show "x \<le> y \<Longrightarrow> y \<le> x \<Longrightarrow> x = y"
    by (auto simp: less_eq_f64_def intro!: total_rank_inj prod_eqI)
  show "x \<le> y \<or> y \<le> x" by (auto simp: less_eq_f64_def)
qed

end

section \<open>Operations\<close>

definition FLAT_RATIO :: f64 where
  "FLAT_RATIO = to_f64 (11 / 10)"

definition f64_MAX :: f64 where
  "f64_MAX = Fin ((2 ^ 53 - 1) * 2 ^ 971)"

definition f64_MIN :: f64 where
  "f64_MIN = neg_f64 f64_MAX"

record latency_aware =
  fallback_counter :: usize

definition new_latency_aware :: latency_aware where
  "new_latency_aware = \<lparr>fallback_counter = 0\<rparr>"

text \<open>The latencies the choice is made on: backends without a sample get the upper median.\<close>

definition sampled_latencies :: "u64 list \<Rightarrow> f64 list" where
  "sampled_latencies raw = sort (map f64_of_u64 (filter (\<lambda>l. 0 < l) raw))"

definition median_latency :: "f64 list \<Rightarrow> f64" where
  "median_latency sampled = (if sampled = [] then Fin 1 else sampled ! (length sampled div 2))"

definition effective_latencies :: "u64 list \<Rightarrow> f64 list" where
  "effective_latencies raw =
     map (\<lambda>l. if 0 < l then f64_of_u64 l else median_latency (sampled_latencies raw)) raw"

text \<open>The loop that subtracts weights until the pick is used up.\<close>

fun pick_by_weight :: "f64 \<Rightarrow> (backend \<times> f64) list \<Rightarrow> nat option" where
  "pick_by_weight pick [] = None"
| "pick_by_weight pick ((b, w) # rest) =
     (let pick' = sub_f64 pick w
      in if le_f64 pick' (Fin 0) then Some (backend_id b) else pick_by_weight pick' rest)"

definition latency_aware_select ::
  "f64 \<Rightarrow> 'v incoming_request \<Rightarrow> backend list \<Rightarrow> latency_aware \<Rightarrow> nat option \<times> latency_aware" where
  "latency_aware_select draw req bs s =
     (if bs = [] then (None, s)
      else
        let latencies = effective_latencies (map ewma_latency_us bs);
            mn = fold (\<lambda>x m. min_f64 m x) latencies f64_MAX;
            mx = fold (\<lambda>x m. max_f64 m x) latencies f64_MIN
        in if le_f64 mx (mul_f64 mn FLAT_RATIO)
           then (weighted_pick (fallback_counter s mod total_weight bs) bs,
                 s\<lparr>fallback_counter := fallback_counter s + 1\<rparr>)
           else
             let weights = map (\<lambda>(b, l). div_f64 (f64_of_nat (unat (max (weight b) 1))) l) (zip bs latencies);
                 tot = foldl add_f64 (Fin 0) weights;
                 pick = mul_f64 draw tot
             in (case pick_by_weight pick (zip bs weights) of
                   Some i \<Rightarrow> Some i
                 | None \<Rightarrow> Some (backend_id (last bs)), s))"

section \<open>The strategy contract\<close>

lemma pick_by_weight_mem:
  "pick_by_weight pick bws = Some i \<Longrightarrow> i \<in> backend_id ` fst ` set bws"
  by (induction pick bws rule: pick_by_weight.induct) (auto simp: Let_def split: if_splits)

lemma pick_by_weight_offered:
  "pick_by_weight pick (zip bs ws) = Some i \<Longrightarrow> i \<in> backend_id ` set bs"
  using pick_by_weight_mem [of pick "zip bs ws" i] by (auto dest: set_zip_leftD)

interpretation la: routing_strategy "\<lambda>(s :: latency_aware) bs. length bs \<le> 2 ^ 32"
  "latency_aware_select draw" for draw
proof
  fix s :: latency_aware and bs :: "backend list" and r :: "'v incoming_request"
  assume len: "length bs \<le> 2 ^ 32"
  show "fst (latency_aware_select draw r bs s) \<noteq> None" if "bs \<noteq> []"
    using that len by (simp add: latency_aware_select_def Let_def weighted_pick_in_range
        split: option.split)
  show "i \<in> backend_id ` set bs" if "fst (latency_aware_select draw r bs s) = Some i" for i
    using that by (auto simp: latency_aware_select_def Let_def
        split: if_splits option.splits dest: weighted_pick_mem pick_by_weight_offered)
qed (simp_all add: latency_aware_select_def)

section \<open>Flat latencies\<close>

lemma median_mem:
  assumes "sampled_latencies raw \<noteq> []"
  shows "median_latency (sampled_latencies raw) \<in> f64_of_u64 ` {l \<in> set raw. 0 < l}"
proof -
  have "length (sampled_latencies raw) div 2 < length (sampled_latencies raw)"
    using assms by (cases "sampled_latencies raw") auto
  then have "median_latency (sampled_latencies raw) \<in> set (sampled_latencies raw)"
    using assms by (simp add: median_latency_def)
  then show ?thesis by (auto simp: sampled_latencies_def)
qed

text \<open>The latency a set of backends shares, when those that have a sample agree.\<close>

definition common_latency :: "u64 \<Rightarrow> u64 list \<Rightarrow> f64" where
  "common_latency l raw = (if \<exists>x \<in> set raw. 0 < x then f64_of_u64 l else Fin 1)"

lemma effective_flat:
  assumes "set raw \<subseteq> {0, l}"
  shows "effective_latencies raw = replicate (length raw) (common_latency l raw)"
proof -
  have med: "median_latency (sampled_latencies raw) = common_latency l raw"
  proof (cases "\<exists>x \<in> set raw. 0 < x")
    case True
    then have "set (sampled_latencies raw) \<noteq> {}" by (auto simp: sampled_latencies_def)
    then have "sampled_latencies raw \<noteq> []" by auto
    from median_mem [OF this] show ?thesis using assms True by (auto simp: common_latency_def)
  next
    case False
    then have "filter (\<lambda>x. 0 < x) raw = []" by (simp add: filter_empty_conv)
    then show ?thesis using False
      by (simp add: sampled_latencies_def median_latency_def common_latency_def)
  qed
  have "(if 0 < x then f64_of_u64 x else median_latency (sampled_latencies raw)) = common_latency l raw"
    if "x \<in> set raw" for x
  proof (cases "0 < x")
    case True
    then have "x = l" using assms that by auto
    then show ?thesis using True that by (auto simp: common_latency_def)
  qed (simp add: med)
  then show ?thesis unfolding effective_latencies_def by (simp add: map_replicate_const [symmetric])
qed

lemma min_max_beyond:
  "b < M \<Longrightarrow> x \<le> b \<Longrightarrow> - b \<le> x \<Longrightarrow>
     min_f64 (Fin M) (Fin x) = Fin x \<and> max_f64 (Fin (- M)) (Fin x) = Fin x"
  by (auto simp: min_f64_def max_f64_def)

lemma f64_MAX_ge: "x \<le> safe_bound \<Longrightarrow> - safe_bound \<le> x \<Longrightarrow>
    min_f64 f64_MAX (Fin x) = Fin x \<and> max_f64 f64_MIN (Fin x) = Fin x"
proof -
  have "safe_bound \<le> 1 * 2 ^ 971"
    unfolding safe_bound_def mult_1 by (rule power_increasing) simp_all
  also have "\<dots> < (2 ^ 53 - 1) * (2 ^ 971 :: rat)"
    by (intro mult_strict_right_mono zero_less_power) simp_all
  finally have "safe_bound < (2 ^ 53 - 1) * 2 ^ 971" .
  moreover assume "x \<le> safe_bound" "- safe_bound \<le> x"
  ultimately show ?thesis unfolding f64_MAX_def f64_MIN_def neg_f64.simps by (rule min_max_beyond)
qed

lemma fold_const: "f m x = x \<Longrightarrow> f x x = x \<Longrightarrow> fold (\<lambda>y m. f m y) (replicate (Suc n) x) m = x"
  by (induction n) simp_all

lemma common_latency_bounds:
  obtains x where "common_latency l raw = Fin x" "representable x" "0 \<le> x" "x \<le> 2 ^ 64"
proof (cases "\<exists>y \<in> set raw. 0 < y")
  case True
  have "(of_nat (unat l) :: rat) \<le> 2 ^ 64"
    using unat_lt_2p64 [of l] by (intro of_nat_le_pow) (simp del: unat_lt_2p64)
  then have "rnd (of_nat (unat l)) \<le> 2 ^ 64" by (rule b64.upper [OF representable_pow])
  moreover have "0 \<le> rnd (of_nat (unat l))" by (rule rnd_nonneg) (rule of_nat_0_le_iff)
  moreover have "common_latency l raw = Fin (rnd (of_nat (unat l)))"
    using True by (simp only: common_latency_def f64_of_u64_rnd if_True)
  ultimately show thesis using that representable_rnd by blast
next
  case False
  then have "common_latency l raw = Fin 1" by (simp only: common_latency_def if_False)
  moreover have "representable 1" using representable_of_nat [of 1] by simp
  ultimately show thesis using that by simp
qed

lemma flat_ratio_value: "FLAT_RATIO = Fin (rnd (11 / 10)) \<and> 1 \<le> rnd (11 / 10) \<and> rnd (11 / 10) \<le> 2"
proof -
  have "(11 / 10 :: rat) \<le> safe_bound" by (rule pow50_safe) simp
  then have "FLAT_RATIO = Fin (rnd (11 / 10))" unfolding FLAT_RATIO_def by (intro to_f64_small) simp
  moreover have "1 \<le> rnd (11 / 10)" using representable_of_nat [of 1] by (intro b64.lower) simp_all
  moreover have "rnd (11 / 10) \<le> 2" using representable_of_nat [of 2] by (intro b64.upper) simp_all
  ultimately show ?thesis by blast
qed

lemma flat_test:
  assumes "representable x" "0 \<le> x" "x \<le> 2 ^ 64"
  shows "le_f64 (Fin x) (mul_f64 (Fin x) FLAT_RATIO)"
proof -
  let ?q = "rnd (11 / 10)"
  have q: "FLAT_RATIO = Fin ?q" "1 \<le> ?q" "?q \<le> 2" using flat_ratio_value by blast+
  have "x * ?q \<le> 2 ^ 64 * 2" using assms q by (intro mult_mono) auto
  also have "(2 ^ 64 * 2 :: rat) \<le> safe_bound" unfolding safe_bound_def by simp
  finally have "to_f64 (x * ?q) = Fin (rnd (x * ?q))" using assms q by (intro to_f64_small) simp
  moreover have "x \<le> rnd (x * ?q)"
    using assms q mult_left_mono [of 1 ?q x] by (intro b64.lower) simp_all
  ultimately show ?thesis by (simp add: q(1))
qed

lemma flat_choice:
  assumes "bs \<noteq> []" "ewma_latency_us ` set bs \<subseteq> {0, l}"
  shows "latency_aware_select draw req bs s =
    (weighted_pick (fallback_counter s mod total_weight bs) bs,
     s\<lparr>fallback_counter := fallback_counter s + 1\<rparr>)"
proof -
  let ?raw = "map ewma_latency_us bs"
  obtain x where x: "common_latency l ?raw = Fin x" "representable x" "0 \<le> x" "x \<le> 2 ^ 64"
    by (rule common_latency_bounds)
  obtain n where "length ?raw = Suc n" using assms(1) by (cases bs) auto
  then have lat: "effective_latencies ?raw = replicate (Suc n) (Fin x)"
    using effective_flat [of ?raw l] assms(2) x(1) by simp
  have "(2 :: rat) ^ 64 \<le> safe_bound" unfolding safe_bound_def by (rule power_increasing) simp_all
  then have "x \<le> safe_bound" "- safe_bound \<le> x" using x(3,4) by linarith+
  from f64_MAX_ge [OF this]
  have "fold (\<lambda>x m. min_f64 m x) (replicate (Suc n) (Fin x)) f64_MAX = Fin x"
    "fold (\<lambda>x m. max_f64 m x) (replicate (Suc n) (Fin x)) f64_MIN = Fin x"
    by (intro fold_const; simp add: min_f64_def max_f64_def)+
  with assms(1) flat_test [OF x(2-4)] show ?thesis
    by (simp only: latency_aware_select_def lat Let_def if_False if_True)
qed

section \<open>The draw\<close>

text \<open>Finite values between 0 and a bound.\<close>

definition bounded_f64 :: "rat \<Rightarrow> f64 \<Rightarrow> bool" where
  "bounded_f64 B x \<longleftrightarrow> (\<exists>q. x = Fin q \<and> 0 \<le> q \<and> q \<le> B)"

lemma to_f64_bounded:
  assumes "0 \<le> x" "x \<le> B" "representable B" "B \<le> 2 ^ 64"
  shows "to_f64 x = Fin (rnd x)" "0 \<le> rnd x" "rnd x \<le> B"
proof -
  have "(2 :: rat) ^ 64 \<le> safe_bound" unfolding safe_bound_def by (rule power_increasing) simp_all
  then have "\<bar>x\<bar> \<le> safe_bound" using assms by linarith
  then show "to_f64 x = Fin (rnd x)" by (rule to_f64_small)
  show "0 \<le> rnd x" using assms(1) by (rule rnd_nonneg)
  show "rnd x \<le> B" using assms(2,3) by (intro b64.upper)
qed

lemma sampled_ge_1: "0 < l \<Longrightarrow> \<exists>q. f64_of_u64 l = Fin q \<and> 1 \<le> q"
proof -
  assume "0 < l"
  then have "1 \<le> unat l" by (simp add: word_less_nat_alt)
  then have "of_nat 1 \<le> (of_nat (unat l) :: rat)" by (rule of_nat_mono)
  then have "(1 :: rat) \<le> of_nat (unat l)" by (simp only: of_nat_1)
  then have "1 \<le> rnd (of_nat (unat l))" using representable_of_nat [of 1] by (intro b64.lower) simp_all
  then show ?thesis using f64_of_u64_rnd [of l] by blast
qed

lemma effective_ge_1:
  assumes "l \<in> set (effective_latencies raw)"
  shows "\<exists>q. l = Fin q \<and> 1 \<le> q"
proof -
  have "\<exists>q. median_latency (sampled_latencies raw) = Fin q \<and> 1 \<le> q"
  proof (cases "sampled_latencies raw = []")
    case False
    then show ?thesis using median_mem [OF False] sampled_ge_1 by auto
  qed (simp add: median_latency_def)
  then show ?thesis using assms sampled_ge_1 by (auto simp: effective_latencies_def split: if_splits)
qed

lemma weight_bounded:
  assumes "1 \<le> q" "n \<le> 2 ^ 32"
  shows "bounded_f64 (2 ^ 32) (div_f64 (f64_of_nat n) (Fin q))"
proof -
  have "f64_of_nat n = Fin (of_nat n)" using assms(2) by (intro f64_of_nat_exact) simp
  then have div: "div_f64 (f64_of_nat n) (Fin q) = to_f64 (of_nat n / q)" using assms(1) by simp
  have "of_nat n / q \<le> of_nat n / 1" using assms(1) by (intro divide_left_mono) simp_all
  also have "of_nat n / 1 \<le> (2 ^ 32 :: rat)" using of_nat_le_pow [OF assms(2)] by simp
  finally have "of_nat n / q \<le> 2 ^ 32" .
  moreover have "0 \<le> of_nat n / q" using assms(1) by simp
  ultimately show ?thesis unfolding bounded_f64_def div
    using to_f64_bounded [OF _ _ representable_pow [of 32], of "of_nat n / q"] by simp
qed

lemma sum_bounded:
  assumes "\<forall>w \<in> set ws. bounded_f64 (2 ^ 32) w" "0 \<le> s" "s \<le> of_nat m * 2 ^ 32" "m + length ws \<le> 2 ^ 32"
  shows "bounded_f64 (of_nat (m + length ws) * 2 ^ 32) (foldl add_f64 (Fin s) ws)"
  using assms
proof (induction ws arbitrary: s m)
  case (Cons w ws)
  obtain q where q: "w = Fin q" "0 \<le> q" "q \<le> 2 ^ 32" using Cons.prems(1) by (auto simp: bounded_f64_def)
  let ?B = "of_nat (Suc m) * 2 ^ 32 :: rat"
  have rep: "representable ?B"
    unfolding representable_def using Cons.prems(4) by (intro exI [of _ "int (Suc m)"] exI [of _ 32]) simp
  have "of_nat (Suc m) \<le> (2 ^ 32 :: rat)" using Cons.prems(4) by (intro of_nat_le_pow) simp
  then have "?B \<le> 2 ^ 32 * 2 ^ 32" by (intro mult_right_mono) simp_all
  then have B: "?B \<le> 2 ^ 64" by simp
  have "0 \<le> s + q" "s + q \<le> ?B" using Cons.prems(2,3) q by (simp_all add: algebra_simps)
  note r = to_f64_bounded [OF this rep B]
  show ?case using Cons.IH [of "rnd (s + q)" "Suc m"] Cons.prems(1,4) r by (simp add: q(1))
qed (simp add: bounded_f64_def)

text \<open>A larger pick goes at least as far down the list, in spite of the roundings.\<close>

definition position_id :: "f64 \<Rightarrow> (backend \<times> f64) list \<Rightarrow> nat \<Rightarrow> nat" where
  "position_id p bws d = (case pick_by_weight p bws of Some i \<Rightarrow> i | None \<Rightarrow> d)"

lemma position_id_mono:
  assumes "\<forall>(b, w) \<in> set bws. bounded_f64 (2 ^ 32) w \<and> backend_id b \<le> d" "sorted (map (backend_id \<circ> fst) bws)"
    and "0 \<le> p" "p \<le> q" "q \<le> 2 ^ 64"
  shows "position_id (Fin p) bws d \<le> position_id (Fin q) bws d"
  using assms
proof (induction bws arbitrary: p q)
  case (Cons bw bws)
  obtain b w where bw: "bw = (b, Fin w)" "0 \<le> w" "w \<le> 2 ^ 32"
    using Cons.prems(1) by (cases bw) (auto simp: bounded_f64_def)
  have sub: "sub_f64 (Fin x) (Fin w) = Fin (rnd (x - w))" if "0 \<le> x" "x \<le> 2 ^ 64" for x
  proof -
    have "(2 :: rat) ^ 64 \<le> safe_bound" "(2 :: rat) ^ 32 \<le> safe_bound"
      unfolding safe_bound_def by (rule power_increasing; simp)+
    then have "\<bar>x - w\<bar> \<le> safe_bound" using that bw by linarith
    then show ?thesis by (simp add: sub_f64_def to_f64_small)
  qed
  have le: "rnd (p - w) \<le> rnd (q - w)" using Cons.prems by (intro b64.mono) simp
  have first: "backend_id b \<le> position_id (Fin x) (bw # bws) d" for x
    using Cons.prems(1,2) pick_by_weight_mem [of "Fin x" "bw # bws"]
    by (fastforce simp: position_id_def bw split: option.split)
  show ?case
  proof (cases "rnd (p - w) \<le> 0")
    case True
    then have "position_id (Fin p) (bw # bws) d = backend_id b"
      using sub [of p] Cons.prems by (simp add: position_id_def bw)
    then show ?thesis using first by simp
  next
    case False
    have "rnd (q - w) \<le> 2 ^ 64" using Cons.prems bw by (intro b64.upper [OF representable_pow [of 64]]) simp
    then have "position_id (Fin (rnd (p - w))) bws d \<le> position_id (Fin (rnd (q - w))) bws d"
      using Cons.prems False le by (intro Cons.IH) auto
    then show ?thesis using sub [of p] sub [of q] Cons.prems False le by (simp add: position_id_def bw)
  qed
qed (simp add: position_id_def)

abbreviation share_weights :: "backend list \<Rightarrow> f64 list" where
  "share_weights bs \<equiv> map (\<lambda>(b, l). div_f64 (f64_of_nat (unat (max (weight b) 1))) l)
     (zip bs (effective_latencies (map ewma_latency_us bs)))"

lemma share_weights_bounded: "\<forall>w \<in> set (share_weights bs). bounded_f64 (2 ^ 32) w"
proof
  fix w assume "w \<in> set (share_weights bs)"
  then obtain b l where w: "w = div_f64 (f64_of_nat (unat (max (weight b) 1))) l"
    and bl: "(b, l) \<in> set (zip bs (effective_latencies (map ewma_latency_us bs)))" by auto
  obtain q where "l = Fin q" "1 \<le> q" using effective_ge_1 [OF set_zip_rightD [OF bl]] by blast
  moreover have "unat (max (weight b) 1) \<le> 2 ^ 32" using unat_u32_less [of "max (weight b) 1"] by simp
  ultimately show "bounded_f64 (2 ^ 32) w" unfolding w using weight_bounded by blast
qed

lemma share_total_bounded:
  assumes "length bs \<le> 2 ^ 32"
  shows "\<exists>T. foldl add_f64 (Fin 0) (share_weights bs) = Fin T \<and> 0 \<le> T \<and> T \<le> 2 ^ 64"
proof -
  let ?n = "length (share_weights bs)"
  have n: "?n \<le> 2 ^ 32" using assms by (simp add: effective_latencies_def)
  have "bounded_f64 (of_nat (0 + ?n) * 2 ^ 32) (foldl add_f64 (Fin 0) (share_weights bs))"
    by (rule sum_bounded [OF share_weights_bounded]) (use n in simp_all)
  moreover have "of_nat (0 + ?n) * 2 ^ 32 \<le> (2 ^ 32 * 2 ^ 32 :: rat)"
    using of_nat_le_pow [OF n] by (intro mult_right_mono) simp_all
  ultimately show ?thesis unfolding bounded_f64_def by fastforce
qed

text \<open>Either the draw plays no part, or it is scaled and looked up.\<close>

lemma latency_choice_cases:
  assumes "bs \<noteq> []" "length bs \<le> 2 ^ 32"
  obtains (flat) "\<And>draw. latency_aware_select draw req bs s = latency_aware_select NaN req bs s"
  | (shares) T where "0 \<le> T" "T \<le> 2 ^ 64"
      "\<And>draw. latency_aware_select draw req bs s =
         (Some (position_id (mul_f64 draw (Fin T)) (zip bs (share_weights bs)) (backend_id (last bs))), s)"
proof -
  let ?ls = "effective_latencies (map ewma_latency_us bs)"
  obtain T where T: "foldl add_f64 (Fin 0) (share_weights bs) = Fin T" "0 \<le> T" "T \<le> 2 ^ 64"
    using share_total_bounded [OF assms(2)] by blast
  show thesis
  proof (cases "le_f64 (fold (\<lambda>x m. max_f64 m x) ?ls f64_MIN) (mul_f64 (fold (\<lambda>x m. min_f64 m x) ?ls f64_MAX) FLAT_RATIO)")
    case True
    then show thesis
      by (intro flat) (simp add: latency_aware_select_def)
  next
    case False
    then show thesis using assms(1) T
      by (intro shares [of T]) (simp_all add: latency_aware_select_def position_id_def split: option.split)
  qed
qed

section \<open>Properties\<close>

text \<open>
  C37. No pinning while latencies are flat. When all backends that have a latency sample agree
  on it (in particular before any sample exists), the choice does not depend on the draw and
  is exactly weighted round robin on the fallback counter.
\<close>

theorem flat_latency_round_robin:
  assumes "bs \<noteq> []" "length bs \<le> 2 ^ 32" "ewma_latency_us ` set bs \<subseteq> {0, l}"
  shows "fst (latency_aware_select draw req bs s) =
      fst (round_robin_select req bs \<lparr>counter = fallback_counter s\<rparr>) \<and>
    fallback_counter (snd (latency_aware_select draw req bs s)) =
      counter (snd (round_robin_select req bs \<lparr>counter = fallback_counter s\<rparr>))"
  using assms flat_choice [OF assms(1,3), of draw req s]
  by (simp add: round_robin_select_def total_weight_eq_0)

theorem flat_latency_round_robin_witness:
  "fst (latency_aware_select (Fin (1 / 4)) \<lparr>req_path = [], req_body = None :: unit option\<rparr>
      two_backends \<lparr>fallback_counter = 5\<rparr>) = Some 1"
proof -
  have "two_backends \<noteq> []" "length two_backends \<le> 2 ^ 32"
    "ewma_latency_us ` set two_backends \<subseteq> {0, 0}"
    by (simp_all add: two_backends_def new_backend_def)
  from flat_latency_round_robin [OF this, of "Fin (1 / 4)"
      "\<lparr>req_path = [], req_body = None :: unit option\<rparr>" "\<lparr>fallback_counter = 5\<rparr>"]
  show ?thesis
    by (simp add: round_robin_select_def total_weight_def slot_weight_def two_backends_def
        new_backend_def)
qed

text \<open>
  Each backend owns an interval of draws. With the backends in the order of the pool, a
  larger draw never selects an earlier backend, in spite of the roundings of the weights, of
  their sum and of the repeated subtraction; so the draws in [0, 1] that select a given backend
  form an interval, and the choice is the inverse of a distribution function. No draw
  is left without a backend.
\<close>

theorem draw_monotone:
  assumes "bs \<noteq> []" "length bs \<le> 2 ^ 32" "sorted (map backend_id bs)" "0 \<le> x" "x \<le> y" "y \<le> 1"
  shows "\<exists>i j. fst (latency_aware_select (Fin x) req bs s) = Some i \<and>
    fst (latency_aware_select (Fin y) req bs s) = Some j \<and> i \<le> j"
  using assms(1,2)
proof (cases rule: latency_choice_cases [where req = req and s = s, case_names flat shares])
  case flat
  obtain i where "fst (latency_aware_select NaN req bs s) = Some i"
    using la.sel_None_iff [OF assms(2), of NaN req s] assms(1) by auto
  then show ?thesis using flat [of "Fin x"] flat [of "Fin y"] by simp
next
  case (shares T)
  let ?bws = "zip bs (share_weights bs)"
  have len: "length (share_weights bs) = length bs" by (simp add: effective_latencies_def)
  have last_le: "backend_id b \<le> backend_id (last bs)" if "b \<in> set bs" for b
    using assms(1,3) that by (induction bs rule: rev_induct) (auto simp: sorted_append)
  have fit: "\<forall>(b, w) \<in> set ?bws. bounded_f64 (2 ^ 32) w \<and> backend_id b \<le> backend_id (last bs)"
  proof clarify
    fix b w assume bw: "(b, w) \<in> set ?bws"
    show "bounded_f64 (2 ^ 32) w \<and> backend_id b \<le> backend_id (last bs)"
      using share_weights_bounded [of bs, rule_format, OF set_zip_rightD [OF bw]] last_le [OF set_zip_leftD [OF bw]]
      by blast
  qed
  have srt: "sorted (map (backend_id \<circ> fst) ?bws)" using assms(3) len by (simp add: map_map [symmetric] map_fst_zip)
  have prod: "0 \<le> x * T" "x * T \<le> y * T" "y * T \<le> 2 ^ 64"
    using assms(4-6) shares(1,2) mult_right_mono [of x y T] mult_right_mono [of y 1 T] by simp_all
  have pick: "mul_f64 (Fin z) (Fin T) = Fin (rnd (z * T))" if "0 \<le> z * T" "z * T \<le> 2 ^ 64" for z
    using to_f64_bounded(1) [OF that representable_pow order_refl] by simp
  have "position_id (Fin (rnd (x * T))) ?bws (backend_id (last bs)) \<le>
      position_id (Fin (rnd (y * T))) ?bws (backend_id (last bs))"
    using prod by (intro position_id_mono [OF fit srt] rnd_nonneg b64.mono b64.upper [OF representable_pow]) simp_all
  then show ?thesis using shares(3) pick [of x] pick [of y] prod by simp
qed

theorem draw_monotone_witness:
  "\<exists>i j. fst (latency_aware_select (Fin 0) \<lparr>req_path = [], req_body = None :: unit option\<rparr>
       [warm_backend, warm_backend\<lparr>backend_id := 1, ewma_latency_us := 50\<rparr>] new_latency_aware) = Some i \<and>
     fst (latency_aware_select (Fin 1) \<lparr>req_path = [], req_body = None :: unit option\<rparr>
       [warm_backend, warm_backend\<lparr>backend_id := 1, ewma_latency_us := 50\<rparr>] new_latency_aware) = Some j \<and> i \<le> j"
  by (rule draw_monotone) (simp_all add: warm_backend_def new_backend_def)

end
