(* ===== verification/Strategies.thy ===== *)
theory Strategies
  imports Least_Loaded Prefix_Cache Latency_Aware
begin

text \<open>
  The strategy object of the router (router-core/src/routing/mod.rs): creation by name and
  dynamic dispatch of \<open>select\<close>. The contract of \<open>RoutingStrategy\<close>, proved for each strategy in
  its own theory, is proved here for whatever strategy was created.
\<close>

section \<open>Dispatch\<close>

text \<open>\<open>Box<dyn RoutingStrategy>\<close>: one constructor per implementation, with its state.\<close>

datatype strategy =
  S_round_robin round_robin
| S_least_connections least_connections
| S_least_load least_load
| S_latency_aware latency_aware
| S_prefix_cache prefix_cache_aware

definition STRATEGY_NAMES :: "string list" where
  "STRATEGY_NAMES =
     [''round_robin'', ''least_connections'', ''least_load'', ''latency_aware'', ''prefix_cache'']"

text \<open>The error message \<open>unknown routing strategy "..."\<close>.\<close>

datatype strategy_error = Unknown_strategy string

definition create_strategy ::
  "(string \<Rightarrow> string) \<Rightarrow> string \<Rightarrow> usize \<Rightarrow> nat \<Rightarrow> strategy_error + strategy" where
  "create_strategy sha256 name prefix_token_count num_backends =
     (if name = ''round_robin'' then Inr (S_round_robin new_round_robin)
      else if name = ''least_connections'' then Inr (S_least_connections LeastConnections)
      else if name = ''least_load'' then Inr (S_least_load LeastLoad)
      else if name = ''latency_aware'' then Inr (S_latency_aware new_latency_aware)
      else if name = ''prefix_cache''
        then Inr (S_prefix_cache (new_prefix_cache sha256 prefix_token_count num_backends))
      else Inl (Unknown_strategy name))"

text \<open>
  The services a choice may use that are not the router's code: the digest, the JSON
  accessors, and the random draw of this call.
\<close>

record 'v choice_env =
  env_sha256 :: "string \<Rightarrow> string"
  env_json :: "'v json_api"
  env_draw :: f64

fun strategy_select ::
  "'v choice_env \<Rightarrow> 'v incoming_request \<Rightarrow> backend list \<Rightarrow> strategy \<Rightarrow> nat option \<times> strategy" where
  "strategy_select env req bs (S_round_robin s) = map_prod id S_round_robin (round_robin_select req bs s)"
| "strategy_select env req bs (S_least_connections s) =
     map_prod id S_least_connections (least_connections_select req bs s)"
| "strategy_select env req bs (S_least_load s) = map_prod id S_least_load (least_load_select req bs s)"
| "strategy_select env req bs (S_latency_aware s) =
     map_prod id S_latency_aware (latency_aware_select (env_draw env) req bs s)"
| "strategy_select env req bs (S_prefix_cache s) =
     map_prod id S_prefix_cache (prefix_cache_select (env_sha256 env) (env_json env) req bs s)"

section \<open>The contract of the created strategy\<close>

definition strategy_fits :: "(string \<Rightarrow> string) \<Rightarrow> strategy \<Rightarrow> backend list \<Rightarrow> bool" where
  "strategy_fits sha s bs \<longleftrightarrow> length bs \<le> 2 ^ 32 \<and>
     (case s of S_prefix_cache p \<Rightarrow> ring_fits sha p bs | _ \<Rightarrow> True)"

interpretation any: routing_strategy "strategy_fits (env_sha256 env)" "strategy_select env" for env
proof
  fix s bs bs' i and r :: "'a incoming_request"
  show "fst (strategy_select env r [] s) = None"
    by (cases s) (simp_all add: rr.sel_empty lc.sel_empty ll.sel_empty la.sel_empty pc.sel_empty)
  assume fits: "strategy_fits (env_sha256 env) s bs"
  show "fst (strategy_select env r bs s) \<noteq> None" if "bs \<noteq> []"
    using fits that
    by (cases s) (simp_all add: strategy_fits_def rr.sel_total lc.sel_total ll.sel_total la.sel_total
        pc.sel_total del: not_None_eq)
  show "i \<in> backend_id ` set bs" if "fst (strategy_select env r bs s) = Some i"
    using fits that
    by (cases s) (auto simp: strategy_fits_def
        dest: rr.sel_offered [rotated] lc.sel_offered [rotated] ll.sel_offered [rotated]
          la.sel_offered [rotated] pc.sel_offered)
  show "strategy_fits (env_sha256 env) (snd (strategy_select env r bs' s)) bs"
    using fits by (cases s) (simp_all add: strategy_fits_def pc.sel_fits)
qed

lemma created_fits:
  assumes "create_strategy sha name ptc n = Inr s" "\<forall>b \<in> set bs. backend_id b < n" "length bs \<le> 2 ^ 32"
  shows "strategy_fits sha s bs"
  using assms by (auto simp: create_strategy_def strategy_fits_def ring_fits_def new_prefix_cache_def
      split: if_splits)

section \<open>Properties\<close>

text \<open>
  Strategy names. \<open>create_strategy\<close> succeeds exactly for the names in the list that the
  configuration check uses, and otherwise reports the name it was given.
\<close>

lemma create_strategy_names:
  "((\<exists>s. create_strategy sha name ptc n = Inr s) \<longleftrightarrow> name \<in> set STRATEGY_NAMES) \<and>
   (name \<notin> set STRATEGY_NAMES \<longleftrightarrow> create_strategy sha name ptc n = Inl (Unknown_strategy name))"
  by (auto simp: create_strategy_def STRATEGY_NAMES_def)

text \<open>
  C18. Every strategy keeps the selector contract. Whatever strategy the configuration names,
  after any sequence of earlier choices, it picks one of the routable backends it is offered
  and gives up only when it is offered none.
\<close>

theorem every_strategy_selects:
  assumes "create_strategy (env_sha256 env) name ptc n = Inr s0"
    and "\<forall>b \<in> set bs. backend_id b < n" "length bs \<le> 2 ^ 32"
    and "s = fold (\<lambda>(r, bs') s. snd (strategy_select env r bs' s)) calls s0"
  shows "case fst (strategy_select env r bs s) of
      None \<Rightarrow> bs = [] | Some i \<Rightarrow> i \<in> backend_id ` set bs"
proof -
  have "strategy_fits (env_sha256 env) s0 bs" by (rule created_fits [OF assms(1-3)])
  then have "strategy_fits (env_sha256 env) (fold (\<lambda>(r, bs') s. snd (strategy_select env r bs' s)) calls s0) bs"
    by (induction calls arbitrary: s0) (auto intro: any.sel_fits)
  then have fits: "strategy_fits (env_sha256 env) s bs" by (simp only: assms(4))
  show ?thesis using any.sel_None_iff [OF fits, of r] any.sel_offered [OF fits, of r]
    by (auto split: option.split)
qed

definition sample_env :: "code_points choice_env" where
  "sample_env = \<lparr>env_sha256 = sample_sha, env_json = prompt_api, env_draw = Fin (1 / 4)\<rparr>"

theorem every_strategy_selects_witness:
  "fst (strategy_select sample_env \<lparr>req_path = [], req_body = None\<rparr> two_backends
     (S_least_load LeastLoad)) \<in> Some ` {0, 1}"
proof -
  have created: "create_strategy (env_sha256 sample_env) ''least_load'' 256 2 = Inr (S_least_load LeastLoad)"
    by (simp add: create_strategy_def)
  have ids: "\<forall>b \<in> set two_backends. backend_id b < 2" "length two_backends \<le> 2 ^ 32"
    by (simp_all add: two_backends_def new_backend_def)
  have "two_backends \<noteq> []" "backend_id ` set two_backends = {0, 1}"
    by (simp_all add: two_backends_def new_backend_def)
  then show ?thesis
    using every_strategy_selects [OF created ids, of _ "[]" "\<lparr>req_path = [], req_body = None\<rparr>"]
    by (auto split: option.splits simp del: strategy_select.simps)
qed

end
