(* ===== verification/Config.thy ===== *)
theory Config
  imports Strategies
begin

text \<open>
  Configuration (router-core/src/config.rs): the sections with their serde defaults, and the
  startup validation. YAML is parsed by serde_yaml, so \<open>from_yaml\<close> takes the parser as an
  argument; its result is the document with every key optional, as \<open>#[serde(default)]\<close> reads
  it (an unknown key is a parse error). \<open>http::HeaderValue::from_str\<close> is the argument
  \<open>header_value_ok\<close>. The messages of the validation are one constructor each.
\<close>

section \<open>Sections\<close>

record listen_config =
  listen_host :: string
  listen_port :: u16

record latency_aware_config =
  la_alpha :: f64

record prefix_cache_config =
  prefix_token_count :: usize

record routing_config =
  routing_strategy :: string
  routing_prefix_cache :: prefix_cache_config
  routing_latency_aware :: latency_aware_config

record backend_config =
  bc_url :: string
  bc_weight :: u32

record upstream_config =
  connect_timeout_secs :: u64
  read_timeout_secs :: u64

record health_check_config =
  interval_secs :: u64
  unhealthy_threshold :: u32
  healthy_threshold :: u32

record circuit_breaker_config =
  cbc_failure_rate_threshold :: f64
  cbc_min_requests :: u64
  cbc_window_secs :: u64
  cbc_open_duration_secs :: u64

record backpressure_config =
  bp_max_in_flight :: usize
  max_backend_queue_depth :: u64

record metrics_config =
  metrics_enabled :: bool
  metrics_path :: string

record router_config =
  cfg_listen :: listen_config
  cfg_routing :: routing_config
  cfg_backends :: "backend_config list"
  cfg_health_check :: health_check_config
  cfg_circuit_breaker :: circuit_breaker_config
  cfg_backpressure :: backpressure_config
  cfg_metrics :: metrics_config
  cfg_upstream :: upstream_config

section \<open>Defaults\<close>

definition default_host :: string where
  "default_host = ''0.0.0.0''"

definition default_port :: u16 where
  "default_port = 8080"

definition default_strategy :: string where
  "default_strategy = ''round_robin''"

definition default_prefix_token_count :: usize where
  "default_prefix_token_count = 256"

definition default_ewma_alpha :: f64 where
  "default_ewma_alpha = to_f64 (3 / 10)"

definition default_weight :: u32 where
  "default_weight = 1"

definition default_connect_timeout_secs :: u64 where
  "default_connect_timeout_secs = 10"

definition default_read_timeout_secs :: u64 where
  "default_read_timeout_secs = 120"

definition default_interval_secs :: u64 where
  "default_interval_secs = 5"

definition default_unhealthy_threshold :: u32 where
  "default_unhealthy_threshold = 3"

definition default_healthy_threshold :: u32 where
  "default_healthy_threshold = 2"

definition default_failure_rate :: f64 where
  "default_failure_rate = to_f64 (1 / 2)"

definition default_min_requests :: u64 where
  "default_min_requests = 5"

definition default_window_secs :: u64 where
  "default_window_secs = 60"

definition default_open_duration_secs :: u64 where
  "default_open_duration_secs = 30"

definition default_max_in_flight :: usize where
  "default_max_in_flight = 1000"

definition default_max_backend_queue :: u64 where
  "default_max_backend_queue = 50"

definition default_metrics_enabled :: bool where
  "default_metrics_enabled = True"

definition default_metrics_path :: string where
  "default_metrics_path = ''/metrics''"

lemmas default_defs = default_host_def default_port_def default_strategy_def
  default_prefix_token_count_def default_ewma_alpha_def default_weight_def
  default_connect_timeout_secs_def default_read_timeout_secs_def default_interval_secs_def
  default_unhealthy_threshold_def default_healthy_threshold_def default_failure_rate_def
  default_min_requests_def default_window_secs_def default_open_duration_secs_def
  default_max_in_flight_def default_max_backend_queue_def default_metrics_enabled_def
  default_metrics_path_def

section \<open>Documents\<close>

text \<open>
  A parsed YAML document: each key with a default may be missing, at both levels. The field
  order follows the sections. Required keys are \<open>routing\<close>, \<open>backends\<close> and each \<open>url\<close>.
\<close>

record raw_routing =
  raw_strategy :: "string option"
  raw_prefix_cache :: "usize option option"
  raw_latency_aware :: "f64 option option"

record raw_config =
  raw_listen :: "(string option \<times> u16 option) option"
  raw_routing_section :: raw_routing
  raw_backends :: "(string \<times> u32 option) list"
  raw_health_check :: "(u64 option \<times> u32 option \<times> u32 option) option"
  raw_circuit_breaker :: "(f64 option \<times> u64 option \<times> u64 option \<times> u64 option) option"
  raw_backpressure :: "(usize option \<times> u64 option) option"
  raw_metrics :: "(bool option \<times> string option) option"
  raw_upstream :: "(u64 option \<times> u64 option) option"

definition read_listen :: "(string option \<times> u16 option) option \<Rightarrow> listen_config" where
  "read_listen r = (case the_default (None, None) r of (h, p) \<Rightarrow>
     \<lparr>listen_host = the_default default_host h, listen_port = the_default default_port p\<rparr>)"

definition read_routing :: "raw_routing \<Rightarrow> routing_config" where
  "read_routing r =
     \<lparr>routing_strategy = the_default default_strategy (raw_strategy r),
      routing_prefix_cache =
        \<lparr>prefix_token_count = the_default default_prefix_token_count (the_default None (raw_prefix_cache r))\<rparr>,
      routing_latency_aware =
        \<lparr>la_alpha = the_default default_ewma_alpha (the_default None (raw_latency_aware r))\<rparr>\<rparr>"

definition read_backend :: "string \<times> u32 option \<Rightarrow> backend_config" where
  "read_backend r = \<lparr>bc_url = fst r, bc_weight = the_default default_weight (snd r)\<rparr>"

definition read_health_check ::
  "(u64 option \<times> u32 option \<times> u32 option) option \<Rightarrow> health_check_config" where
  "read_health_check r = (case the_default (None, None, None) r of (i, u, h) \<Rightarrow>
     \<lparr>interval_secs = the_default default_interval_secs i,
      unhealthy_threshold = the_default default_unhealthy_threshold u,
      healthy_threshold = the_default default_healthy_threshold h\<rparr>)"

definition read_circuit_breaker ::
  "(f64 option \<times> u64 option \<times> u64 option \<times> u64 option) option \<Rightarrow> circuit_breaker_config" where
  "read_circuit_breaker r = (case the_default (None, None, None, None) r of (f, m, w, d) \<Rightarrow>
     \<lparr>cbc_failure_rate_threshold = the_default default_failure_rate f,
      cbc_min_requests = the_default default_min_requests m,
      cbc_window_secs = the_default default_window_secs w,
      cbc_open_duration_secs = the_default default_open_duration_secs d\<rparr>)"

definition read_backpressure :: "(usize option \<times> u64 option) option \<Rightarrow> backpressure_config" where
  "read_backpressure r = (case the_default (None, None) r of (m, q) \<Rightarrow>
     \<lparr>bp_max_in_flight = the_default default_max_in_flight m,
      max_backend_queue_depth = the_default default_max_backend_queue q\<rparr>)"

definition read_metrics :: "(bool option \<times> string option) option \<Rightarrow> metrics_config" where
  "read_metrics r = (case the_default (None, None) r of (e, p) \<Rightarrow>
     \<lparr>metrics_enabled = the_default default_metrics_enabled e,
      metrics_path = the_default default_metrics_path p\<rparr>)"

definition read_upstream :: "(u64 option \<times> u64 option) option \<Rightarrow> upstream_config" where
  "read_upstream r = (case the_default (None, None) r of (c, t) \<Rightarrow>
     \<lparr>connect_timeout_secs = the_default default_connect_timeout_secs c,
      read_timeout_secs = the_default default_read_timeout_secs t\<rparr>)"

definition read_config :: "raw_config \<Rightarrow> router_config" where
  "read_config r =
     \<lparr>cfg_listen = read_listen (raw_listen r), cfg_routing = read_routing (raw_routing_section r),
      cfg_backends = map read_backend (raw_backends r),
      cfg_health_check = read_health_check (raw_health_check r),
      cfg_circuit_breaker = read_circuit_breaker (raw_circuit_breaker r),
      cfg_backpressure = read_backpressure (raw_backpressure r),
      cfg_metrics = read_metrics (raw_metrics r), cfg_upstream = read_upstream (raw_upstream r)\<rparr>"

section \<open>Validation\<close>

definition MAX_WINDOW_SECS :: u64 where
  "MAX_WINDOW_SECS = 3600"

datatype invalid_config =
  Alpha_out_of_range f64
| Failure_rate_out_of_range f64
| Unknown_strategy_name string
| Interval_zero
| Window_out_of_range u64
| Min_requests_zero
| Max_in_flight_zero
| Metrics_path_collides string
| Metrics_path_not_literal string
| Connect_timeout_zero
| Read_timeout_zero
| Backends_empty
| Backend_weight_zero string
| Backend_url_bad string

datatype 'e config_error = Parse 'e | Invalid invalid_config

definition starts_with :: "string \<Rightarrow> string \<Rightarrow> bool" where
  "starts_with s pre = (take (length pre) s = pre)"

definition not_in_unit :: "f64 \<Rightarrow> bool" where
  "not_in_unit x \<longleftrightarrow> \<not> is_finite_f64 x \<or> le_f64 x (Fin 0) \<or> lt_f64 (Fin 1) x"

definition ROUTER_ROUTES :: "string list" where
  "ROUTER_ROUTES = [''/health'', ''/v1/completions'', ''/v1/chat/completions'']"

fun check_backends :: "(string \<Rightarrow> bool) \<Rightarrow> backend_config list \<Rightarrow> invalid_config + unit" where
  "check_backends header_value_ok [] = Inr ()"
| "check_backends header_value_ok (b # bs) =
     (if bc_weight b < 1 then Inl (Backend_weight_zero (bc_url b))
      else if \<not> (starts_with (bc_url b) ''http://'' \<or> starts_with (bc_url b) ''https://'')
           \<or> \<not> header_value_ok (bc_url b)
        then Inl (Backend_url_bad (bc_url b))
      else check_backends header_value_ok bs)"

definition validate :: "(string \<Rightarrow> bool) \<Rightarrow> router_config \<Rightarrow> invalid_config + unit" where
  "validate header_value_ok c =
     (let alpha = la_alpha (routing_latency_aware (cfg_routing c));
          rate = cbc_failure_rate_threshold (cfg_circuit_breaker c);
          window_secs = cbc_window_secs (cfg_circuit_breaker c);
          path = metrics_path (cfg_metrics c)
      in if not_in_unit alpha then Inl (Alpha_out_of_range alpha)
         else if not_in_unit rate then Inl (Failure_rate_out_of_range rate)
         else if routing_strategy (cfg_routing c) \<notin> set STRATEGY_NAMES
           then Inl (Unknown_strategy_name (routing_strategy (cfg_routing c)))
         else if interval_secs (cfg_health_check c) < 1 then Inl Interval_zero
         else if \<not> (1 \<le> window_secs \<and> window_secs \<le> MAX_WINDOW_SECS)
           then Inl (Window_out_of_range window_secs)
         else if cbc_min_requests (cfg_circuit_breaker c) < 1 then Inl Min_requests_zero
         else if bp_max_in_flight (cfg_backpressure c) < 1 then Inl Max_in_flight_zero
         else if \<not> starts_with path ''/'' \<or> path \<in> set ROUTER_ROUTES
           then Inl (Metrics_path_collides path)
         else if \<exists>ch \<in> set path. ch \<in> {CHR '':'', CHR ''*'', CHR ''{'', CHR ''}''}
           then Inl (Metrics_path_not_literal path)
         else if connect_timeout_secs (cfg_upstream c) < 1 then Inl Connect_timeout_zero
         else if read_timeout_secs (cfg_upstream c) < 1 then Inl Read_timeout_zero
         else if cfg_backends c = [] then Inl Backends_empty
         else check_backends header_value_ok (cfg_backends c))"

definition from_yaml ::
  "(string \<Rightarrow> 'e + raw_config) \<Rightarrow> (string \<Rightarrow> bool) \<Rightarrow> string \<Rightarrow> 'e config_error + router_config" where
  "from_yaml yaml_parse header_value_ok contents =
     (case yaml_parse contents of
        Inl e \<Rightarrow> Inl (Parse e)
      | Inr r \<Rightarrow>
          let cfg = read_config r
          in (case validate header_value_ok cfg of
                Inl msg \<Rightarrow> Inl (Invalid msg)
              | Inr _ \<Rightarrow> Inr cfg))"

definition trim_end_slashes :: "string \<Rightarrow> string" where
  "trim_end_slashes s = rev (dropWhile (\<lambda>c. c = CHR ''/'') (rev s))"

definition normalized_url :: "backend_config \<Rightarrow> string" where
  "normalized_url b = trim_end_slashes (bc_url b)"

text \<open>The address that \<open>listen_addr\<close> parses.\<close>

definition listen_addr_text :: "router_config \<Rightarrow> string" where
  "listen_addr_text c = listen_host (cfg_listen c) @ '':'' @ show_nat (unat (listen_port (cfg_listen c)))"

section \<open>What validation guarantees\<close>

text \<open>The accepted configurations, as the set of conditions in any order.\<close>

definition unit_interval :: "f64 \<Rightarrow> bool" where
  "unit_interval x \<longleftrightarrow> (\<exists>q. x = Fin q \<and> 0 < q \<and> q \<le> 1)"

definition backend_config_ok :: "(string \<Rightarrow> bool) \<Rightarrow> backend_config \<Rightarrow> bool" where
  "backend_config_ok header_value_ok b \<longleftrightarrow> bc_weight b \<noteq> 0 \<and> header_value_ok (bc_url b) \<and>
     (\<exists>rest. bc_url b = ''http://'' @ rest \<or> bc_url b = ''https://'' @ rest)"

definition config_ok :: "(string \<Rightarrow> bool) \<Rightarrow> router_config \<Rightarrow> bool" where
  "config_ok header_value_ok c \<longleftrightarrow>
     unit_interval (la_alpha (routing_latency_aware (cfg_routing c))) \<and>
     unit_interval (cbc_failure_rate_threshold (cfg_circuit_breaker c)) \<and>
     routing_strategy (cfg_routing c) \<in> set STRATEGY_NAMES \<and>
     interval_secs (cfg_health_check c) \<noteq> 0 \<and>
     cbc_window_secs (cfg_circuit_breaker c) \<in> {1..3600} \<and>
     cbc_min_requests (cfg_circuit_breaker c) \<noteq> 0 \<and>
     bp_max_in_flight (cfg_backpressure c) \<noteq> 0 \<and>
     (\<exists>rest. metrics_path (cfg_metrics c) = CHR ''/'' # rest) \<and>
     metrics_path (cfg_metrics c) \<notin> set ROUTER_ROUTES \<and>
     set (metrics_path (cfg_metrics c)) \<inter> {CHR '':'', CHR ''*'', CHR ''{'', CHR ''}''} = {} \<and>
     connect_timeout_secs (cfg_upstream c) \<noteq> 0 \<and> read_timeout_secs (cfg_upstream c) \<noteq> 0 \<and>
     cfg_backends c \<noteq> [] \<and> (\<forall>b \<in> set (cfg_backends c). backend_config_ok header_value_ok b)"

lemma unit_interval_Fin [simp]: "unit_interval (Fin q) \<longleftrightarrow> 0 < q \<and> q \<le> 1"
  by (simp add: unit_interval_def)

lemma not_in_unit_iff: "not_in_unit x \<longleftrightarrow> \<not> unit_interval x"
  by (cases x) (auto simp: not_in_unit_def unit_interval_def lt_f64_def)

lemma starts_with_iff: "starts_with s pre \<longleftrightarrow> (\<exists>rest. s = pre @ rest)"
  unfolding starts_with_def by (metis append_take_drop_id append_eq_conv_conj)

lemma check_backends_ok:
  "check_backends hv bs = Inr () \<longleftrightarrow> (\<forall>b \<in> set bs. backend_config_ok hv b)"
  by (induction bs) (auto simp: backend_config_ok_def starts_with_iff)

lemma validate_ok: "validate hv c = Inr () \<longleftrightarrow> config_ok hv c"
  unfolding validate_def Let_def config_ok_def not_in_unit_iff MAX_WINDOW_SECS_def
  by (auto simp: check_backends_ok starts_with_iff)

lemma default_alpha_value: "unit_interval default_ewma_alpha"
proof -
  have "(3 / 10 :: rat) \<le> safe_bound" by (rule pow50_safe) simp
  then have eq: "default_ewma_alpha = Fin (rnd (3 / 10))"
    unfolding default_ewma_alpha_def by (intro to_f64_small) simp
  have "1 / 4 \<le> rnd (3 / 10)" using representable_powi [of "- 2"] by (intro b64.lower) simp_all
  moreover have "rnd (3 / 10) \<le> 1" using representable_of_nat [of 1] by (intro b64.upper) simp_all
  ultimately show ?thesis unfolding eq unit_interval_Fin by linarith
qed

lemma default_rate_value: "default_failure_rate = Fin (1 / 2)"
proof -
  have "(1 / 2 :: rat) \<le> safe_bound" by (rule pow50_safe) simp
  then show ?thesis unfolding default_failure_rate_def
    using to_f64_small [of "1 / 2"] b64.exact [OF representable_half] by simp
qed

text \<open>A document with nothing but the required keys.\<close>

definition minimal_document :: "string list \<Rightarrow> raw_config" where
  "minimal_document urls =
     \<lparr>raw_listen = None,
      raw_routing_section = \<lparr>raw_strategy = None, raw_prefix_cache = None, raw_latency_aware = None\<rparr>,
      raw_backends = map (\<lambda>u. (u, None)) urls, raw_health_check = None, raw_circuit_breaker = None,
      raw_backpressure = None, raw_metrics = None, raw_upstream = None\<rparr>"

lemma minimal_config:
  assumes "urls \<noteq> []" "\<forall>u \<in> set urls. hv u \<and> (\<exists>rest. u = ''http://'' @ rest \<or> u = ''https://'' @ rest)"
  shows "config_ok hv (read_config (minimal_document urls))"
proof -
  have "backend_config_ok hv (read_backend (u, None))" if "u \<in> set urls" for u
    using assms(2) that by (simp add: backend_config_ok_def read_backend_def the_default_def default_weight_def)
  moreover have "unit_interval default_failure_rate"
    by (simp add: default_rate_value)
  ultimately show ?thesis using assms(1) default_alpha_value
    by (simp add: config_ok_def read_config_def minimal_document_def read_routing_def read_health_check_def
        read_circuit_breaker_def read_backpressure_def read_metrics_def read_upstream_def the_default_def
        default_strategy_def default_interval_secs_def default_min_requests_def default_window_secs_def
        default_max_in_flight_def default_metrics_path_def default_connect_timeout_secs_def
        default_read_timeout_secs_def STRATEGY_NAMES_def ROUTER_ROUTES_def)
qed

section \<open>Properties\<close>

text \<open>
  C26. What startup accepts. A configuration file is accepted exactly when it parses and,
  after the defaults are filled in, satisfies every condition of the check at once; the
  accepted configuration is then the parsed one, and every failure is reported as an error.
\<close>

theorem from_yaml_accepts:
  "(from_yaml yaml_parse hv contents = Inr c \<longleftrightarrow>
      (\<exists>r. yaml_parse contents = Inr r \<and> c = read_config r \<and> config_ok hv c)) \<and>
   ((\<exists>e. from_yaml yaml_parse hv contents = Inl (Parse e)) \<longleftrightarrow> (\<exists>e. yaml_parse contents = Inl e))"
proof (cases "yaml_parse contents")
  case (Inr r)
  show ?thesis
  proof (cases "validate hv (read_config r)")
    case (Inl msg)
    then have "\<not> config_ok hv (read_config r)" using validate_ok [of hv "read_config r"] by simp
    with Inr Inl show ?thesis by (auto simp: from_yaml_def)
  next
    case (Inr u)
    then have "config_ok hv (read_config r)" using validate_ok [of hv "read_config r"] by simp
    with \<open>yaml_parse contents = Inr r\<close> Inr show ?thesis by (auto simp: from_yaml_def)
  qed
qed (simp add: from_yaml_def)

text \<open>
  The defaults are valid. A file that names only backends, each with an http or https
  URL that fits a header, is accepted, with round robin, a failure rate of one half and
  1000 requests in flight.
\<close>

lemma minimal_config_valid:
  assumes "urls \<noteq> []" "\<forall>u \<in> set urls. hv u \<and> (\<exists>rest. u = ''http://'' @ rest \<or> u = ''https://'' @ rest)"
    and "yaml_parse contents = Inr (minimal_document urls)"
  shows "\<exists>c. from_yaml yaml_parse hv contents = Inr c \<and> map bc_url (cfg_backends c) = urls \<and>
    routing_strategy (cfg_routing c) = ''round_robin'' \<and>
    cbc_failure_rate_threshold (cfg_circuit_breaker c) = Fin (1 / 2) \<and>
    bp_max_in_flight (cfg_backpressure c) = 1000"
proof -
  let ?c = "read_config (minimal_document urls)"
  have "validate hv ?c = Inr ()" using minimal_config [OF assms(1,2)] by (simp add: validate_ok)
  then have "from_yaml yaml_parse hv contents = Inr ?c" using assms(3) by (simp add: from_yaml_def)
  moreover have "map bc_url (cfg_backends ?c) = urls"
    by (simp add: read_config_def minimal_document_def read_backend_def comp_def)
  moreover have "routing_strategy (cfg_routing ?c) = ''round_robin''"
    "cbc_failure_rate_threshold (cfg_circuit_breaker ?c) = Fin (1 / 2)"
    "bp_max_in_flight (cfg_backpressure ?c) = 1000"
    by (simp_all add: read_config_def minimal_document_def read_routing_def read_circuit_breaker_def
        read_backpressure_def the_default_def default_strategy_def default_rate_value
        default_max_in_flight_def)
  ultimately show ?thesis by blast
qed

text \<open>
  URL normalisation. The stored URL is the configured one without its trailing slashes,
  so appending a path that starts with a slash never produces two in a row at the seam.
\<close>

lemma normalized_url_no_slash:
  "(\<exists>n. bc_url b = normalized_url b @ replicate n (CHR ''/'')) \<and>
   (\<nexists>rest. normalized_url b = rest @ ''/'') \<and>
   normalized_url \<lparr>bc_url = normalized_url b, bc_weight = bc_weight b\<rparr> = normalized_url b"
proof -
  let ?s = "\<lambda>c. c = CHR ''/''"
  have "bc_url b = rev (dropWhile ?s (rev (bc_url b))) @ rev (takeWhile ?s (rev (bc_url b)))"
    by (metis rev_append rev_rev_ident takeWhile_dropWhile_id)
  moreover have "takeWhile ?s xs = replicate (length (takeWhile ?s xs)) (CHR ''/'')" for xs
    by (induction xs) auto
  ultimately have "bc_url b = normalized_url b @ replicate (length (takeWhile ?s (rev (bc_url b)))) (CHR ''/'')"
    unfolding normalized_url_def trim_end_slashes_def by (metis rev_replicate)
  moreover have "normalized_url b \<noteq> rest @ ''/''" for rest
  proof
    assume "normalized_url b = rest @ ''/''"
    then have "dropWhile ?s (rev (bc_url b)) = CHR ''/'' # rev rest"
      unfolding normalized_url_def trim_end_slashes_def by (metis rev.simps(2) rev_rev_ident rev_swap rev_append append_Cons append_Nil rev.simps(1))
    then show False using hd_dropWhile [of ?s "rev (bc_url b)"] by simp
  qed
  moreover have "normalized_url \<lparr>bc_url = normalized_url b, bc_weight = bc_weight b\<rparr> = normalized_url b"
    by (simp add: normalized_url_def trim_end_slashes_def dropWhile_idem)
  ultimately show ?thesis by blast
qed

end
