(* ===== verification/Proxy.thy ===== *)
theory Proxy
  imports Config
begin

text \<open>
  Forwarding one request to one backend (router-core/src/proxy.rs). A \<open>HeaderMap\<close> is the
  sequence of its entries in iteration order, names in lower case. The HTTP client is the
  argument \<open>send\<close>; what reading the whole body would give is part of its reply. \<open>to_str\<close> is
  \<open>HeaderValue::to_str\<close> of the http crate, which yields a visible ASCII string or nothing.
\<close>

type_synonym headers = "(string \<times> string) list"

definition MAX_BODY_BYTES :: nat where
  "MAX_BODY_BYTES = 10 * 1024 * 1024"

definition HOP_BY_HOP :: "string list" where
  "HOP_BY_HOP =
     [''connection'', ''keep-alive'', ''proxy-authenticate'', ''proxy-authorization'', ''te'',
      ''trailer'', ''transfer-encoding'', ''upgrade'', ''host'', ''x-router-backend'']"

definition is_hop_by_hop :: "string \<Rightarrow> bool" where
  "is_hop_by_hop name \<longleftrightarrow> name \<in> set HOP_BY_HOP \<or> name = ''content-length''"

fun filter_headers :: "headers \<Rightarrow> headers" where
  "filter_headers [] = []"
| "filter_headers ((name, v) # hs) =
     (if \<not> is_hop_by_hop name then (name, v) # filter_headers hs else filter_headers hs)"

text \<open>\<open>HeaderMap::get\<close> returns the first value; \<open>trim_start\<close> acts on an ASCII string here.\<close>

definition header_get :: "string \<Rightarrow> headers \<Rightarrow> string option" where
  "header_get name hs = map_option snd (find (\<lambda>h. fst h = name) hs)"

definition ascii_trim_start :: "string \<Rightarrow> string" where
  "ascii_trim_start s = dropWhile (\<lambda>c. of_char c = (32 :: nat) \<or> (9 \<le> (of_char c :: nat) \<and> of_char c \<le> (13 :: nat))) s"

definition is_event_stream :: "(string \<Rightarrow> string option) \<Rightarrow> headers \<Rightarrow> bool" where
  "is_event_stream to_str hs =
     (case Option.bind (header_get ''content-type'' hs) to_str of
        Some ct \<Rightarrow> starts_with (ascii_trim_start ct) ''text/event-stream''
      | None \<Rightarrow> False)"

datatype forwarded_body = Full string | Stream

record forwarded =
  fwd_status :: status
  fwd_headers :: headers
  fwd_body :: forwarded_body
  fwd_headers_at :: instant

datatype forward_error = Connect | Body instant

definition forward_error_status :: "forward_error \<Rightarrow> status" where
  "forward_error_status e = 502"

text \<open>The request that goes out, and what comes back.\<close>

record http_request =
  rq_method :: string
  rq_url :: string
  rq_headers :: headers
  rq_body :: string

datatype upstream_reply = Send_failed | Replied status headers "string option"

definition upstream_request ::
  "backend \<Rightarrow> string \<Rightarrow> string option \<Rightarrow> headers \<Rightarrow> string \<Rightarrow> http_request" where
  "upstream_request b meth path_and_query hs body =
     \<lparr>rq_method = meth, rq_url = url b @ the_default ''/'' path_and_query,
      rq_headers = filter_headers hs, rq_body = body\<rparr>"

definition forward_request ::
  "(string \<Rightarrow> string option) \<Rightarrow> (http_request \<Rightarrow> upstream_reply) \<Rightarrow> instant \<Rightarrow> backend \<Rightarrow>
   string \<Rightarrow> string option \<Rightarrow> headers \<Rightarrow> string \<Rightarrow> forward_error + forwarded" where
  "forward_request to_str send now b meth path_and_query hs body =
     (case send (upstream_request b meth path_and_query hs body) of
        Send_failed \<Rightarrow> Inl Connect
      | Replied st reply_hs full \<Rightarrow>
          let out_hs = filter_headers reply_hs
          in if is_event_stream to_str out_hs
             then Inr \<lparr>fwd_status = st, fwd_headers = out_hs, fwd_body = Stream, fwd_headers_at = now\<rparr>
             else
               (case full of
                  None \<Rightarrow> Inl (Body now)
                | Some bytes \<Rightarrow>
                    Inr \<lparr>fwd_status = st, fwd_headers = out_hs, fwd_body = Full bytes,
                         fwd_headers_at = now\<rparr>))"

section \<open>Header lemmas\<close>

lemma filter_headers_filter: "filter_headers hs = filter (\<lambda>h. \<not> is_hop_by_hop (fst h)) hs"
  by (induction hs rule: filter_headers.induct) simp_all

lemma filter_headers_idem: "filter_headers (filter_headers hs) = filter_headers hs"
  by (simp add: filter_headers_filter)

text \<open>All values of a name, in order.\<close>

definition header_values :: "string \<Rightarrow> headers \<Rightarrow> string list" where
  "header_values n hs = map snd (filter (\<lambda>h. fst h = n) hs)"

lemma filter_headers_values:
  "header_values n (filter_headers hs) = (if is_hop_by_hop n then [] else header_values n hs)"
  by (induction hs rule: filter_headers.induct) (auto simp: header_values_def)

lemma forward_request_headers:
  "forward_request ts send now b m pq hs body = Inr f \<Longrightarrow>
     \<exists>hs'. fwd_headers f = filter_headers hs' \<and> fwd_headers_at f = now"
  by (auto simp: forward_request_def Let_def split: upstream_reply.splits if_splits option.splits)

section \<open>Properties\<close>

text \<open>
  Headers named by \<open>connection\<close> pass. RFC 7230 section 6.1 makes every header that the
  \<open>connection\<close> header names hop-by-hop; the filter knows the fixed list only, so for any other
  name such a header is forwarded with all its values, although its nomination is dropped.
\<close>

lemma nominated_header_forwarded:
  assumes "n \<notin> set HOP_BY_HOP" "n \<noteq> ''content-length''"
  shows "header_values n (filter_headers ((''connection'', n) # hs)) = header_values n hs \<and>
    header_values ''connection'' (filter_headers ((''connection'', n) # hs)) = []"
proof -
  have "\<not> is_hop_by_hop n" "is_hop_by_hop ''connection''"
    using assms by (simp_all add: is_hop_by_hop_def) (simp add: HOP_BY_HOP_def)
  moreover from this have "n \<noteq> ''connection''" by blast
  then have "header_values n ((''connection'', n) # hs) = header_values n hs" by (simp add: header_values_def)
  ultimately show ?thesis by (simp only: filter_headers_values if_True if_False simp_thms)
qed

end
