(* ===== verification/Backpressure.thy ===== *)
theory Backpressure
  imports Prelude "HOL-Library.Multiset"
begin

text \<open>
  Admission control (router-core/src/backpressure.rs): a bounded number of in-flight requests,
  held as permits that release their slot when dropped. \<open>fetch_update\<close> is one atomic
  read-modify-write, so each operation is one step on the counter.

  The locale \<open>slot_budget\<close> is the contract between the controller and the permits its
  clients hold: the counter is the number of permits outstanding. The theory shows that in
  every interleaving of acquisitions and drops the budget is kept, that an acquisition fails
  only at capacity, and that no sequence of drops drives the counter below zero.
\<close>

section \<open>The controller\<close>

record backpressure_controller =
  in_flight_count :: usize
  max_in_flight :: usize

text \<open>A \<open>Permit\<close> holds a reference to its controller and no data of its own.\<close>

datatype permit = Permit

definition new_controller :: "usize \<Rightarrow> backpressure_controller" where
  "new_controller m = \<lparr>in_flight_count = 0, max_in_flight = m\<rparr>"

text \<open>\<open>fetch_update\<close>: store the new value if the closure gives one, and say whether it did.\<close>

definition fetch_update ::
  "(usize \<Rightarrow> usize option) \<Rightarrow> backpressure_controller \<Rightarrow> bool \<times> backpressure_controller" where
  "fetch_update f c =
     (case f (in_flight_count c) of
        Some v \<Rightarrow> (True, c\<lparr>in_flight_count := v\<rparr>)
      | None \<Rightarrow> (False, c))"

definition checked_sub :: "usize \<Rightarrow> usize \<Rightarrow> usize option" where
  "checked_sub a b = (if b \<le> a then Some (a - b) else None)"

definition try_acquire :: "backpressure_controller \<Rightarrow> permit option \<times> backpressure_controller" where
  "try_acquire c =
     (case fetch_update (\<lambda>v. if v < max_in_flight c then Some (v + 1) else None) c of
        (acquired, c') \<Rightarrow> (if acquired then Some Permit else None, c'))"

text \<open>The \<open>debug_assert!\<close> on the result is compiled out of the release build.\<close>

definition drop_permit :: "backpressure_controller \<Rightarrow> backpressure_controller" where
  "drop_permit c = snd (fetch_update (\<lambda>v. checked_sub v 1) c)"

definition in_flight :: "backpressure_controller \<Rightarrow> usize" where
  "in_flight c = in_flight_count c"

section \<open>Operation lemmas\<close>

definition controller_ok :: "backpressure_controller \<Rightarrow> bool" where
  "controller_ok c \<longleftrightarrow> in_flight_count c \<le> max_in_flight c"

lemma try_acquire_cases:
  "try_acquire c =
     (if in_flight_count c < max_in_flight c
      then (Some Permit, c\<lparr>in_flight_count := in_flight_count c + 1\<rparr>) else (None, c))"
  by (simp add: try_acquire_def fetch_update_def)

lemma drop_permit_cases:
  "drop_permit c =
     (if in_flight_count c = 0 then c else c\<lparr>in_flight_count := in_flight_count c - 1\<rparr>)"
proof (cases "in_flight_count c = 0")
  case False
  then have "1 \<le> in_flight_count c" by (simp add: word_le_nat_alt unat_gt_0 Suc_le_eq)
  with False show ?thesis by (simp add: drop_permit_def fetch_update_def checked_sub_def)
qed (simp add: drop_permit_def fetch_update_def checked_sub_def word_le_nat_alt)

lemma max_in_flight_frame [frame_simps]:
  "max_in_flight (snd (try_acquire c)) = max_in_flight c"
  "max_in_flight (drop_permit c) = max_in_flight c"
  by (simp_all add: try_acquire_cases drop_permit_cases)

lemma unat_Suc_below:
  fixes x y :: usize
  assumes "x < y"
  shows "unat (x + 1) = Suc (unat x)" "x + 1 \<le> y"
proof -
  have "unat x < unat y" using assms by (simp add: word_less_nat_alt)
  also have "unat y \<le> 2 ^ 64 - 1" by (rule unat_u64_le)
  finally show "unat (x + 1) = Suc (unat x)" by (rule unat_Suc_no_wrap)
  then show "x + 1 \<le> y" using assms by (simp add: word_le_nat_alt word_less_nat_alt)
qed

lemma controller_ok_new: "controller_ok (new_controller m)"
  by (simp add: controller_ok_def new_controller_def)

lemma controller_ok_try_acquire: "controller_ok c \<Longrightarrow> controller_ok (snd (try_acquire c))"
  by (simp add: controller_ok_def try_acquire_cases unat_Suc_below)

lemma controller_ok_drop: "controller_ok c \<Longrightarrow> controller_ok (drop_permit c)"
  by (auto simp: controller_ok_def drop_permit_cases word_le_nat_alt unat_gt_0)

lemma in_flight_try_acquire:
  "unat (in_flight (snd (try_acquire c))) =
     unat (in_flight c) + (if fst (try_acquire c) = None then 0 else 1)"
  by (simp add: try_acquire_cases in_flight_def unat_Suc_below)

lemma in_flight_drop: "unat (in_flight (drop_permit c)) = unat (in_flight c) - 1"
  by (auto simp: drop_permit_cases in_flight_def unat_gt_0)

lemma try_acquire_None:
  "fst (try_acquire c) = None \<longleftrightarrow> \<not> in_flight c < max_in_flight c"
  by (simp add: try_acquire_cases in_flight_def)

section \<open>The contract with the permit holders\<close>

text \<open>
  What a holder of slots relies on: acquiring adds exactly one to the count iff it
  succeeds, releasing removes one, and a full budget is the only reason to be refused.
\<close>

locale slot_budget =
  fixes ok :: "'c \<Rightarrow> bool" and used :: "'c \<Rightarrow> nat" and budget :: "'c \<Rightarrow> nat"
    and acquire :: "'c \<Rightarrow> 'p option \<times> 'c" and release :: "'c \<Rightarrow> 'c"
  assumes ok_acquire: "ok c \<Longrightarrow> ok (snd (acquire c))"
    and ok_release: "ok c \<Longrightarrow> ok (release c)"
    and used_budget: "ok c \<Longrightarrow> used c \<le> budget c"
    and acquire_used: "used (snd (acquire c)) = used c + (if fst (acquire c) = None then 0 else 1)"
    and acquire_full: "ok c \<Longrightarrow> fst (acquire c) = None \<longleftrightarrow> used c = budget c"
    and release_used: "used (release c) = used c - 1"
    and budget_fixed: "budget (snd (acquire c)) = budget c" "budget (release c) = budget c"
begin

text \<open>Run a sequence of attempts (\<open>True\<close>) and drops of a held permit (\<open>False\<close>).\<close>

definition move :: "bool \<Rightarrow> 'c \<times> nat \<Rightarrow> 'c \<times> nat" where
  "move a s =
     (if a then (snd (acquire (fst s)), snd s + (if fst (acquire (fst s)) = None then 0 else 1))
      else if snd s = 0 then s else (release (fst s), snd s - 1))"

definition kept :: "'c \<times> nat \<Rightarrow> bool" where
  "kept s \<longleftrightarrow> ok (fst s) \<and> used (fst s) = snd s"

lemma kept_move: "kept s \<Longrightarrow> kept (move a s) \<and> budget (fst (move a s)) = budget (fst s)"
  by (auto simp: kept_def move_def ok_acquire ok_release acquire_used release_used budget_fixed)

lemma kept_moves: "kept s \<Longrightarrow> kept (fold move as s) \<and> budget (fst (fold move as s)) = budget (fst s)"
  by (induction "as" arbitrary: s) (use kept_move in auto)

lemma refused_iff_full: "kept s \<Longrightarrow> fst (acquire (fst s)) = None \<longleftrightarrow> snd s = budget (fst s)"
  by (simp add: kept_def acquire_full)

lemma held_le_budget: "kept s \<Longrightarrow> snd s \<le> budget (fst s)"
  using used_budget [of "fst s"] by (simp add: kept_def)

lemma acquire_after_release:
  assumes "kept s" "0 < snd s"
  shows "fst (acquire (release (fst s))) \<noteq> None"
proof -
  have "used (release (fst s)) < budget (release (fst s))"
    using assms used_budget by (force simp: kept_def release_used budget_fixed)
  then show ?thesis using acquire_full [of "release (fst s)"] assms ok_release by (auto simp: kept_def)
qed

end

interpretation permits: slot_budget controller_ok "\<lambda>c. unat (in_flight c)"
  "\<lambda>c. unat (max_in_flight c)" try_acquire drop_permit
proof
  fix c
  assume ok: "controller_ok c"
  then show "unat (in_flight c) \<le> unat (max_in_flight c)"
    by (simp add: controller_ok_def in_flight_def word_le_nat_alt)
  then show "fst (try_acquire c) = None \<longleftrightarrow> unat (in_flight c) = unat (max_in_flight c)"
    by (auto simp: try_acquire_None word_less_nat_alt)
qed (simp_all add: controller_ok_try_acquire controller_ok_drop in_flight_try_acquire in_flight_drop
    frame_simps)

section \<open>Interleavings\<close>

text \<open>
  The tasks of the server as one sequence of steps: some task tries to acquire, or drops a
  permit it holds. Permits cannot be copied, so only held ones are dropped.
\<close>

datatype permit_event = Try_acquire | Drop_permit

type_synonym permit_sys = "backpressure_controller \<times> permit multiset"

fun permit_step :: "permit_event \<Rightarrow> permit_sys \<Rightarrow> permit_sys" where
  "permit_step Try_acquire (c, held) =
     (case try_acquire c of
        (Some p, c') \<Rightarrow> (c', add_mset p held)
      | (None, c') \<Rightarrow> (c', held))"
| "permit_step Drop_permit (c, held) =
     (if held = {#} then (c, held) else (drop_permit c, held - {#Permit#}))"

definition permit_run :: "usize \<Rightarrow> permit_event list \<Rightarrow> permit_sys" where
  "permit_run m evs = fold permit_step evs (new_controller m, {#})"

lemma permit_step_move:
  "(case permit_step e s of (c, held) \<Rightarrow> (c, size held)) =
     permits.move (e = Try_acquire) (case s of (c, held) \<Rightarrow> (c, size held))"
proof (cases s; cases e)
  fix c held assume "s = (c, held)" "e = Try_acquire"
  then show ?thesis by (auto simp: permits.move_def split: prod.split option.split)
next
  fix c held assume "s = (c, held)" "e = Drop_permit"
  moreover have "held \<noteq> {#} \<Longrightarrow> Permit \<in># held"
    using permit.exhaust by (metis multiset_nonemptyE)
  ultimately show ?thesis by (auto simp: permits.move_def size_Diff_singleton)
qed

lemma permit_run_kept:
  "permits.kept (case permit_run m evs of (c, held) \<Rightarrow> (c, size held)) \<and>
   max_in_flight (fst (permit_run m evs)) = m"
proof -
  have fold: "(case fold permit_step evs s of (c, held) \<Rightarrow> (c, size held)) =
      fold permits.move (map (\<lambda>e. e = Try_acquire) evs) (case s of (c, held) \<Rightarrow> (c, size held))" for s
    by (induction evs arbitrary: s) (simp_all add: permit_step_move)
  have start: "permits.kept (new_controller m, 0)"
    unfolding permits.kept_def by (simp add: controller_ok_new) (simp add: in_flight_def new_controller_def)
  have "permits.kept (case permit_run m evs of (c, held) \<Rightarrow> (c, size held)) \<and>
     unat (max_in_flight (fst (case permit_run m evs of (c, held) \<Rightarrow> (c, size held)))) =
       unat (max_in_flight (new_controller m))"
    using permits.kept_moves [OF start] fold [of "(new_controller m, {#})"]
    by (simp add: permit_run_def)
  then show ?thesis by (simp add: new_controller_def split_def word_unat_eq_iff)
qed

section \<open>Properties\<close>

text \<open>
  C16. The in-flight budget. Whatever the order in which tasks acquire and drop permits, the
  counter equals the number of permits held, which never exceeds the configured maximum; an
  acquisition is refused exactly when that many are held.
\<close>

theorem permits_within_budget:
  "case permit_run m evs of (c, held) \<Rightarrow>
     unat (in_flight c) = size held \<and> size held \<le> unat m \<and>
     (fst (try_acquire c) = None \<longleftrightarrow> size held = unat m)"
proof -
  obtain c held where run: "permit_run m evs = (c, held)" by fastforce
  have kept: "permits.kept (c, size held)" and m: "max_in_flight c = m"
    using permit_run_kept [of m evs] by (simp_all add: run)
  show ?thesis
    using permits.held_le_budget [OF kept] permits.refused_iff_full [OF kept] kept m
    by (simp add: run permits.kept_def)
qed

text \<open>
  Every dropped permit frees a slot. After any history, dropping a held permit makes the
  next acquisition succeed, and acquiring then dropping restores the controller.
\<close>

lemma drop_frees_slot:
  assumes "permit_run m evs = (c, held)" "held \<noteq> {#}"
  shows "fst (try_acquire (drop_permit c)) = Some Permit \<and>
    drop_permit (snd (try_acquire (drop_permit c))) = drop_permit c"
proof -
  have "permits.kept (c, size held)" using permit_run_kept [of m evs] assms(1) by simp
  then have "fst (try_acquire (drop_permit c)) \<noteq> None"
    using permits.acquire_after_release [of "(c, size held)"] assms(2) by (simp add: nonempty_has_size)
  then have lt: "in_flight_count (drop_permit c) < max_in_flight (drop_permit c)"
    by (simp add: try_acquire_None in_flight_def)
  then have "unat (in_flight_count (drop_permit c) + 1) \<noteq> 0" by (simp add: unat_Suc_below)
  then have "in_flight_count (drop_permit c) + 1 \<noteq> 0" by (metis unat_0)
  with lt show ?thesis by (simp add: try_acquire_cases [of "drop_permit c"] drop_permit_cases [of "_\<lparr>in_flight_count := _\<rparr>"])
qed

end
