(* ===== verification/Metrics.thy ===== *)
theory Metrics
  imports F64
begin

text \<open>
  The metrics families (router-core/src/metrics.rs). The families and the registry are objects
  of the prometheus-client crate; the router registers each family once and then only calls
  \<open>inc\<close>, \<open>observe\<close> and \<open>set\<close> on them. Those calls are kept in order as a log, which is read back
  the way the crate documents its metric types: a gauge has the value of its last \<open>set\<close>.
  The bucket bounds \<open>exponential_buckets\<close> computes and the text encoding are the crate's, too.
\<close>

section \<open>Calls\<close>

record request_labels =
  label_strategy :: string
  label_backend :: string
  label_status :: string

text \<open>\<open>BackendLabels\<close> and \<open>RejectLabels\<close> have one field each: the string itself.\<close>

datatype metric_call =
  Requests_total_inc request_labels
| Request_duration_observe string f64
| Rejected_requests_inc string
| Active_connections_set string int
| Circuit_breaker_state_set string int
| Backend_health_set string int
| Backend_queue_depth_set string int
| Backend_kv_cache_usage_set string f64
| In_flight_set int

text \<open>\<open>as i64\<close>: the same 64 bits, read as a signed number.\<close>

definition as_i64 :: "u64 \<Rightarrow> int" where
  "as_i64 x = sint x"

section \<open>Registration\<close>

datatype metric_type =
  Counter_family
| Gauge_family
| Gauge_f64_family
| Histogram_family "f64 list"
| Single_gauge

record registration =
  reg_name :: string
  reg_help :: string
  reg_type :: metric_type

definition new_metrics :: "(f64 \<Rightarrow> f64 \<Rightarrow> nat \<Rightarrow> f64 list) \<Rightarrow> registration list" where
  "new_metrics exponential_buckets =
     [\<lparr>reg_name = ''router_requests'', reg_help = ''Total requests routed'', reg_type = Counter_family\<rparr>,
      \<lparr>reg_name = ''router_request_duration_seconds'', reg_help = ''Request duration in seconds'',
       reg_type = Histogram_family (exponential_buckets (to_f64 (1 / 1000)) (Fin 2) 15)\<rparr>,
      \<lparr>reg_name = ''router_active_connections'', reg_help = ''Active connections per backend'',
       reg_type = Gauge_family\<rparr>,
      \<lparr>reg_name = ''router_circuit_breaker_state'',
       reg_help = ''Circuit breaker state (0=closed, 1=half_open, 2=open)'', reg_type = Gauge_family\<rparr>,
      \<lparr>reg_name = ''router_backend_health'', reg_help = ''Backend health (0=unhealthy, 1=healthy)'',
       reg_type = Gauge_family\<rparr>,
      \<lparr>reg_name = ''router_backend_queue_depth'',
       reg_help = ''Requests waiting in the backend queue (scraped)'', reg_type = Gauge_family\<rparr>,
      \<lparr>reg_name = ''router_backend_kv_cache_usage'',
       reg_help = ''Backend KV cache usage ratio 0..1 (scraped)'', reg_type = Gauge_f64_family\<rparr>,
      \<lparr>reg_name = ''router_rejected_requests'', reg_help = ''Rejected requests by reason'',
       reg_type = Counter_family\<rparr>,
      \<lparr>reg_name = ''router_in_flight'', reg_help = ''Requests currently admitted by the router'',
       reg_type = Single_gauge\<rparr>]"

section \<open>Reading the log\<close>

text \<open>The gauge a call sets, by family and label, with its new value.\<close>

fun gauge_set :: "metric_call \<Rightarrow> ((string \<times> string) \<times> int) option" where
  "gauge_set (Active_connections_set b v) = Some ((''router_active_connections'', b), v)"
| "gauge_set (Circuit_breaker_state_set b v) = Some ((''router_circuit_breaker_state'', b), v)"
| "gauge_set (Backend_health_set b v) = Some ((''router_backend_health'', b), v)"
| "gauge_set (Backend_queue_depth_set b v) = Some ((''router_backend_queue_depth'', b), v)"
| "gauge_set (In_flight_set v) = Some ((''router_in_flight'', []), v)"
| "gauge_set _ = None"

definition gauge_at :: "metric_call list \<Rightarrow> string \<times> string \<Rightarrow> int option" where
  "gauge_at calls = map_of (rev (List.map_filter gauge_set calls))"

lemma gauge_at_Nil [simp]: "gauge_at [] k = None"
  by (simp add: gauge_at_def)

lemma gauge_at_append: "gauge_at (xs @ ys) k = (case gauge_at ys k of Some v \<Rightarrow> Some v | None \<Rightarrow> gauge_at xs k)"
  by (simp add: gauge_at_def map_filter_def map_add_def split: option.split)

lemma gauge_at_snoc [simp]:
  "gauge_at (xs @ [m]) k =
     (case gauge_set m of Some (k', v) \<Rightarrow> if k' = k then Some v else gauge_at xs k | None \<Rightarrow> gauge_at xs k)"
  by (cases "gauge_set m") (simp_all add: gauge_at_def map_filter_def split: prod.split)

lemma gauge_at_single [simp]:
  "gauge_at [m] k = (case gauge_set m of Some (k', v) \<Rightarrow> if k' = k then Some v else None | None \<Rightarrow> None)"
  using gauge_at_snoc [of "[]" m k] by (simp split: option.split)

lemma as_i64_small: "unat x < 2 ^ 63 \<Longrightarrow> as_i64 x = int (unat x)"
proof -
  assume "unat x < 2 ^ 63"
  then have "uint x < 2 ^ 63" by (metis of_nat_less_iff of_nat_numeral of_nat_power uint_nat)
  moreover have "- (2 ^ 63) \<le> uint x" using uint_ge_0 [of x] by (rule order_trans [rotated]) simp
  ultimately have "signed_take_bit 63 (uint x) = uint x" by (intro signed_take_bit_int_eq_self)
  then show ?thesis by (simp add: as_i64_def sint_uint)
qed

end
