(* ===== verification/Router_State.thy ===== *)
theory Router_State
  imports Backend Backpressure Metrics
begin

text \<open>
  The state that the request tasks, the health checker and the metrics endpoint share: the
  pool, the in-flight controller, and the log of the calls on the metrics families.
\<close>

section \<open>Durations\<close>

text \<open>\<open>Duration::as_secs_f64\<close>\<close>

definition as_secs_f64 :: "duration \<Rightarrow> f64" where
  "as_secs_f64 d =
     add_f64 (f64_of_nat (as_secs d))
       (div_f64 (f64_of_nat (d mod 1000000000)) (f64_of_nat 1000000000))"

section \<open>Shared state\<close>

record router_state =
  pool :: backend_pool
  controller :: backpressure_controller
  metric_log :: "metric_call list"

definition report :: "metric_call \<Rightarrow> router_state \<Rightarrow> router_state" where
  "report m w = w\<lparr>metric_log := metric_log w @ [m]\<rparr>"

text \<open>An update of the backend behind a shared reference.\<close>

definition on_backend :: "nat \<Rightarrow> (backend \<Rightarrow> backend) \<Rightarrow> router_state \<Rightarrow> router_state" where
  "on_backend i f w =
     w\<lparr>pool := (pool w)\<lparr>backends := (backends (pool w))[i := f (backends (pool w) ! i)]\<rparr>\<rparr>"

abbreviation backend_at :: "router_state \<Rightarrow> nat \<Rightarrow> backend" where
  "backend_at w i \<equiv> backends (pool w) ! i"

abbreviation num_backends :: "router_state \<Rightarrow> nat" where
  "num_backends w \<equiv> length (backends (pool w))"

definition release_permit :: "router_state \<Rightarrow> router_state" where
  "release_permit w = w\<lparr>controller := drop_permit (controller w)\<rparr>"

section \<open>Frame facts\<close>

lemma on_backend_frame [frame_simps]:
  "controller (on_backend i f w) = controller w"
  "metric_log (on_backend i f w) = metric_log w"
  "max_queue_depth (pool (on_backend i f w)) = max_queue_depth (pool w)"
  "num_backends (on_backend i f w) = num_backends w"
  by (simp_all add: on_backend_def)

lemma on_backend_at [frame_simps]:
  "i < num_backends w \<Longrightarrow> backend_at (on_backend i f w) i = f (backend_at w i)"
  "j \<noteq> i \<Longrightarrow> backend_at (on_backend i f w) j = backend_at w j"
  by (simp_all add: on_backend_def)

lemma report_frame [frame_simps]:
  "pool (report m w) = pool w" "controller (report m w) = controller w"
  "metric_log (report m w) = metric_log w @ [m]"
  by (simp_all add: report_def)

lemma release_permit_frame [frame_simps]:
  "pool (release_permit w) = pool w" "metric_log (release_permit w) = metric_log w"
  "controller (release_permit w) = drop_permit (controller w)"
  by (simp_all add: release_permit_def)

lemma on_backend_report [frame_simps]: "pool (on_backend i f (report m w)) = pool (on_backend i f w)"
  by (simp add: on_backend_def report_def)

lemma on_backend_id: "on_backend i (\<lambda>b. b) w = w"
  by (simp add: on_backend_def)

lemma on_backend_comp: "on_backend i f (on_backend i g w) = on_backend i (\<lambda>b. f (g b)) w"
  by (cases "i < num_backends w") (simp_all add: on_backend_def list_update_beyond)

lemma on_backend_cong: "f (backend_at w i) = g (backend_at w i) \<Longrightarrow> on_backend i f w = on_backend i g w"
  by (simp add: on_backend_def)

text \<open>An update of every backend, one after the other.\<close>

lemma fold_on_backend_frame [frame_simps]:
  "controller (fold (\<lambda>i. on_backend i (f i)) js w) = controller w"
  "metric_log (fold (\<lambda>i. on_backend i (f i)) js w) = metric_log w"
  "max_queue_depth (pool (fold (\<lambda>i. on_backend i (f i)) js w)) = max_queue_depth (pool w)"
  "num_backends (fold (\<lambda>i. on_backend i (f i)) js w) = num_backends w"
  by (induction js arbitrary: w) (simp_all add: on_backend_frame)

lemma fold_on_backend_at:
  assumes "distinct js" "j < num_backends w"
  shows "backend_at (fold (\<lambda>i. on_backend i (f i)) js w) j = (if j \<in> set js then f j (backend_at w j) else backend_at w j)"
  using assms
proof (induction js arbitrary: w)
  case (Cons i js)
  then show ?case by (cases "i = j") (auto simp: on_backend_frame on_backend_at)
qed simp

lemma router_state_eqI:
  assumes "num_backends v = num_backends w" "\<And>j. j < num_backends w \<Longrightarrow> backend_at v j = backend_at w j"
    and "max_queue_depth (pool v) = max_queue_depth (pool w)" "controller v = controller w" "metric_log v = metric_log w"
  shows "v = w"
proof -
  have "backends (pool v) = backends (pool w)" using assms(1,2) by (simp add: list_eq_iff_nth_eq)
  then show ?thesis using assms(3-5) by simp
qed

lemma fold_on_backend_all:
  "fold (\<lambda>i. on_backend i (f i)) [0..<num_backends w] w =
     w\<lparr>pool := (pool w)\<lparr>backends := map (\<lambda>i. f i (backend_at w i)) [0..<num_backends w]\<rparr>\<rparr>"
  by (rule router_state_eqI) (simp_all add: fold_on_backend_frame fold_on_backend_at)

text \<open>The health of the shared state: breakers and controller keep their invariants.\<close>

definition state_ok :: "router_state \<Rightarrow> bool" where
  "state_ok w \<longleftrightarrow> pool_ok (pool w) \<and> controller_ok (controller w)"

lemma pool_ok_on_backend:
  assumes "pool_ok (pool w)"
    and "i < num_backends w \<Longrightarrow> breaker_ok (breaker (backend_at w i)) \<Longrightarrow>
      breaker_ok (breaker (f (backend_at w i))) \<and> backend_id (f (backend_at w i)) = backend_id (backend_at w i)"
  shows "pool_ok (pool (on_backend i f w))"
proof (cases "i < num_backends w")
  case True
  have "breaker_ok (breaker (backend_at w i))" using assms(1) True by (simp add: pool_ok_def)
  with assms True show ?thesis unfolding pool_ok_def
    by (auto simp: on_backend_def nth_list_update dest!: set_update_subset_insert [THEN subsetD])
next
  case False
  then show ?thesis using assms(1) by (simp add: on_backend_def list_update_beyond)
qed

lemma state_ok_simps:
  "state_ok (report m w) = state_ok w"
  "state_ok w \<Longrightarrow> state_ok (release_permit w)"
  by (simp_all add: state_ok_def frame_simps controller_ok_drop)

end
