(* ===== verification/Accounting.thy ===== *)
theory Accounting
  imports Router_State "HOL-Library.Sublist"
begin

text \<open>
  Per-request accounting (router-core/src/accounting.rs). \<open>RequestAccounting\<close> is a guard that
  records a verdict and releases its permit when dropped; \<open>AccountedStream\<close> keeps the guard
  alive until the last chunk of a streamed body.

  A guard is the record of its fields (the permit carries no data, so it is implied by the
  guard); dropping it is a transformer of the shared state. The clock readings taken inside
  the drop are the arguments \<open>ts 0\<close> (elapsed), \<open>ts 1\<close> (headers never seen) and \<open>ts 2\<close> (breaker).
  What the backend's byte stream yields at each poll is an event.

  The theory shows that a stream is accounted exactly once, with the verdict of its first
  terminal event, whatever is polled afterwards and whenever it is dropped.
\<close>

section \<open>Outcomes\<close>

datatype outcome =
  Completed status
| TransportError
| StreamError
| ClientDisconnect

fun is_backend_failure :: "outcome \<Rightarrow> bool" where
  "is_backend_failure (Completed s) = is_server_error s"
| "is_backend_failure TransportError = True"
| "is_backend_failure StreamError = True"
| "is_backend_failure ClientDisconnect = False"

fun status_label :: "outcome \<Rightarrow> string" where
  "status_label (Completed s) = show_nat s"
| "status_label TransportError = ''transport_error''"
| "status_label StreamError = ''stream_error''"
| "status_label ClientDisconnect = ''client_disconnect''"

section \<open>The guard\<close>

record request_accounting =
  acc_backend :: nat
  acc_strategy_name :: string
  acc_ewma_alpha :: f64
  acc_started :: instant
  headers_at :: "instant option"
  acc_outcome :: outcome
  acc_admission :: admission

definition start_accounting ::
  "nat \<Rightarrow> string \<Rightarrow> f64 \<Rightarrow> admission \<Rightarrow> instant \<Rightarrow> router_state \<Rightarrow> request_accounting \<times> router_state" where
  "start_accounting i strategy_name alpha adm now w =
     (\<lparr>acc_backend = i, acc_strategy_name = strategy_name, acc_ewma_alpha = alpha, acc_started = now,
       headers_at = None, acc_outcome = ClientDisconnect, acc_admission = adm\<rparr>,
      on_backend i record_request_start w)"

definition mark_headers_received_at :: "instant \<Rightarrow> request_accounting \<Rightarrow> request_accounting" where
  "mark_headers_received_at now acc =
     acc\<lparr>headers_at := (case headers_at acc of None \<Rightarrow> Some now | Some t \<Rightarrow> Some t)\<rparr>"

definition resolve_probe_on_headers ::
  "instant \<Rightarrow> status \<Rightarrow> request_accounting \<Rightarrow> router_state \<Rightarrow> request_accounting \<times> router_state" where
  "resolve_probe_on_headers now st acc w =
     (if acc_admission acc = Probe \<and> is_success st
      then (acc\<lparr>acc_admission := Normal\<rparr>,
            on_backend (acc_backend acc) (\<lambda>b. b\<lparr>breaker := record_success now Probe (breaker b)\<rparr>) w)
      else (acc, w))"

text \<open>The verdict on the backend: the latency estimate and the breaker.\<close>

definition apply_verdict :: "(nat \<Rightarrow> instant) \<Rightarrow> request_accounting \<Rightarrow> backend \<Rightarrow> backend" where
  "apply_verdict ts acc b =
     (case acc_outcome acc of
        Completed st \<Rightarrow>
          let b' = (if is_success st
                    then
                      let ttfb = the_default (ts 1) (headers_at acc) - acc_started acc
                      in update_ewma_latency (of_nat (as_micros ttfb)) (acc_ewma_alpha acc) b
                    else b)
          in if is_backend_failure (acc_outcome acc)
             then b'\<lparr>breaker := record_failure (ts 2) (acc_admission acc) (breaker b')\<rparr>
             else b'\<lparr>breaker := record_success (ts 2) (acc_admission acc) (breaker b')\<rparr>
      | TransportError \<Rightarrow> b\<lparr>breaker := record_failure (ts 2) (acc_admission acc) (breaker b)\<rparr>
      | StreamError \<Rightarrow> b\<lparr>breaker := record_failure (ts 2) (acc_admission acc) (breaker b)\<rparr>
      | ClientDisconnect \<Rightarrow> b\<lparr>breaker := abandon (acc_admission acc) (breaker b)\<rparr>)"

definition drop_accounting :: "(nat \<Rightarrow> instant) \<Rightarrow> request_accounting \<Rightarrow> router_state \<Rightarrow> router_state" where
  "drop_accounting ts acc w0 =
     (let elapsed = saturating_duration_since (ts 0) (acc_started acc);
          w1 = on_backend (acc_backend acc) record_request_end w0;
          w2 = on_backend (acc_backend acc) (apply_verdict ts acc) w1;
          backend_url = url (backend_at w2 (acc_backend acc));
          w3 = report (Request_duration_observe backend_url (as_secs_f64 elapsed)) w2;
          w4 = report (Requests_total_inc
                 \<lparr>label_strategy = acc_strategy_name acc, label_backend = backend_url,
                  label_status = status_label (acc_outcome acc)\<rparr>) w3
      in release_permit w4)"

text \<open>
  The drop in its atomic steps, between which other threads run: the connection count, the load
  and the store of the latency estimate, the breaker, and at last the permit, whose release
  follows the calls on the metrics. \<open>settle_step\<close> makes the next step; \<open>None\<close> when it was the
  last one.
\<close>

datatype drop_stage =
  End_request
| Load_latency
| Store_latency u64
| Judge_request
| Close_request

record settling =
  settling_acc :: request_accounting
  settling_elapsed :: duration
  settling_stage :: drop_stage

definition begin_drop :: "instant \<Rightarrow> request_accounting \<Rightarrow> settling" where
  "begin_drop now acc =
     \<lparr>settling_acc = acc, settling_elapsed = saturating_duration_since now (acc_started acc),
      settling_stage = End_request\<rparr>"

definition after_end :: "outcome \<Rightarrow> drop_stage" where
  "after_end out =
     (case out of Completed st \<Rightarrow> if is_success st then Load_latency else Judge_request | _ \<Rightarrow> Judge_request)"

definition judge_breaker :: "instant \<Rightarrow> request_accounting \<Rightarrow> circuit_breaker \<Rightarrow> circuit_breaker" where
  "judge_breaker now acc cb =
     (if acc_outcome acc = ClientDisconnect then abandon (acc_admission acc) cb
      else if is_backend_failure (acc_outcome acc) then record_failure now (acc_admission acc) cb
      else record_success now (acc_admission acc) cb)"

definition close_request :: "settling \<Rightarrow> router_state \<Rightarrow> router_state" where
  "close_request s w =
     (let acc = settling_acc s;
          backend_url = url (backend_at w (acc_backend acc));
          w1 = report (Request_duration_observe backend_url (as_secs_f64 (settling_elapsed s))) w;
          w2 = report (Requests_total_inc
                 \<lparr>label_strategy = acc_strategy_name acc, label_backend = backend_url,
                  label_status = status_label (acc_outcome acc)\<rparr>) w1
      in release_permit w2)"

definition settle_step :: "instant \<Rightarrow> settling \<Rightarrow> router_state \<Rightarrow> settling option \<times> router_state" where
  "settle_step now s w =
     (let acc = settling_acc s; i = acc_backend acc in
      case settling_stage s of
        End_request \<Rightarrow>
          (Some (s\<lparr>settling_stage := after_end (acc_outcome acc)\<rparr>), on_backend i record_request_end w)
      | Load_latency \<Rightarrow>
          let ttfb = the_default now (headers_at acc) - acc_started acc;
              new_val = next_latency (of_nat (as_micros ttfb)) (acc_ewma_alpha acc) (ewma_latency_us (backend_at w i))
          in (Some (s\<lparr>settling_stage := Store_latency new_val\<rparr>), w)
      | Store_latency new_val \<Rightarrow>
          (Some (s\<lparr>settling_stage := Judge_request\<rparr>), on_backend i (\<lambda>b. b\<lparr>ewma_latency_us := new_val\<rparr>) w)
      | Judge_request \<Rightarrow>
          (Some (s\<lparr>settling_stage := Close_request\<rparr>),
           on_backend i (\<lambda>b. b\<lparr>breaker := judge_breaker now acc (breaker b)\<rparr>) w)
      | Close_request \<Rightarrow> (None, close_request s w))"

fun stage_rank :: "drop_stage \<Rightarrow> nat" where
  "stage_rank End_request = 5"
| "stage_rank Load_latency = 4"
| "stage_rank (Store_latency v) = 3"
| "stage_rank Judge_request = 2"
| "stage_rank Close_request = 1"

text \<open>The whole drop, with the readings \<open>ts 1\<close> at the estimate and \<open>ts 2\<close> at the breaker.\<close>

definition stage_reading :: "(nat \<Rightarrow> instant) \<Rightarrow> drop_stage \<Rightarrow> instant" where
  "stage_reading ts st = (case st of Load_latency \<Rightarrow> ts 1 | _ \<Rightarrow> ts 2)"

lemma settle_step_rank:
  "(Some s', w') = settle_step now s w \<Longrightarrow> stage_rank (settling_stage s') < stage_rank (settling_stage s)"
  by (auto simp: settle_step_def after_end_def Let_def split: drop_stage.splits outcome.splits if_splits)

function settle :: "(nat \<Rightarrow> instant) \<Rightarrow> settling \<Rightarrow> router_state \<Rightarrow> router_state" where
  "settle ts s w =
     (case settle_step (stage_reading ts (settling_stage s)) s w of
        (Some s', w') \<Rightarrow> settle ts s' w'
      | (None, w') \<Rightarrow> w')"
  by pat_completeness auto
termination
  by (relation "measure (\<lambda>(_, s, _). stage_rank (settling_stage s))") (auto dest: settle_step_rank)

declare settle.simps [simp del]

definition finish :: "(nat \<Rightarrow> instant) \<Rightarrow> outcome \<Rightarrow> request_accounting \<Rightarrow> router_state \<Rightarrow> router_state" where
  "finish ts out acc w = drop_accounting ts (acc\<lparr>acc_outcome := out\<rparr>) w"

section \<open>Server-sent events\<close>

definition SSE_DONE :: string where
  "SSE_DONE = ''data: [DONE]''"

text \<open>\<open>windows(n)\<close>: every sub-slice of length \<open>n\<close>, none if the slice is shorter.\<close>

definition windows :: "nat \<Rightarrow> 'a list \<Rightarrow> 'a list list" where
  "windows n xs = map (\<lambda>i. take n (drop i xs)) [0..<length xs + 1 - n]"

definition contains_done :: "string \<Rightarrow> bool" where
  "contains_done chunk = list_ex (\<lambda>w. w = SSE_DONE) (windows (length SSE_DONE) chunk)"

section \<open>The accounted stream\<close>

text \<open>What the inner stream and the wrapper answer to a poll; \<open>'e\<close> is the transport error.\<close>

datatype 'e poll =
  Pending
| Ready_chunk string
| Ready_err 'e
| Ready_none

record accounted_stream =
  stream_status :: status
  accounting :: "request_accounting option"
  done_seen :: bool

definition new_accounted_stream :: "status \<Rightarrow> request_accounting \<Rightarrow> accounted_stream" where
  "new_accounted_stream st acc = \<lparr>stream_status = st, accounting = Some acc, done_seen = False\<rparr>"

definition drop_stream :: "(nat \<Rightarrow> instant) \<Rightarrow> accounted_stream \<Rightarrow> router_state \<Rightarrow> router_state" where
  "drop_stream ts s w =
     (case accounting s of
        Some acc \<Rightarrow>
          if done_seen s then finish ts (Completed (stream_status s)) acc w else drop_accounting ts acc w
      | None \<Rightarrow> w)"

text \<open>The inner stream is polled only while the accounting is still there.\<close>

definition poll_next ::
  "(nat \<Rightarrow> instant) \<Rightarrow> 'e poll \<Rightarrow> accounted_stream \<Rightarrow> router_state \<Rightarrow>
   'e poll \<times> accounted_stream \<times> router_state" where
  "poll_next ts inner_poll s w =
     (case accounting s of
        None \<Rightarrow> (Ready_none, s, w)
      | Some acc \<Rightarrow>
          (case inner_poll of
             Ready_chunk chunk \<Rightarrow> (Ready_chunk chunk, s\<lparr>done_seen := contains_done chunk\<rparr>, w)
           | Ready_err e \<Rightarrow> (Ready_err e, s\<lparr>accounting := None\<rparr>, finish ts StreamError acc w)
           | Ready_none \<Rightarrow>
               (Ready_none, s\<lparr>accounting := None\<rparr>, finish ts (Completed (stream_status s)) acc w)
           | Pending \<Rightarrow> (Pending, s, w)))"

section \<open>Lemmas on the guard\<close>

lemma contains_done_iff: "contains_done chunk \<longleftrightarrow> sublist SSE_DONE chunk"
proof
  assume "contains_done chunk"
  then obtain i where "SSE_DONE = take (length SSE_DONE) (drop i chunk)"
    by (auto simp: contains_done_def windows_def list_ex_iff)
  then show "sublist SSE_DONE chunk" by (metis sublist_drop sublist_order.order_trans sublist_take)
next
  assume "sublist SSE_DONE chunk"
  then obtain us vs where c: "chunk = us @ SSE_DONE @ vs" by (auto simp: sublist_def)
  then have "take (length SSE_DONE) (drop (length us) chunk) = SSE_DONE"
    "length us < length chunk + 1 - length SSE_DONE" by simp_all
  then show "contains_done chunk"
    by (force simp: contains_done_def windows_def list_ex_iff)
qed

lemma update_ewma_frame [frame_simps]:
  "breaker (update_ewma_latency l a b) = breaker b"
  "backend_id (update_ewma_latency l a b) = backend_id b"
  "url (update_ewma_latency l a b) = url b"
  "active_connections (update_ewma_latency l a b) = active_connections b"
  "healthy (update_ewma_latency l a b) = healthy b"
  "queue_depth (update_ewma_latency l a b) = queue_depth b"
  by (simp_all add: update_ewma_latency_def Let_def)

lemma apply_verdict_frame [frame_simps]:
  "backend_id (apply_verdict ts acc b) = backend_id b"
  "url (apply_verdict ts acc b) = url b"
  "active_connections (apply_verdict ts acc b) = active_connections b"
  "healthy (apply_verdict ts acc b) = healthy b"
  "queue_depth (apply_verdict ts acc b) = queue_depth b"
  by (simp_all add: apply_verdict_def Let_def frame_simps split: outcome.split)

lemma apply_verdict_breaker:
  "breaker (apply_verdict ts acc b) =
     (if is_backend_failure (acc_outcome acc) then record_failure (ts 2) (acc_admission acc) (breaker b)
      else if acc_outcome acc = ClientDisconnect then abandon (acc_admission acc) (breaker b)
      else record_success (ts 2) (acc_admission acc) (breaker b))"
  by (cases "acc_outcome acc") (simp_all add: apply_verdict_def Let_def frame_simps)

lemma apply_verdict_ewma:
  "ewma_latency_us (apply_verdict ts acc b) =
     (case acc_outcome acc of
        Completed st \<Rightarrow>
          if is_success st
          then ewma_latency_us (update_ewma_latency
                 (of_nat (as_micros (the_default (ts 1) (headers_at acc) - acc_started acc))) (acc_ewma_alpha acc) b)
          else ewma_latency_us b
      | _ \<Rightarrow> ewma_latency_us b)"
  by (cases "acc_outcome acc") (simp_all add: apply_verdict_def Let_def)

lemma drop_accounting_backends:
  assumes "acc_backend acc < num_backends w"
  shows "backend_at (drop_accounting ts acc w) (acc_backend acc) =
      apply_verdict ts acc (record_request_end (backend_at w (acc_backend acc)))"
    and "j \<noteq> acc_backend acc \<Longrightarrow> backend_at (drop_accounting ts acc w) j = backend_at w j"
    and "num_backends (drop_accounting ts acc w) = num_backends w"
  using assms by (simp_all add: drop_accounting_def Let_def frame_simps)

lemma drop_accounting_controller [frame_simps]:
  "controller (drop_accounting ts acc w) = drop_permit (controller w)"
  by (simp add: drop_accounting_def Let_def frame_simps)

lemma drop_accounting_log:
  assumes "acc_backend acc < num_backends w"
  shows "metric_log (drop_accounting ts acc w) = metric_log w @
    [Request_duration_observe (url (backend_at w (acc_backend acc))) (as_secs_f64 (ts 0 - acc_started acc)),
     Requests_total_inc \<lparr>label_strategy = acc_strategy_name acc,
       label_backend = url (backend_at w (acc_backend acc)),
       label_status = status_label (acc_outcome acc)\<rparr>]"
  using assms
  by (simp add: drop_accounting_def Let_def frame_simps record_request_end_def
      saturating_duration_since_def)

text \<open>Without interference, the steps of a drop make up the drop.\<close>

lemma judge_breaker_verdict: "breaker (apply_verdict ts acc b) = judge_breaker (ts 2) acc (breaker b)"
  by (auto simp: apply_verdict_breaker judge_breaker_def)

lemma settle_from_judge:
  assumes "settling_stage s = Judge_request"
  shows "settle ts s w =
    close_request (s\<lparr>settling_stage := Close_request\<rparr>)
      (on_backend (acc_backend (settling_acc s)) (\<lambda>b. b\<lparr>breaker := judge_breaker (ts 2) (settling_acc s) (breaker b)\<rparr>) w)"
  using assms settle.simps [of ts s] settle.simps [of ts "s\<lparr>settling_stage := Close_request\<rparr>"]
  by (simp add: settle_step_def stage_reading_def Let_def)

lemma settle_from_load:
  assumes "settling_stage s = Load_latency"
  shows "settle ts s w =
    settle ts (s\<lparr>settling_stage := Judge_request\<rparr>)
      (on_backend (acc_backend (settling_acc s))
        (update_ewma_latency
          (of_nat (as_micros (the_default (ts 1) (headers_at (settling_acc s)) - acc_started (settling_acc s))))
          (acc_ewma_alpha (settling_acc s))) w)"
  using assms
  by (simp add: settle.simps [of ts s] settle.simps [of ts "s\<lparr>settling_stage := Store_latency _\<rparr>"]
      settle_step_def stage_reading_def update_ewma_latency_def on_backend_def Let_def)

lemma apply_verdict_steps:
  "apply_verdict ts acc b =
     (let b' = (if after_end (acc_outcome acc) = Load_latency
                then update_ewma_latency (of_nat (as_micros (the_default (ts 1) (headers_at acc) - acc_started acc)))
                       (acc_ewma_alpha acc) b
                else b)
      in b'\<lparr>breaker := judge_breaker (ts 2) acc (breaker b')\<rparr>)"
  by (auto simp: apply_verdict_def after_end_def judge_breaker_def Let_def split: outcome.splits)

lemma settle_drop: "settle ts (begin_drop (ts 0) acc) w = drop_accounting ts acc w"
proof -
  let ?i = "acc_backend acc" and ?e = "saturating_duration_since (ts 0) (acc_started acc)"
  let ?s = "\<lambda>st. \<lparr>settling_acc = acc, settling_elapsed = ?e, settling_stage = st\<rparr>"
  have "settle ts (begin_drop (ts 0) acc) w =
      settle ts (?s (after_end (acc_outcome acc))) (on_backend ?i record_request_end w)"
    by (subst settle.simps) (simp add: begin_drop_def settle_step_def)
  also have "\<dots> = close_request (?s Close_request) (on_backend ?i (apply_verdict ts acc) (on_backend ?i record_request_end w))"
  proof (cases "after_end (acc_outcome acc) = Load_latency")
    case True
    then show ?thesis
      by (simp add: settle_from_load settle_from_judge on_backend_comp apply_verdict_steps Let_def)
  next
    case False
    then have "after_end (acc_outcome acc) = Judge_request" by (auto simp: after_end_def split: outcome.splits if_splits)
    then show ?thesis by (simp add: settle_from_judge on_backend_comp apply_verdict_steps Let_def)
  qed
  finally show ?thesis by (simp add: close_request_def drop_accounting_def Let_def)
qed

lemma finish_disconnect:
  "acc_outcome acc = ClientDisconnect \<Longrightarrow> finish ts ClientDisconnect acc w = drop_accounting ts acc w"
  by (cases acc) (simp add: finish_def)

lemma verdict_breaker_ok: "breaker_ok (breaker b) \<Longrightarrow> breaker_ok (breaker (apply_verdict ts acc b))"
  by (simp add: apply_verdict_breaker breaker_ok_ops)

lemma state_ok_drop_accounting: "state_ok w \<Longrightarrow> state_ok (drop_accounting ts acc w)"
  unfolding drop_accounting_def Let_def state_ok_def frame_simps
  by (auto intro!: pool_ok_on_backend controller_ok_drop verdict_breaker_ok
      simp: frame_simps record_request_end_def)

section \<open>The life of a stream\<close>

text \<open>
  Between two polls other tasks change the shared state. A step is the transformer \<open>env\<close> of
  the other tasks, what the inner stream would answer, and the readings of this poll.
\<close>

type_synonym 'e stream_step = "(router_state \<Rightarrow> router_state) \<times> 'e poll \<times> (nat \<Rightarrow> instant)"

fun stream_run ::
  "'e stream_step list \<Rightarrow> accounted_stream \<Rightarrow> router_state \<Rightarrow> 'e poll list \<times> accounted_stream \<times> router_state"
where
  "stream_run [] s w = ([], s, w)"
| "stream_run ((env, ev, ts) # steps) s w =
     (case poll_next ts ev s (env w) of
        (out, s', w') \<Rightarrow> (case stream_run steps s' w' of (outs, s'', w'') \<Rightarrow> (out # outs, s'', w'')))"

text \<open>Polls, and then the drop of the stream, at any time.\<close>

definition stream_life ::
  "'e stream_step list \<Rightarrow> (router_state \<Rightarrow> router_state) \<Rightarrow> (nat \<Rightarrow> instant) \<Rightarrow>
   accounted_stream \<Rightarrow> router_state \<Rightarrow> 'e poll list \<times> router_state" where
  "stream_life steps env ts s w =
     (case stream_run steps s w of (outs, s', w') \<Rightarrow> (outs, drop_stream ts s' (env w')))"

fun terminal :: "'e poll \<Rightarrow> bool" where
  "terminal Pending = False"
| "terminal (Ready_chunk _) = False"
| "terminal (Ready_err _) = True"
| "terminal Ready_none = True"

fun terminal_outcome :: "status \<Rightarrow> 'e poll \<Rightarrow> outcome" where
  "terminal_outcome st (Ready_err _) = StreamError"
| "terminal_outcome st _ = Completed st"

text \<open>The verdict on a stream dropped before its end: was \<open>[DONE]\<close> in the last chunk?\<close>

fun last_chunk :: "'e poll list \<Rightarrow> string option" where
  "last_chunk [] = None"
| "last_chunk (p # ps) =
     (case last_chunk ps of
        Some c \<Rightarrow> Some c
      | None \<Rightarrow> (case p of Ready_chunk c \<Rightarrow> Some c | _ \<Rightarrow> None))"

definition early_outcome :: "status \<Rightarrow> 'e poll list \<Rightarrow> outcome" where
  "early_outcome st ps =
     (case last_chunk ps of
        Some c \<Rightarrow> if sublist SSE_DONE c then Completed st else ClientDisconnect
      | None \<Rightarrow> ClientDisconnect)"

abbreviation step_env :: "'e stream_step \<Rightarrow> router_state \<Rightarrow> router_state" where
  "step_env \<equiv> fst"

abbreviation step_poll :: "'e stream_step \<Rightarrow> 'e poll" where
  "step_poll x \<equiv> fst (snd x)"

lemma stream_run_append:
  "stream_run (xs @ ys) s w =
     (case stream_run xs s w of (o1, s1, w1) \<Rightarrow>
        (case stream_run ys s1 w1 of (o2, s2, w2) \<Rightarrow> (o1 @ o2, s2, w2)))"
  by (induction xs arbitrary: s w) (auto split: prod.split)

lemma stream_run_fused:
  "accounting s = None \<Longrightarrow>
     stream_run steps s w = (replicate (length steps) Ready_none, s, fold step_env steps w)"
  by (induction steps s w rule: stream_run.induct) (auto simp: poll_next_def)

lemma stream_run_open:
  assumes "accounting s = Some acc" "\<forall>x \<in> set steps. \<not> terminal (step_poll x)"
  shows "stream_run steps s w =
    (map step_poll steps,
     s\<lparr>done_seen := (case last_chunk (map step_poll steps) of Some c \<Rightarrow> contains_done c | None \<Rightarrow> done_seen s)\<rparr>,
     fold step_env steps w)"
  using assms
proof (induction steps s w rule: stream_run.induct)
  case (2 env ev ts steps s w)
  then show ?case by (cases ev) (auto simp: poll_next_def split: option.split)
qed simp

lemma poll_terminal:
  assumes "accounting s = Some acc" "terminal ev"
  shows "poll_next ts ev s w =
    (ev, s\<lparr>accounting := None\<rparr>, finish ts (terminal_outcome (stream_status s) ev) acc w)"
  using assms by (cases ev) (auto simp: poll_next_def)

lemma stream_life_terminal:
  assumes "\<forall>x \<in> set pre. \<not> terminal (step_poll x)" "terminal ev"
  shows "stream_life (pre @ (env, ev, ts) # post) env' ts' (new_accounted_stream st acc) w =
    (map step_poll pre @ ev # replicate (length post) Ready_none,
     env' (fold step_env post (finish ts (terminal_outcome st ev) acc (env (fold step_env pre w)))))"
  using assms stream_run_open [where s = "new_accounted_stream st acc", OF _ assms(1)]
  by (simp add: stream_life_def stream_run_append new_accounted_stream_def poll_terminal
      stream_run_fused drop_stream_def)

lemma stream_life_open:
  assumes "\<forall>x \<in> set steps. \<not> terminal (step_poll x)" "acc_outcome acc = ClientDisconnect"
  shows "stream_life steps env ts (new_accounted_stream st acc) w =
    (map step_poll steps,
     finish ts (early_outcome st (map step_poll steps)) acc (env (fold step_env steps w)))"
  using assms stream_run_open [where s = "new_accounted_stream st acc", OF _ assms(1)]
  by (simp add: stream_life_def new_accounted_stream_def drop_stream_def early_outcome_def
      contains_done_iff finish_disconnect split: option.split)

section \<open>Properties\<close>

text \<open>
  C11. A stream is accounted exactly once. Interleave the polls of an accounted stream with
  arbitrary steps of other tasks, and drop it at any time. If the inner stream ended or
  failed, the one verdict is that of its first terminal event, given at that poll; later
  polls yield end of stream without polling the backend, and the drop adds nothing. If it
  was dropped before, the one verdict is given by the drop: completed if the last chunk
  carried \<open>data: [DONE]\<close>, a client disconnect otherwise. Every chunk is forwarded unchanged.
\<close>

theorem stream_accounted_once:
  assumes "acc_outcome acc = ClientDisconnect" "\<forall>x \<in> set pre. \<not> terminal (step_poll x)"
  shows "stream_life pre env' ts' (new_accounted_stream st acc) w =
      (map step_poll pre,
       finish ts' (early_outcome st (map step_poll pre)) acc (env' (fold step_env pre w))) \<and>
    (terminal ev \<longrightarrow>
      stream_life (pre @ (env, ev, ts) # post) env' ts' (new_accounted_stream st acc) w =
      (map step_poll pre @ ev # replicate (length post) Ready_none,
       env' (fold step_env post (finish ts (terminal_outcome st ev) acc (env (fold step_env pre w))))))"
  using stream_life_open [OF assms(2,1)] stream_life_terminal [OF assms(2)] by blast

text \<open>A guard on one backend with nothing else going on.\<close>

definition lone_state :: router_state where
  "lone_state = \<lparr>pool = new_pool [record_request_start warm_backend] 8,
     controller = \<lparr>in_flight_count = 1, max_in_flight = 4\<rparr>, metric_log = []\<rparr>"

definition lone_guard :: request_accounting where
  "lone_guard = \<lparr>acc_backend = 0, acc_strategy_name = ''rr'', acc_ewma_alpha = Fin (1 / 4), acc_started = 0,
     headers_at = Some 5000, acc_outcome = ClientDisconnect, acc_admission = Normal\<rparr>"

theorem stream_accounted_once_witness:
  "fst (stream_life [(id, Ready_chunk ''hello'', \<lambda>_. 7), (id, Ready_err (), \<lambda>_. 8), (id, Pending, \<lambda>_. 9)]
     id (\<lambda>_. 10) (new_accounted_stream 200 lone_guard) lone_state) =
   [Ready_chunk ''hello'', Ready_err (), Ready_none]"
  using stream_accounted_once [of lone_guard "[(id, Ready_chunk ''hello'', \<lambda>_. 7)]" id "\<lambda>_. 10" 200 lone_state
      "Ready_err ()" id "\<lambda>_. 8" "[(id, Pending, \<lambda>_. 9)]"]
  by (simp add: lone_guard_def)

text \<open>
  C12. What a verdict does. Dropping a guard takes one connection off its backend and one slot
  off the in-flight count, reports one duration and one labelled request, and leaves all other
  backends alone. A server error or a broken transport is a failure for the breaker, a client
  that went away is neither, everything else a success; only a 2xx updates the latency estimate.
\<close>

theorem verdict_effects:
  assumes "acc_backend acc < num_backends w"
  shows "let w' = finish ts out acc w; i = acc_backend acc; b = backend_at w i; b' = backend_at w' i in
    active_connections b' = active_connections b - 1 \<and>
    unat (in_flight (controller w')) = unat (in_flight (controller w)) - 1 \<and>
    drop (length (metric_log w)) (metric_log w') =
      [Request_duration_observe (url b) (as_secs_f64 (ts 0 - acc_started acc)),
       Requests_total_inc \<lparr>label_strategy = acc_strategy_name acc, label_backend = url b,
         label_status = status_label out\<rparr>] \<and>
    breaker b' =
      (if out \<in> {TransportError, StreamError} \<or> (\<exists>st. out = Completed st \<and> 500 \<le> st \<and> st < 600)
       then record_failure (ts 2) (acc_admission acc) (breaker b)
       else if out = ClientDisconnect then abandon (acc_admission acc) (breaker b)
       else record_success (ts 2) (acc_admission acc) (breaker b)) \<and>
    ((\<exists>st. out = Completed st \<and> 200 \<le> st \<and> st < 300) \<or> ewma_latency_us b' = ewma_latency_us b) \<and>
    (\<forall>j. j \<noteq> i \<longrightarrow> backend_at w' j = backend_at w j)"
proof -
  let ?acc = "acc\<lparr>acc_outcome := out\<rparr>"
  have i: "acc_backend ?acc < num_backends w" using assms by simp
  note eff = drop_accounting_backends [OF i] drop_accounting_log [OF i]
  have brk: "breaker (apply_verdict ts ?acc (record_request_end b)) =
      (if out \<in> {TransportError, StreamError} \<or> (\<exists>st. out = Completed st \<and> 500 \<le> st \<and> st < 600)
       then record_failure (ts 2) (acc_admission acc) (breaker b)
       else if out = ClientDisconnect then abandon (acc_admission acc) (breaker b)
       else record_success (ts 2) (acc_admission acc) (breaker b))" for b
    by (cases out) (simp_all add: apply_verdict_breaker is_server_error_def record_request_end_def)
  have ewma: "(\<exists>st. out = Completed st \<and> 200 \<le> st \<and> st < 300) \<or>
      ewma_latency_us (apply_verdict ts ?acc (record_request_end b)) = ewma_latency_us b" for b
    by (cases out) (auto simp: apply_verdict_ewma is_success_def record_request_end_def)
  show ?thesis
    using eff brk [of "backend_at w (acc_backend acc)"] ewma [of "backend_at w (acc_backend acc)"]
    by (simp add: finish_def Let_def frame_simps in_flight_drop) (simp add: record_request_end_def)
qed

theorem verdict_effects_witness:
  "active_connections (backend_at (finish (\<lambda>_. 9000) StreamError lone_guard lone_state) 0) = 0"
  using verdict_effects [of lone_guard lone_state "\<lambda>_. 9000" StreamError]
  by (simp add: lone_guard_def lone_state_def new_pool_def record_request_start_def warm_backend_def
      new_backend_def Let_def)

text \<open>
  C13. A probe is judged on the response headers. When a guard that holds the half-open probe
  sees a 2xx, the circuit closes at once, the probe slot is free, and the guard goes on as an
  ordinary request, so its final verdict cannot resolve the probe a second time. Any other
  status leaves the probe to the final verdict.
\<close>

theorem probe_resolved_on_headers:
  assumes "acc_backend acc < num_backends w" "acc_admission acc = Probe"
    and "breaker_ok (breaker (backend_at w (acc_backend acc)))"
    and "probe_out (breaker (backend_at w (acc_backend acc)))"
  shows "case resolve_probe_on_headers now st acc w of (acc', w') \<Rightarrow>
    if is_success st
    then acc_admission acc' = Normal \<and>
      state (inner (breaker (backend_at w' (acc_backend acc)))) = Closed \<and>
      \<not> probe_out (breaker (backend_at w' (acc_backend acc)))
    else acc' = acc \<and> w' = w"
proof -
  let ?b = "breaker (backend_at w (acc_backend acc))"
  have "state (refreshed now ?b) = HalfOpen" using probe_out_half_open [OF assms(3,4)] by blast
  then have "state (inner (record_success now Probe ?b)) = Closed \<and> \<not> probe_out (record_success now Probe ?b)"
    using gate.probe_clears(1) [OF assms(3,4)] by (simp add: record_success_state)
  with assms(1,2) show ?thesis by (simp add: resolve_probe_on_headers_def frame_simps)
qed

definition probing_state :: router_state where
  "probing_state = lone_state\<lparr>pool := new_pool
     [warm_backend\<lparr>breaker := snd (try_begin 1 tripped_breaker), active_connections := 1\<rparr>] 8\<rparr>"

theorem probe_resolved_on_headers_witness:
  "state (inner (breaker (backend_at
     (snd (resolve_probe_on_headers 2 200 (lone_guard\<lparr>acc_admission := Probe\<rparr>) probing_state)) 0))) = Closed"
proof -
  have "breaker_ok (snd (try_begin 1 tripped_breaker))"
    using reachable_balanced [OF probe_example] by (simp add: balanced_def)
  moreover have "probe_out (snd (try_begin 1 tripped_breaker))"
    by (simp add: try_begin_result refreshed_state tripped_breaker_fields)
  ultimately show ?thesis
    using probe_resolved_on_headers [where acc = "lone_guard\<lparr>acc_admission := Probe\<rparr>"
        and w = probing_state and now = 2 and st = 200]
    by (simp add: probing_state_def lone_guard_def new_pool_def is_success_def split_def)
qed

end
