(* ===== verification/Server.thy ===== *)
theory Server
  imports Proxy Accounting
begin

text \<open>
  The HTTP handlers (router-core/src/server.rs). \<open>proxy_handler\<close> suspends twice, while it
  reads the client's body and while it waits for the backend, and its response body may be
  streamed after it returned. Between two suspensions it is one definition: \<open>handler_admit\<close>,
  \<open>handler_route\<close>, \<open>handler_reply\<close>; the task that carries it is a value of \<open>request_task\<close>. A
  client that goes away drops a suspended task, which drops what it holds (\<open>drop_task\<close>).

  Other threads run between any two atomic operations of \<open>select_backend\<close>, also while it
  computes the routable set; their effect is the argument \<open>others\<close>, applied at each point of
  \<open>sync_point\<close>. What a strategy reads of its candidates while their counters move is another
  argument. The drop of a guard and the answer to the client, whose coarse form is
  \<open>handler_reply\<close>, are also given in atomic steps (\<open>begin_reply\<close>, \<open>begin_poll\<close>, \<open>cancel_task\<close>).
\<close>

section \<open>State\<close>

record app_state =
  shared :: router_state
  strategy_obj :: strategy
  strategy_name :: string
  ewma_alpha :: f64

abbreviation app_backend :: "app_state \<Rightarrow> nat \<Rightarrow> backend" where
  "app_backend a i \<equiv> backend_at (shared a) i"

text \<open>
  The readings and services of one request. In turn \<open>k\<close> the strategy reads \<open>seen k b\<close> where the
  pool holds \<open>b\<close>: its loads of the counters of the candidates are not one snapshot.
\<close>

record 'v request_env =
  choice :: "nat \<Rightarrow> 'v choice_env"
  seen :: "nat \<Rightarrow> backend \<Rightarrow> backend"
  routable_at :: "nat \<Rightarrow> instant"
  begin_at :: "nat \<Rightarrow> instant"

text \<open>A view of a backend gets its counters wrong at most, never which backend it is.\<close>

definition identity_kept :: "(backend \<Rightarrow> backend) \<Rightarrow> bool" where
  "identity_kept see \<longleftrightarrow>
     (\<forall>b. backend_id (see b) = backend_id b \<and> url (see b) = url b \<and> weight (see b) = weight b)"

text \<open>Where other threads may run during the selection: before each of its operations.\<close>

datatype sync_point =
  Before_healthy nat
| Before_breaker nat
| Before_queue_depth nat
| Before_strategy nat
| Before_begin nat
| Before_start

section \<open>The routable set, computed while others run\<close>

text \<open>\<open>is_routable\<close> loads the health flag, and then asks the breaker under its lock.\<close>

definition check_breaker :: "instant \<Rightarrow> nat \<Rightarrow> app_state \<Rightarrow> bool \<times> app_state" where
  "check_breaker now i a =
     (case breaker_is_routable now (breaker (app_backend a i)) of
        (r, cb) \<Rightarrow> (r, a\<lparr>shared := on_backend i (\<lambda>b. b\<lparr>breaker := cb\<rparr>) (shared a)\<rparr>))"

primrec scan_available ::
  "(sync_point \<Rightarrow> app_state \<Rightarrow> app_state) \<Rightarrow> (nat \<Rightarrow> instant) \<Rightarrow> nat list \<Rightarrow> app_state \<Rightarrow> nat list \<times> app_state"
where
  "scan_available others ts [] a = ([], a)"
| "scan_available others ts (i # js) a =
     (let a1 = others (Before_healthy i) a in
      if is_healthy (app_backend a1 i)
      then
        (case check_breaker (ts i) i (others (Before_breaker i) a1) of
           (r, a2) \<Rightarrow>
             (case scan_available others ts js a2 of (av, a3) \<Rightarrow> (if r then i # av else av, a3)))
      else scan_available others ts js a1)"

primrec scan_under_limit ::
  "(sync_point \<Rightarrow> app_state \<Rightarrow> app_state) \<Rightarrow> nat list \<Rightarrow> app_state \<Rightarrow> nat list \<times> app_state"
where
  "scan_under_limit others [] a = ([], a)"
| "scan_under_limit others (i # js) a =
     (let a1 = others (Before_queue_depth i) a in
      case scan_under_limit others js a1 of
        (ul, a2) \<Rightarrow>
          (if queue_depth (app_backend a1 i) \<le> max_queue_depth (pool (shared a1)) then i # ul else ul, a2))"

definition scan_routable ::
  "(sync_point \<Rightarrow> app_state \<Rightarrow> app_state) \<Rightarrow> (nat \<Rightarrow> instant) \<Rightarrow> app_state \<Rightarrow> nat list \<times> app_state" where
  "scan_routable others ts a =
     (case scan_available others ts [0..<num_backends (shared a)] a of
        (available, a1) \<Rightarrow>
          (case scan_under_limit others available a1 of
             (under_limit, a2) \<Rightarrow> (if under_limit = [] then available else under_limit, a2)))"

section \<open>Selection\<close>

text \<open>The strategy's choice among the candidates, as a position; \<open>None\<close> also for a foreign id.\<close>

definition pick_candidate ::
  "'v choice_env \<Rightarrow> (backend \<Rightarrow> backend) \<Rightarrow> 'v incoming_request \<Rightarrow> nat list \<Rightarrow> app_state \<Rightarrow>
   nat option \<times> app_state" where
  "pick_candidate ce see req cands a =
     (case strategy_select ce req (map (\<lambda>j. see (app_backend a j)) cands) (strategy_obj a) of
        (None, s) \<Rightarrow> (None, a\<lparr>strategy_obj := s\<rparr>)
      | (Some i, s) \<Rightarrow> (find (\<lambda>j. backend_id (app_backend a j) = i) cands, a\<lparr>strategy_obj := s\<rparr>))"

definition begin_on :: "instant \<Rightarrow> nat \<Rightarrow> app_state \<Rightarrow> admission option \<times> app_state" where
  "begin_on now j a =
     (case try_begin now (breaker (app_backend a j)) of
        (adm, cb) \<Rightarrow> (adm, a\<lparr>shared := on_backend j (\<lambda>b. b\<lparr>breaker := cb\<rparr>) (shared a)\<rparr>))"

text \<open>\<open>candidates.retain(|b| b.id != id)\<close>\<close>

definition retain_others :: "nat \<Rightarrow> nat list \<Rightarrow> app_state \<Rightarrow> nat list" where
  "retain_others j cands a =
     filter (\<lambda>i. backend_id (app_backend a i) \<noteq> backend_id (app_backend a j)) cands"

lemma pick_candidate_mem: "fst (pick_candidate ce see req cands a) = Some j \<Longrightarrow> j \<in> set cands"
  by (auto simp: pick_candidate_def split: prod.splits option.splits dest: find_Some_iff_set)

lemma pick_candidate_some: "(Some j, a') = pick_candidate ce see req cands a \<Longrightarrow> j \<in> set cands"
  by (metis pick_candidate_mem fst_conv)

lemma retain_others_shorter: "j \<in> set cands \<Longrightarrow> length (retain_others j cands a) < length cands"
  unfolding retain_others_def by (rule length_filter_less) simp_all

text \<open>The loop ends because \<open>retain\<close> drops at least the candidate whose breaker refused.\<close>

function select_loop ::
  "(sync_point \<Rightarrow> app_state \<Rightarrow> app_state) \<Rightarrow> 'v request_env \<Rightarrow> 'v incoming_request \<Rightarrow> nat \<Rightarrow> nat list \<Rightarrow>
   app_state \<Rightarrow> (nat \<times> admission) option \<times> app_state" where
  "select_loop others env req k cands a0 =
     (if cands = [] then (None, a0)
      else
        case pick_candidate (choice env k) (seen env k) req cands (others (Before_strategy k) a0) of
          (None, a) \<Rightarrow> (None, a)
        | (Some j, a) \<Rightarrow>
            (case begin_on (begin_at env k) j (others (Before_begin k) a) of
               (Some adm, a') \<Rightarrow> (Some (j, adm), a')
             | (None, a') \<Rightarrow> select_loop others env req (Suc k) (retain_others j cands a') a'))"
  by pat_completeness auto
termination
  by (relation "measure (\<lambda>(_, _, _, _, cands, _). length cands)")
    (auto dest: pick_candidate_some intro: retain_others_shorter)

declare select_loop.simps [simp del]

definition select_backend ::
  "(sync_point \<Rightarrow> app_state \<Rightarrow> app_state) \<Rightarrow> 'v request_env \<Rightarrow> 'v incoming_request \<Rightarrow> app_state \<Rightarrow>
   (nat \<times> admission) option \<times> app_state" where
  "select_backend others env req a =
     (case scan_routable others (routable_at env) a of
        (candidates, a1) \<Rightarrow> select_loop others env req 0 candidates a1)"

section \<open>Responses\<close>

definition inc_rejected :: "string \<Rightarrow> app_state \<Rightarrow> app_state" where
  "inc_rejected reason a = a\<lparr>shared := report (Rejected_requests_inc reason) (shared a)\<rparr>"

datatype body_error = Length_limit_error | Other_body_error

definition body_error_status :: "body_error \<Rightarrow> status \<times> string" where
  "body_error_status e =
     (case e of
        Length_limit_error \<Rightarrow> (413, ''body_too_large'')
      | Other_body_error \<Rightarrow> (400, ''bad_body''))"

text \<open>The body of a response is either complete or an accounted stream still to be polled.\<close>

datatype response_body = Body_bytes string | Body_stream accounted_stream

record response =
  resp_status :: status
  resp_headers :: headers
  resp_body :: response_body

text \<open>
  \<open>builder.body(..).expect(..)\<close> panics if the URL is not a header value: \<open>None\<close>. By then a full
  body has been accounted; a stream is dropped with the unfinished response.
\<close>

definition into_response ::
  "(string \<Rightarrow> bool) \<Rightarrow> instant \<Rightarrow> (nat \<Rightarrow> instant) \<Rightarrow> forwarded \<Rightarrow> string \<Rightarrow> request_accounting \<Rightarrow>
   router_state \<Rightarrow> response option \<times> router_state" where
  "into_response header_value_ok now ts f backend_url acc w =
     (case resolve_probe_on_headers now (fwd_status f) acc w of (acc1, w1) \<Rightarrow>
        let hs = fwd_headers f @ [(''x-router-backend'', backend_url)];
            (body, w2) =
              (case fwd_body f of
                 Full bytes \<Rightarrow> (Body_bytes bytes, finish ts (Completed (fwd_status f)) acc1 w1)
               | Stream \<Rightarrow> (Body_stream (new_accounted_stream (fwd_status f) acc1), w1))
        in if header_value_ok backend_url
           then (Some \<lparr>resp_status = fwd_status f, resp_headers = hs, resp_body = body\<rparr>, w2)
           else (None, case body of Body_bytes _ \<Rightarrow> w2 | Body_stream s \<Rightarrow> drop_stream ts s w2))"

definition finish_forward_error ::
  "(nat \<Rightarrow> instant) \<Rightarrow> forward_error \<Rightarrow> request_accounting \<Rightarrow> router_state \<Rightarrow> status \<times> router_state" where
  "finish_forward_error ts e acc w =
     (forward_error_status e,
      case e of
        Connect \<Rightarrow> finish ts TransportError acc w
      | Body t \<Rightarrow> finish ts StreamError (mark_headers_received_at t acc) w)"

section \<open>The proxy handler\<close>

record client_request =
  cr_method :: string
  cr_path :: string
  cr_path_and_query :: "string option"
  cr_headers :: headers

text \<open>
  Where a request stands, and what it needs to go on. The handler suspends at \<open>Reading_body\<close> and
  \<open>Awaiting_backend\<close>, the response body at \<open>Streaming\<close>. The others are the points of a running
  handler before its next operation on shared state: \<open>Scanning i av\<close> loads the health flag of
  backend \<open>i\<close>, having found \<open>av\<close> available; \<open>Checking i av\<close> asks its breaker; \<open>Filtering todo av ul\<close>
  loads queue depths; \<open>Selecting\<close> asks the strategy, \<open>Beginning\<close> the breaker of its choice, and
  \<open>Starting\<close> counts the connection; \<open>Settling\<close> is a drop of a guard on its way, and what comes
  afterwards.
\<close>

datatype afterwards = Reply status | Fused accounted_stream

datatype request_task =
  Reading_body
| Scanning nat "nat list" string
| Checking nat "nat list" string
| Filtering "nat list" "nat list" "nat list" string
| Selecting "nat list" string
| Beginning nat "nat list" string
| Starting nat admission string
| Awaiting_backend request_accounting string
| Streaming accounted_stream
| Settling settling afterwards
| Replied_with status

fun resume :: "afterwards \<Rightarrow> request_task" where
  "resume (Reply st) = Replied_with st"
| "resume (Fused s) = Streaming (s\<lparr>accounting := None\<rparr>)"

fun suspended :: "request_task \<Rightarrow> bool" where
  "suspended Reading_body = True"
| "suspended (Awaiting_backend acc body) = True"
| "suspended (Streaming s) = True"
| "suspended (Replied_with st) = True"
| "suspended _ = False"

definition handler_admit :: "app_state \<Rightarrow> request_task \<times> app_state" where
  "handler_admit a =
     (case try_acquire (controller (shared a)) of
        (Some Permit, c) \<Rightarrow> (Reading_body, a\<lparr>shared := (shared a)\<lparr>controller := c\<rparr>\<rparr>)
      | (None, c) \<Rightarrow>
          (Replied_with 429, inc_rejected ''backpressure'' (a\<lparr>shared := (shared a)\<lparr>controller := c\<rparr>\<rparr>)))"

text \<open>An early return drops the permit, after the rejection was counted.\<close>

definition reject :: "status \<Rightarrow> string \<Rightarrow> app_state \<Rightarrow> request_task \<times> app_state" where
  "reject st reason a =
     (let a1 = inc_rejected reason a in (Replied_with st, a1\<lparr>shared := release_permit (shared a1)\<rparr>))"

definition handler_route ::
  "(sync_point \<Rightarrow> app_state \<Rightarrow> app_state) \<Rightarrow> 'v request_env \<Rightarrow> (string \<Rightarrow> 'v option) \<Rightarrow> instant \<Rightarrow>
   client_request \<Rightarrow> body_error + string \<Rightarrow> app_state \<Rightarrow> request_task \<times> app_state" where
  "handler_route others env from_slice now cr read_body a =
     (case read_body of
        Inl e \<Rightarrow> (case body_error_status e of (st, reason) \<Rightarrow> reject st reason a)
      | Inr body_bytes \<Rightarrow>
          (case select_backend others env \<lparr>req_path = cr_path cr, req_body = from_slice body_bytes\<rparr> a of
             (None, a1) \<Rightarrow> reject 503 ''no_routable_backend'' a1
           | (Some (i, adm), a1) \<Rightarrow>
               (let a2 = others Before_start a1 in
                case start_accounting i (strategy_name a2) (ewma_alpha a2) adm now (shared a2) of
                  (acc, w) \<Rightarrow> (Awaiting_backend acc body_bytes, a2\<lparr>shared := w\<rparr>))))"

text \<open>
  The backend answered. A panic ends the task without a reply: the client sees the
  connection close, and nothing is held any more.
\<close>

definition handler_reply ::
  "(string \<Rightarrow> bool) \<Rightarrow> (nat \<Rightarrow> instant) \<Rightarrow> forward_error + forwarded \<Rightarrow> request_accounting \<Rightarrow>
   app_state \<Rightarrow> (response option \<times> request_task) \<times> app_state" where
  "handler_reply header_value_ok ts res acc a =
     (case res of
        Inl e \<Rightarrow>
          (case finish_forward_error ts e acc (shared a) of
             (st, w) \<Rightarrow> ((None, Replied_with st), a\<lparr>shared := w\<rparr>))
      | Inr f \<Rightarrow>
          (case into_response header_value_ok (ts 3) ts f (url (app_backend a (acc_backend acc)))
                  (mark_headers_received_at (fwd_headers_at f) acc) (shared a) of
             (Some r, w) \<Rightarrow>
               ((Some r, case resp_body r of
                           Body_bytes _ \<Rightarrow> Replied_with (resp_status r)
                         | Body_stream s \<Rightarrow> Streaming s), a\<lparr>shared := w\<rparr>)
           | (None, w) \<Rightarrow> ((None, Replied_with 0), a\<lparr>shared := w\<rparr>)))"

text \<open>Dropping a suspended task: the client went away. A running handler is not dropped.\<close>

fun drop_task :: "(nat \<Rightarrow> instant) \<Rightarrow> request_task \<Rightarrow> app_state \<Rightarrow> app_state" where
  "drop_task ts Reading_body a = a\<lparr>shared := release_permit (shared a)\<rparr>"
| "drop_task ts (Awaiting_backend acc body) a = a\<lparr>shared := drop_accounting ts acc (shared a)\<rparr>"
| "drop_task ts (Streaming s) a = a\<lparr>shared := drop_stream ts s (shared a)\<rparr>"
| "drop_task ts _ a = a"

section \<open>The atomic steps of an answer\<close>

text \<open>
  \<open>handler_reply\<close>, a poll and a cancellation up to the point where a guard is dropped: the drop
  itself is then a \<open>Settling\<close> task, whose steps other threads may separate. \<open>now\<close> is the reading
  of the drop.
\<close>

definition after_headers :: "bool \<Rightarrow> instant \<Rightarrow> forwarded \<Rightarrow> request_accounting \<Rightarrow> request_task" where
  "after_headers url_ok now f acc =
     (case fwd_body f of
        Full bytes \<Rightarrow>
          Settling (begin_drop now (acc\<lparr>acc_outcome := Completed (fwd_status f)\<rparr>))
            (Reply (if url_ok then fwd_status f else 0))
      | Stream \<Rightarrow>
          if url_ok then Streaming (new_accounted_stream (fwd_status f) acc)
          else Settling (begin_drop now acc) (Reply 0))"

definition begin_reply ::
  "(string \<Rightarrow> bool) \<Rightarrow> instant \<Rightarrow> instant \<Rightarrow> forward_error + forwarded \<Rightarrow> request_accounting \<Rightarrow>
   app_state \<Rightarrow> request_task \<times> app_state" where
  "begin_reply header_value_ok now now' res acc a =
     (case res of
        Inl Connect \<Rightarrow>
          (Settling (begin_drop now' (acc\<lparr>acc_outcome := TransportError\<rparr>)) (Reply (forward_error_status Connect)), a)
      | Inl (Body t) \<Rightarrow>
          (Settling (begin_drop now' ((mark_headers_received_at t acc)\<lparr>acc_outcome := StreamError\<rparr>))
             (Reply (forward_error_status (Body t))), a)
      | Inr f \<Rightarrow>
          (case resolve_probe_on_headers now (fwd_status f) (mark_headers_received_at (fwd_headers_at f) acc) (shared a) of
             (acc1, w) \<Rightarrow>
               (after_headers (header_value_ok (url (app_backend a (acc_backend acc)))) now' f acc1, a\<lparr>shared := w\<rparr>)))"

definition begin_poll :: "instant \<Rightarrow> 'e poll \<Rightarrow> accounted_stream \<Rightarrow> request_task" where
  "begin_poll now ev s =
     (case accounting s of
        None \<Rightarrow> Streaming s
      | Some acc \<Rightarrow>
          (case ev of
             Ready_chunk chunk \<Rightarrow> Streaming (s\<lparr>done_seen := contains_done chunk\<rparr>)
           | Pending \<Rightarrow> Streaming s
           | Ready_err e \<Rightarrow> Settling (begin_drop now (acc\<lparr>acc_outcome := StreamError\<rparr>)) (Fused s)
           | Ready_none \<Rightarrow>
               Settling (begin_drop now (acc\<lparr>acc_outcome := Completed (stream_status s)\<rparr>)) (Fused s)))"

text \<open>What is left of a task that is dropped, and the state; the drop of a guard is still to come.\<close>

fun cancel_task :: "instant \<Rightarrow> request_task \<Rightarrow> app_state \<Rightarrow> request_task option \<times> app_state" where
  "cancel_task now Reading_body a = (None, a\<lparr>shared := release_permit (shared a)\<rparr>)"
| "cancel_task now (Awaiting_backend acc body) a = (Some (Settling (begin_drop now acc) (Reply 0)), a)"
| "cancel_task now (Streaming s) a =
     ((case accounting s of
         None \<Rightarrow> None
       | Some acc \<Rightarrow>
           Some (Settling (begin_drop now
             (if done_seen s then acc\<lparr>acc_outcome := Completed (stream_status s)\<rparr> else acc)) (Reply 0))), a)"
| "cancel_task now (Replied_with st) a = (None, a)"
| "cancel_task now t a = (Some t, a)"

section \<open>Other handlers\<close>

definition health_handler :: status where
  "health_handler = 200"

text \<open>The five gauges of a backend, each one load (or one call of its breaker) and one call.\<close>

definition export_connections :: "nat \<Rightarrow> router_state \<Rightarrow> router_state" where
  "export_connections i w =
     report (Active_connections_set (url (backend_at w i)) (as_i64 (active_connections (backend_at w i)))) w"

definition export_health :: "nat \<Rightarrow> router_state \<Rightarrow> router_state" where
  "export_health i w =
     report (Backend_health_set (url (backend_at w i)) (if is_healthy (backend_at w i) then 1 else 0)) w"

definition export_breaker :: "instant \<Rightarrow> nat \<Rightarrow> router_state \<Rightarrow> router_state" where
  "export_breaker now i w =
     (case breaker_state now (breaker (backend_at w i)) of
        (st, cb) \<Rightarrow>
          report (Circuit_breaker_state_set (url (backend_at w i)) (as_i64 (as_u64 st)))
            (on_backend i (\<lambda>b. b\<lparr>breaker := cb\<rparr>) w))"

definition export_queue_depth :: "nat \<Rightarrow> router_state \<Rightarrow> router_state" where
  "export_queue_depth i w =
     report (Backend_queue_depth_set (url (backend_at w i)) (as_i64 (queue_depth (backend_at w i)))) w"

definition export_kv_cache :: "nat \<Rightarrow> router_state \<Rightarrow> router_state" where
  "export_kv_cache i w =
     report (Backend_kv_cache_usage_set (url (backend_at w i))
       (div_f64 (f64_of_u64 (kv_cache_usage_bp (backend_at w i))) (Fin 10000))) w"

definition exports :: "instant \<Rightarrow> nat \<Rightarrow> (router_state \<Rightarrow> router_state) list" where
  "exports now i =
     [export_connections i, export_health i, export_breaker now i, export_queue_depth i, export_kv_cache i]"

definition export_backend :: "instant \<Rightarrow> nat \<Rightarrow> router_state \<Rightarrow> router_state" where
  "export_backend now i w = fold (\<lambda>f. f) (exports now i) w"

definition metrics_handler ::
  "(metric_call list \<Rightarrow> string) \<Rightarrow> (nat \<Rightarrow> instant) \<Rightarrow> app_state \<Rightarrow> string \<times> app_state" where
  "metrics_handler encode ts a =
     (let w1 = fold (\<lambda>i. export_backend (ts i) i) [0..<num_backends (shared a)] (shared a);
          w2 = report (In_flight_set (as_i64 (in_flight (controller w1)))) w1
      in (encode (metric_log w2), a\<lparr>shared := w2\<rparr>))"

datatype http_handler = Health_handler | Proxy_handler | Metrics_handler

text \<open>\<open>get\<close> or \<open>any\<close> with the handler; \<open>Router::route\<close> panics when a path is registered twice.\<close>

datatype method_route = Get http_handler | Any http_handler

definition build_router :: "metrics_config \<Rightarrow> (string \<times> method_route) list" where
  "build_router m =
     [(''/health'', Get Health_handler), (''/v1/completions'', Any Proxy_handler),
      (''/v1/chat/completions'', Any Proxy_handler)] @
     (if metrics_enabled m then [(metrics_path m, Get Metrics_handler)] else [])"

section \<open>Selection lemmas\<close>

text \<open>The strategy was created for a pool of this size.\<close>

definition strategy_ready :: "(string \<Rightarrow> string) \<Rightarrow> nat \<Rightarrow> strategy \<Rightarrow> bool" where
  "strategy_ready sha n s \<longleftrightarrow>
     (\<forall>bs. (\<forall>b \<in> set bs. backend_id b < n) \<longrightarrow> length bs \<le> 2 ^ 32 \<longrightarrow> strategy_fits sha s bs)"

definition app_ok :: "(string \<Rightarrow> string) \<Rightarrow> app_state \<Rightarrow> bool" where
  "app_ok sha a \<longleftrightarrow> state_ok (shared a) \<and> num_backends (shared a) \<le> 2 ^ 32 \<and>
     strategy_ready sha (num_backends (shared a)) (strategy_obj a)"

lemma strategy_ready_select:
  "strategy_ready (env_sha256 ce) n s \<Longrightarrow> strategy_ready (env_sha256 ce) n (snd (strategy_select ce req bs s))"
  unfolding strategy_ready_def by (auto intro: any.sel_fits)

lemma pick_candidate_frame [frame_simps]:
  "shared (snd (pick_candidate ce see req cands a)) = shared a"
  "strategy_name (snd (pick_candidate ce see req cands a)) = strategy_name a"
  "ewma_alpha (snd (pick_candidate ce see req cands a)) = ewma_alpha a"
  "strategy_obj (snd (pick_candidate ce see req cands a)) =
     snd (strategy_select ce req (map (\<lambda>j. see (app_backend a j)) cands) (strategy_obj a))"
  by (auto simp: pick_candidate_def split: prod.split option.split)

lemma begin_on_frame [frame_simps]:
  "fst (begin_on now j a) = fst (try_begin now (breaker (app_backend a j)))"
  "shared (snd (begin_on now j a)) =
     on_backend j (\<lambda>b. b\<lparr>breaker := snd (try_begin now (breaker (app_backend a j)))\<rparr>) (shared a)"
  "strategy_obj (snd (begin_on now j a)) = strategy_obj a"
  "strategy_name (snd (begin_on now j a)) = strategy_name a"
  "ewma_alpha (snd (begin_on now j a)) = ewma_alpha a"
  by (simp_all add: begin_on_def split_def)

lemma pick_candidate_total:
  assumes "app_ok (env_sha256 ce) a" "cands \<noteq> []" "set cands \<subseteq> {..<num_backends (shared a)}" "distinct cands"
    and "identity_kept see"
  shows "\<exists>j \<in> set cands. fst (pick_candidate ce see req cands a) = Some j"
proof -
  let ?bs = "map (\<lambda>j. see (app_backend a j)) cands" and ?n = "num_backends (shared a)"
  have see: "backend_id (see b) = backend_id b" for b using assms(5) by (simp add: identity_kept_def)
  have ids: "backend_id (app_backend a j) = j" if "j < ?n" for j
    using assms(1) that by (simp add: app_ok_def state_ok_def pool_ok_def)
  have "\<forall>b \<in> set ?bs. backend_id b < ?n" using ids assms(3) by (auto simp: see)
  moreover have "length ?bs \<le> 2 ^ 32"
  proof -
    have "card (set cands) \<le> card {..<?n}" using assms(3) by (intro card_mono) auto
    then show ?thesis using assms(1,4) by (simp add: distinct_card app_ok_def)
  qed
  ultimately have fits: "strategy_fits (env_sha256 ce) (strategy_obj a) ?bs"
    using assms(1) by (simp add: app_ok_def strategy_ready_def)
  obtain b where "b \<in> set ?bs"
    "fst (strategy_select ce req ?bs (strategy_obj a)) = Some (backend_id b)"
    using any.sel_cases [OF fits, of req] assms(2) by auto
  then obtain j where j: "j \<in> set cands"
    "fst (strategy_select ce req ?bs (strategy_obj a)) = Some (backend_id (app_backend a j))" by (auto simp: see)
  then have "find (\<lambda>i. backend_id (app_backend a i) = backend_id (app_backend a j)) cands \<noteq> None"
    unfolding find_eq_None by auto
  then have "\<exists>i. fst (pick_candidate ce see req cands a) = Some i"
    using j(2) by (auto simp: pick_candidate_def split: prod.split)
  then show ?thesis using pick_candidate_mem by blast
qed

text \<open>A breaker that was seen routable admits the next caller, whenever it comes.\<close>

lemma routable_then_begin:
  assumes "fst (breaker_is_routable t cb)"
  shows "fst (try_begin t' (snd (breaker_is_routable t cb))) \<noteq> None"
proof -
  let ?cb = "snd (breaker_is_routable t cb)"
  have "state (inner ?cb) = Closed \<or> (state (inner ?cb) = HalfOpen \<and> \<not> probe_out ?cb)"
    using assms by (auto simp: breaker_is_routable_result frame_simps split: circuit_state.splits)
  then show ?thesis by (auto simp: try_begin_result refreshed_state)
qed

lemma routable_nth_begin:
  assumes "j \<in> set (fst (routable ts p))"
  shows "fst (try_begin t' (breaker (backends (snd (routable ts p)) ! j))) \<noteq> None"
proof -
  have "j < length (backends p)" "healthy (backends p ! j)"
    "fst (breaker_is_routable (ts j) (breaker (backends p ! j)))"
    using assms by (auto simp: routable_mem available_at_def)
  then show ?thesis using routable_then_begin
    by (simp add: routable_pool(2) backend_is_routable_simps)
qed

text \<open>The scan, when nobody interferes, is the routable set of the pool.\<close>

lemma scan_available_alone:
  assumes "distinct js" "set js \<subseteq> {..<num_backends (shared a)}"
  shows "scan_available (\<lambda>_ x. x) ts js a =
    (filter (available_at ts (pool (shared a))) js,
     a\<lparr>shared := fold (\<lambda>i. on_backend i (\<lambda>b. snd (backend_is_routable (ts i) b))) js (shared a)\<rparr>)"
  using assms
proof (induction js arbitrary: a)
  case (Cons i js)
  let ?f = "\<lambda>i b. snd (backend_is_routable (ts i) b)"
  have i: "i < num_backends (shared a)" using Cons.prems by simp
  have av: "available_at ts (pool (shared a)) i \<longleftrightarrow>
      healthy (app_backend a i) \<and> fst (breaker_is_routable (ts i) (breaker (app_backend a i)))"
    using i by (simp add: available_at_def)
  let ?a = "a\<lparr>shared := on_backend i (?f i) (shared a)\<rparr>"
  have "filter (available_at ts (pool (shared ?a))) js = filter (available_at ts (pool (shared a))) js"
  proof (rule filter_cong [OF refl])
    fix x assume "x \<in> set js"
    then have "x \<noteq> i" using Cons.prems by auto
    then show "available_at ts (pool (shared ?a)) x = available_at ts (pool (shared a)) x"
      by (simp add: available_at_def frame_simps)
  qed
  then have rest: "scan_available (\<lambda>_ x. x) ts js ?a =
      (filter (available_at ts (pool (shared a))) js, a\<lparr>shared := fold (\<lambda>i. on_backend i (?f i)) (i # js) (shared a)\<rparr>)"
    using Cons.IH [of ?a] Cons.prems by (simp add: frame_simps)
  show ?case
  proof (cases "healthy (app_backend a i)")
    case True
    have "check_breaker (ts i) i a = (fst (breaker_is_routable (ts i) (breaker (app_backend a i))), ?a)"
      using True by (auto simp: check_breaker_def split_def backend_is_routable_simps intro!: arg_cong [where f = "\<lambda>w. a\<lparr>shared := w\<rparr>"] on_backend_cong)
    then show ?thesis using True rest av by (simp add: Let_def is_healthy_def)
  next
    case False
    have "?a = a" using False on_backend_cong [of "?f i" "shared a" i "\<lambda>b. b"]
      by (simp add: on_backend_id backend_is_routable_simps)
    then have "scan_available (\<lambda>_ x. x) ts js a =
        (filter (available_at ts (pool (shared a))) js, a\<lparr>shared := fold (\<lambda>i. on_backend i (?f i)) (i # js) (shared a)\<rparr>)"
      using rest by simp
    then show ?thesis using False av by (simp add: Let_def is_healthy_def)
  qed
qed simp

lemma scan_under_limit_alone:
  "scan_under_limit (\<lambda>_ x. x) js a = (filter (within_queue_limit (pool (shared a))) js, a)"
  by (induction js) (simp_all add: Let_def within_queue_limit_def)

lemma scan_routable_alone:
  "scan_routable (\<lambda>_ x. x) ts a =
     (case routable ts (pool (shared a)) of (cands, p) \<Rightarrow> (cands, a\<lparr>shared := (shared a)\<lparr>pool := p\<rparr>\<rparr>))"
proof -
  let ?n = "num_backends (shared a)" and ?f = "\<lambda>i b. snd (backend_is_routable (ts i) b)"
  have pool: "fold (\<lambda>i. on_backend i (?f i)) [0..<?n] (shared a) = (shared a)\<lparr>pool := snd (routable ts (pool (shared a)))\<rparr>"
    by (rule router_state_eqI) (simp_all add: frame_simps routable_pool fold_on_backend_at)
  have "filter (within_queue_limit (snd (routable ts (pool (shared a))))) (filter (available_at ts (pool (shared a))) [0..<?n]) =
      filter (within_queue_limit (pool (shared a))) (filter (available_at ts (pool (shared a))) [0..<?n])"
    by (intro filter_cong) (auto simp: within_queue_limit_def routable_pool frame_simps)
  moreover have "scan_available (\<lambda>_ x. x) ts [0..<?n] a =
      (filter (available_at ts (pool (shared a))) [0..<?n], a\<lparr>shared := (shared a)\<lparr>pool := snd (routable ts (pool (shared a)))\<rparr>\<rparr>)"
    using scan_available_alone [of "[0..<?n]" a ts] pool by (simp add: lessThan_atLeast0)
  ultimately show ?thesis
    by (simp add: scan_routable_def scan_under_limit_alone split_def routable_list Let_def del: filter_filter)
qed

text \<open>
  Facts kept by the others and by the selection's own operations hold at each of its reads.
\<close>

definition kept_by_selection :: "(sync_point \<Rightarrow> app_state \<Rightarrow> app_state) \<Rightarrow> (app_state \<Rightarrow> bool) \<Rightarrow> bool" where
  "kept_by_selection others Q \<longleftrightarrow>
     (\<forall>p x. Q x \<longrightarrow> Q (others p x)) \<and>
     (\<forall>t i x. Q x \<longrightarrow> Q (snd (check_breaker t i x)) \<and> Q (snd (begin_on t i x))) \<and>
     (\<forall>x s. Q x \<longrightarrow> Q (x\<lparr>strategy_obj := s\<rparr>))"

lemma kept_by_selectionD:
  assumes "kept_by_selection others Q" "Q x"
  shows "Q (others p x)" "Q (snd (check_breaker t i x))" "Q (snd (begin_on t i x))"
    "Q (x\<lparr>strategy_obj := s\<rparr>)"
  using assms unfolding kept_by_selection_def by blast+

lemma kept_pick: "kept_by_selection others Q \<Longrightarrow> Q x \<Longrightarrow> Q (snd (pick_candidate ce see req cands x))"
  by (auto simp: pick_candidate_def split: prod.split option.split intro: kept_by_selectionD(4))

lemma scan_available_kept:
  assumes "kept_by_selection others Q" "Q a"
  shows "Q (snd (scan_available others ts js a))"
  using assms(2)
  by (induction js arbitrary: a) (simp_all add: Let_def split_def kept_by_selectionD [OF assms(1)])

lemma scan_available_seen:
  assumes "kept_by_selection others Q" "Q a" "i \<in> set (fst (scan_available others ts js a))"
  shows "i \<in> set js \<and> (\<exists>x. Q x \<and> healthy (app_backend x i)) \<and>
    (\<exists>x. Q x \<and> fst (breaker_is_routable (ts i) (breaker (app_backend x i))))"
  using assms(2,3)
proof (induction js arbitrary: a)
  case (Cons j js)
  note keep = kept_by_selectionD [OF assms(1)]
  let ?a1 = "others (Before_healthy j) a"
  let ?a2 = "others (Before_breaker j) ?a1"
  let ?a3 = "snd (check_breaker (ts j) j ?a2)"
  have Q: "Q ?a1" "Q ?a2" "Q ?a3" using Cons.prems keep by blast+
  have r: "fst (check_breaker (ts j) j ?a2) = fst (breaker_is_routable (ts j) (breaker (app_backend ?a2 j)))"
    by (simp add: check_breaker_def split_def)
  show ?case
    using Cons.prems(2) Cons.IH [OF Q(1)] Cons.IH [OF Q(3)] Q(1,2) r
    by (auto simp: Let_def split_def is_healthy_def split: if_splits)
qed simp

lemma scan_under_limit_kept:
  assumes "kept_by_selection others Q" "Q a"
  shows "Q (snd (scan_under_limit others js a))" "set (fst (scan_under_limit others js a)) \<subseteq> set js"
  using assms(2)
  by (induction js arbitrary: a) (auto simp: Let_def split_def split: if_splits dest: kept_by_selectionD(1) [OF assms(1)])

lemma scan_routable_kept:
  assumes "kept_by_selection others Q" "Q a"
  shows "Q (snd (scan_routable others ts a))"
    and "i \<in> set (fst (scan_routable others ts a)) \<Longrightarrow> i < num_backends (shared a) \<and>
      (\<exists>x. Q x \<and> healthy (app_backend x i)) \<and>
      (\<exists>x. Q x \<and> fst (breaker_is_routable (ts i) (breaker (app_backend x i))))"
proof -
  let ?av = "scan_available others ts [0..<num_backends (shared a)] a"
  have "Q (snd ?av)" using assms by (rule scan_available_kept)
  note ul = scan_under_limit_kept [OF assms(1) this]
  show "Q (snd (scan_routable others ts a))" using ul(1) by (simp add: scan_routable_def split_def)
  show "i < num_backends (shared a) \<and> (\<exists>x. Q x \<and> healthy (app_backend x i)) \<and>
      (\<exists>x. Q x \<and> fst (breaker_is_routable (ts i) (breaker (app_backend x i))))"
    if "i \<in> set (fst (scan_routable others ts a))"
  proof -
    have "i \<in> set (fst ?av)" using that ul(2) [of "fst ?av"] by (auto simp: scan_routable_def split_def split: if_splits)
    from scan_available_seen [OF assms this] show ?thesis by simp
  qed
qed

lemma select_loop_Some:
  assumes "select_loop others env req k cands a = (Some (j, adm), a')" "kept_by_selection others Q" "Q a"
  shows "j \<in> set cands \<and> (\<exists>n x. Q x \<and> begin_on (begin_at env n) j x = (Some adm, a'))"
  using assms
proof (induction others env req k cands a rule: select_loop.induct)
  case (1 others env req k cands a)
  note keep = kept_by_selectionD [OF 1(3)] kept_pick [OF 1(3)]
  show ?case
  proof (cases "cands = []")
    case False
    obtain o1 a1 where pick: "pick_candidate (choice env k) (seen env k) req cands (others (Before_strategy k) a) = (o1, a1)"
      by fastforce
    have "Q (others (Before_begin k) a1)" using keep(5) [OF keep(1) [OF 1(4)]] pick keep(1) by (metis snd_conv)
    from 1(2) False pick obtain i where i: "o1 = Some i"
      by (cases o1) (simp_all add: select_loop.simps [of others env req k])
    then have mem: "i \<in> set cands" using pick pick_candidate_mem by (metis fst_conv)
    obtain o2 a2 where beg: "begin_on (begin_at env k) i (others (Before_begin k) a1) = (o2, a2)" by fastforce
    show ?thesis
    proof (cases o2)
      case None
      then have "select_loop others env req (Suc k) (retain_others i cands a2) a2 = (Some (j, adm), a')"
        using 1(2) False pick i beg by (simp add: select_loop.simps [of others env req k])
      moreover have "Q a2" using keep(3) [OF \<open>Q (others (Before_begin k) a1)\<close>] beg by (metis snd_conv)
      ultimately show ?thesis using 1(1) [OF False pick [symmetric] i beg [symmetric] None _ 1(3)]
        by (auto simp: retain_others_def)
    next
      case (Some ad)
      then have "i = j" "ad = adm" "a2 = a'"
        using 1(2) False pick i beg by (simp_all add: select_loop.simps [of others env req k])
      then show ?thesis using mem beg Some \<open>Q (others (Before_begin k) a1)\<close> by blast
    qed
  qed (use 1(2) in \<open>simp add: select_loop.simps [of others env req k]\<close>)
qed

lemma app_ok_routable:
  assumes "app_ok sha a"
  shows "app_ok sha (a\<lparr>shared := (shared a)\<lparr>pool := snd (routable ts (pool (shared a)))\<rparr>\<rparr>)"
  using assms by (simp add: app_ok_def state_ok_def routable_pool_ok routable_pool(1))

lemma select_backend_total:
  assumes "app_ok sha a" "env_sha256 (choice env 0) = sha" "identity_kept (seen env 0)"
  shows "fst (select_backend (\<lambda>_ x. x) env req a) = None \<longleftrightarrow>
    fst (routable (routable_at env) (pool (shared a))) = []"
proof -
  let ?cands = "fst (routable (routable_at env) (pool (shared a)))"
  let ?a = "a\<lparr>shared := (shared a)\<lparr>pool := snd (routable (routable_at env) (pool (shared a)))\<rparr>\<rparr>"
  have sel: "select_backend (\<lambda>_ x. x) env req a = select_loop (\<lambda>_ x. x) env req 0 ?cands ?a"
    by (simp add: select_backend_def scan_routable_alone split_def)
  show ?thesis
  proof (cases "?cands = []")
    case False
    have ok: "app_ok (env_sha256 (choice env 0)) ?a" using app_ok_routable assms(1,2) by simp
    have "set ?cands \<subseteq> {..<num_backends (shared ?a)}"
      by (auto simp: routable_mem available_at_def routable_pool(1))
    then obtain j where j: "j \<in> set ?cands" "fst (pick_candidate (choice env 0) (seen env 0) req ?cands ?a) = Some j"
      using pick_candidate_total [OF ok False _ routable_distinct assms(3), of req] by blast
    obtain a1 where pick: "pick_candidate (choice env 0) (seen env 0) req ?cands ?a = (Some j, a1)"
      using j(2) by (metis prod.collapse)
    then have "shared a1 = shared ?a" using pick_candidate_frame(1) by (metis snd_conv)
    then have "fst (begin_on (begin_at env 0) j a1) \<noteq> None"
      using routable_nth_begin [OF j(1)] by (simp add: begin_on_frame)
    then obtain adm a2 where "begin_on (begin_at env 0) j a1 = (Some adm, a2)"
      by (metis option.exhaust prod.collapse)
    with pick False show ?thesis by (simp add: sel select_loop.simps)
  qed (simp add: sel select_loop.simps)
qed

section \<open>Properties\<close>

text \<open>
  C14. Selection is sound under interference. Whatever other threads do between the steps of
  the selection, a chosen backend was seen healthy when its flag was read, its breaker let
  traffic through when it was asked, and the admission was granted by that breaker in the last
  step, each in a state the run passed through: one that has every property kept by the others
  and by the selection's operations. So a backend that is unhealthy throughout, or whose breaker
  is open throughout, is never chosen.
\<close>

theorem select_backend_sound:
  assumes "select_backend others env req a = (Some (j, adm), a')"
    and "kept_by_selection others Q" "Q a"
  shows "j < num_backends (shared a) \<and> Q a' \<and>
    (\<exists>x. Q x \<and> healthy (app_backend x j)) \<and>
    (\<exists>x. Q x \<and> fst (breaker_is_routable (routable_at env j) (breaker (app_backend x j)))) \<and>
    (\<exists>now x. Q x \<and> fst (try_begin now (breaker (app_backend x j))) = Some adm \<and>
      app_state.shared a' =
        on_backend j (\<lambda>b. b\<lparr>breaker := snd (try_begin now (breaker (app_backend x j)))\<rparr>) (shared x))"
proof -
  let ?s = "scan_routable others (routable_at env) a"
  note scan = scan_routable_kept [OF assms(2,3), where ts = "routable_at env"]
  have "select_loop others env req 0 (fst ?s) (snd ?s) = (Some (j, adm), a')"
    using assms(1) by (simp add: select_backend_def split_def)
  from select_loop_Some [OF this assms(2) scan(1)] obtain n x where
    "j \<in> set (fst ?s)" "Q x" "begin_on (begin_at env n) j x = (Some adm, a')" by blast
  then show ?thesis
    using scan(2) begin_on_frame(1,2) [of "begin_at env n" j x] kept_by_selectionD(3) [OF assms(2) \<open>Q x\<close>, of "begin_at env n" j]
    by auto
qed

text \<open>
  C15. Selection is complete. When nothing interferes, a request is turned away only if no
  backend is routable; otherwise the first choice of the strategy is admitted, so the loop
  runs once. The scan of the pool, one read at a time, finds exactly the routable set.
\<close>

theorem select_backend_complete:
  assumes "app_ok sha a" "env_sha256 (choice env 0) = sha" "identity_kept (seen env 0)"
  shows "(fst (select_backend (\<lambda>_ x. x) env req a) = None \<longleftrightarrow>
      fst (routable (routable_at env) (pool (shared a))) = []) \<and>
    fst (scan_routable (\<lambda>_ x. x) (routable_at env) a) = fst (routable (routable_at env) (pool (shared a)))"
  using select_backend_total [OF assms] by (simp add: scan_routable_alone split_def)

text \<open>A router with one idle backend and the first request on its way.\<close>

definition small_app :: app_state where
  "small_app =
     \<lparr>shared = \<lparr>pool = new_pool [new_backend 0 ''http://b0'' 1 tiny_breaker] 8,
        controller = new_controller 4, metric_log = []\<rparr>,
      strategy_obj = S_least_connections LeastConnections, strategy_name = ''least_connections'',
      ewma_alpha = Fin (1 / 4)\<rparr>"

definition small_env :: "code_points request_env" where
  "small_env = \<lparr>choice = (\<lambda>_. sample_env), seen = (\<lambda>_ b. b), routable_at = (\<lambda>_. 0), begin_at = (\<lambda>_. 0)\<rparr>"

lemma small_app_ok: "app_ok sample_sha small_app"
  by (simp add: app_ok_def small_app_def state_ok_def pool_ok_def new_pool_def controller_ok_new
      new_backend_def strategy_ready_def strategy_fits_def tiny_breaker_def new_breaker_ok)

lemma small_app_routable: "routable (\<lambda>_. 0) (pool (shared small_app)) = ([0], pool (shared small_app))"
proof -
  have "breaker_is_routable 0 tiny_breaker = (True, tiny_breaker)"
    by (simp add: tiny_breaker_def breaker_is_routable_def breaker_eval)
  then show ?thesis
    by (simp add: routable_def Let_def small_app_def new_pool_def backend_is_routable_def is_healthy_def
        new_backend_def)
qed

theorem select_backend_complete_witness:
  "fst (select_backend (\<lambda>_ x. x) small_env \<lparr>req_path = [], req_body = None\<rparr> small_app) \<noteq> None"
  using select_backend_complete [of sample_sha small_app small_env "\<lparr>req_path = [], req_body = None\<rparr>"]
    small_app_ok
  by (simp add: small_env_def sample_env_def small_app_routable identity_kept_def del: not_None_eq)

lemma small_app_select:
  "select_backend (\<lambda>_ x. x) small_env \<lparr>req_path = [], req_body = None\<rparr> small_app =
     (Some (0, Normal), small_app)"
proof -
  have "backend_at (shared small_app) 0 = new_backend 0 ''http://b0'' 1 tiny_breaker"
    by (simp add: small_app_def new_pool_def)
  moreover have "pick_candidate sample_env (\<lambda>b. b) \<lparr>req_path = [], req_body = None\<rparr> [0] small_app = (Some 0, small_app)"
    by (simp add: pick_candidate_def small_app_def least_connections_select_def new_pool_def new_backend_def)
  ultimately show ?thesis
    by (simp add: select_backend_def scan_routable_alone small_env_def small_app_routable select_loop.simps begin_on_def
        tiny_breaker_begin new_backend_def)
      (simp add: small_app_def on_backend_def new_pool_def new_backend_def)
qed

text \<open>The pool keeps its size.\<close>

theorem select_backend_sound_witness:
  "\<exists>x. num_backends (shared x) = 1 \<and> healthy (app_backend x 0)"
proof -
  have "num_backends (shared small_app) = 1" by (simp add: small_app_def new_pool_def)
  moreover have "kept_by_selection (\<lambda>_ x. x) (\<lambda>x. num_backends (shared x) = 1)"
    by (simp add: kept_by_selection_def check_breaker_def split_def frame_simps)
  ultimately show ?thesis
    using select_backend_sound [OF small_app_select, of "\<lambda>x. num_backends (shared x) = 1"] by blast
qed

text \<open>
  Response headers. A reply to the client carries exactly one \<open>x-router-backend\<close> header,
  the URL of the backend that served it, whatever the backend sent under that name, and no
  other header that the filter removes.
\<close>

theorem response_headers_filtered:
  assumes "forward_request to_str send t b meth pq hs body = Inr f"
    and "into_response hv now ts f u acc w = (Some r, w')"
  shows "header_values ''x-router-backend'' (resp_headers r) = [u] \<and> resp_status r = fwd_status f \<and>
    (\<forall>n. is_hop_by_hop n \<and> n \<noteq> ''x-router-backend'' \<longrightarrow> header_values n (resp_headers r) = [])"
proof -
  obtain hs' where f: "fwd_headers f = filter_headers hs'" using forward_request_headers [OF assms(1)] by blast
  have r: "resp_headers r = filter_headers hs' @ [(''x-router-backend'', u)]" "resp_status r = fwd_status f"
    using assms(2) by (auto simp: into_response_def Let_def f split: prod.splits if_splits)
  have app: "header_values n (xs @ ys) = header_values n xs @ header_values n ys" for n xs ys
    by (simp add: header_values_def)
  have "is_hop_by_hop ''x-router-backend''" by (simp add: is_hop_by_hop_def HOP_BY_HOP_def)
  then show ?thesis
    by (auto simp: r app filter_headers_values) (simp_all add: header_values_def)
qed

definition sample_forwarded :: forwarded where
  "sample_forwarded = \<lparr>fwd_status = 200, fwd_headers = [(''content-type'', ''application/json'')],
     fwd_body = Full ''ok'', fwd_headers_at = 1\<rparr>"

theorem response_headers_filtered_witness:
  "header_values ''x-router-backend''
     (resp_headers (the (fst (into_response (\<lambda>_. True) 1 (\<lambda>_. 2) sample_forwarded ''http://b0'' lone_guard lone_state))))
   = [''http://b0'']"
proof -
  let ?send = "\<lambda>_. Replied 200 [(''x-router-backend'', ''evil''), (''content-type'', ''application/json'')] (Some ''ok'')"
  have f: "forward_request Some ?send 1 warm_backend ''POST'' None [] [] = Inr sample_forwarded"
    by (simp add: forward_request_def sample_forwarded_def is_event_stream_def header_get_def
        starts_with_def ascii_trim_start_def is_hop_by_hop_def HOP_BY_HOP_def Let_def)
  have "\<exists>r w'. into_response (\<lambda>_. True) 1 (\<lambda>_. 2) sample_forwarded ''http://b0'' lone_guard lone_state = (Some r, w')"
    by (simp add: into_response_def split_def Let_def)
  then show ?thesis using response_headers_filtered [OF f] by fastforce
qed

text \<open>
  No route is registered twice. With a metrics path that validation accepts, the paths of
  the route table are distinct, so registering them cannot panic, and the health and proxy
  routes are always there.
\<close>

lemma routes_distinct:
  assumes "config_ok hv c"
  shows "distinct (map fst (build_router (cfg_metrics c))) \<and>
    map_of (build_router (cfg_metrics c)) ''/v1/chat/completions'' = Some (Any Proxy_handler) \<and>
    map_of (build_router (cfg_metrics c)) ''/v1/completions'' = Some (Any Proxy_handler) \<and>
    map_of (build_router (cfg_metrics c)) ''/health'' = Some (Get Health_handler)"
  using assms by (auto simp: build_router_def config_ok_def ROUTER_ROUTES_def)

text \<open>
  The selection loop ends. Whatever other threads do meanwhile, the loop makes at most one
  turn per candidate: two runs that see the same interference, readings and choices in the
  first \<open>length cands\<close> turns have the same result.
\<close>

lemma select_loop_bounded:
  assumes "\<forall>n < length cands. others' (Before_strategy (k + n)) = others (Before_strategy (k + n)) \<and>
      others' (Before_begin (k + n)) = others (Before_begin (k + n)) \<and>
      choice env' (k + n) = choice env (k + n) \<and> seen env' (k + n) = seen env (k + n) \<and>
      begin_at env' (k + n) = begin_at env (k + n)"
  shows "select_loop others' env' req k cands a = select_loop others env req k cands a"
  using assms
proof (induction others env req k cands a rule: select_loop.induct)
  case (1 others env req k cands a)
  show ?case
  proof (cases "cands = []")
    case False
    then have now: "others' (Before_strategy k) = others (Before_strategy k)"
      "others' (Before_begin k) = others (Before_begin k)" "choice env' k = choice env k"
      "seen env' k = seen env k" "begin_at env' k = begin_at env k"
      using "1.prems" [rule_format, of 0] by simp_all
    obtain o1 a1 where pick: "pick_candidate (choice env k) (seen env k) req cands (others (Before_strategy k) a) = (o1, a1)"
      by fastforce
    obtain o2 a2 where beg: "begin_on (begin_at env k) (the o1) (others (Before_begin k) a1) = (o2, a2)" by fastforce
    have "select_loop others' env' req (Suc k) (retain_others j cands a2) a2 =
        select_loop others env req (Suc k) (retain_others j cands a2) a2" if j: "o1 = Some j" "o2 = None" for j
    proof (rule "1.IH" [OF False pick [symmetric] j(1) _ j(2)])
      show "(o2, a2) = begin_on (begin_at env k) j (others (Before_begin k) a1)" using beg j by simp
      have "j \<in> set cands" using pick pick_candidate_mem j by (metis fst_conv)
      then have "length (retain_others j cands a2) < length cands" by (rule retain_others_shorter)
      then show "\<forall>n < length (retain_others j cands a2).
          others' (Before_strategy (Suc k + n)) = others (Before_strategy (Suc k + n)) \<and>
          others' (Before_begin (Suc k + n)) = others (Before_begin (Suc k + n)) \<and>
          choice env' (Suc k + n) = choice env (Suc k + n) \<and> seen env' (Suc k + n) = seen env (Suc k + n) \<and>
          begin_at env' (Suc k + n) = begin_at env (Suc k + n)"
        using "1.prems" unfolding add_Suc_shift by (meson Suc_less_eq less_trans_Suc not_less_eq)
    qed
    then show ?thesis using pick beg
      unfolding select_loop.simps [of others' env' req k] select_loop.simps [of others env req k] now
      by (cases o1; cases o2) simp_all
  qed (simp add: select_loop.simps)
qed

end
