(* ===== verification/Health.thy ===== *)
theory Health
  imports Config
begin

text \<open>
  Active health checks and the scrape of each backend's metrics (router-core/src/health.rs).
  The replies of the HTTP client are arguments; the scraped text is a list of code points,
  split into lines and tokens the way the standard library does, and its numbers are read by
  the grammar of \<open>f64::from_str\<close> and rounded once.

  The theory shows the hysteresis of the health flag over every history of probe results,
  the range of the scraped values, and when they are cleared.
\<close>

section \<open>Probe results\<close>

definition reset_scraped :: "backend \<Rightarrow> backend" where
  "reset_scraped b = b\<lparr>queue_depth := 0, kv_cache_usage_bp := 0\<rparr>"

definition apply_probe_result :: "health_check_config \<Rightarrow> bool \<Rightarrow> backend \<Rightarrow> backend" where
  "apply_probe_result cfg ok b =
     (if ok
      then
        let streak = consecutive_health_successes b + 1;
            b1 = b\<lparr>consecutive_health_successes := streak, consecutive_health_failures := 0\<rparr>
        in if ucast (healthy_threshold cfg) \<le> streak \<and> \<not> is_healthy b1 then mark_healthy b1 else b1
      else
        let streak = consecutive_health_failures b + 1;
            b1 = b\<lparr>consecutive_health_failures := streak, consecutive_health_successes := 0\<rparr>
        in if ucast (unhealthy_threshold cfg) \<le> streak \<and> is_healthy b1 then mark_unhealthy b1 else b1)"

definition record_probe :: "health_check_config \<Rightarrow> bool \<Rightarrow> backend \<Rightarrow> bool \<times> backend" where
  "record_probe cfg ok b =
     (let b1 = apply_probe_result cfg ok b
      in (ok, if \<not> ok \<and> \<not> is_healthy b1 then reset_scraped b1 else b1))"

section \<open>Text\<close>

text \<open>\<open>char::is_whitespace\<close>: the Unicode property White_Space.\<close>

definition is_whitespace :: "nat \<Rightarrow> bool" where
  "is_whitespace c \<longleftrightarrow> (9 \<le> c \<and> c \<le> 13) \<or> (8192 \<le> c \<and> c \<le> 8202) \<or>
     c \<in> {32, 133, 160, 5760, 8232, 8233, 8239, 8287, 12288}"

definition utf :: "string \<Rightarrow> code_points" where
  "utf s = map of_char s"

text \<open>
  \<open>str::lines\<close>: a line ends at a line feed, which is removed together with a carriage return
  before it; the last line need not end in one, and an empty rest is no line.
\<close>

definition strip_cr :: "code_points \<Rightarrow> code_points" where
  "strip_cr l = (if l \<noteq> [] \<and> last l = 13 then butlast l else l)"

function lines :: "code_points \<Rightarrow> code_points list" where
  "lines t =
     (if t = [] then []
      else
        let l = takeWhile (\<lambda>c. c \<noteq> 10) t;
            rest = dropWhile (\<lambda>c. c \<noteq> 10) t
        in if rest = [] then [l] else strip_cr l # lines (tl rest))"
  by pat_completeness auto
termination
proof (relation "measure length")
  fix t l rest :: code_points
  assume r: "rest = dropWhile (\<lambda>c. c \<noteq> 10) t" "rest \<noteq> []"
  have "length (tl rest) < length rest" using r(2) by simp
  also have "length rest \<le> length t" unfolding r(1) by (rule length_dropWhile_le)
  finally show "(tl rest, t) \<in> measure length" by simp
qed simp

declare lines.simps [simp del]

text \<open>\<open>split_whitespace\<close>: the non-empty runs of non-white-space characters.\<close>

function split_whitespace :: "code_points \<Rightarrow> code_points list" where
  "split_whitespace t =
     (let u = dropWhile is_whitespace t
      in if u = [] then []
         else takeWhile (\<lambda>c. \<not> is_whitespace c) u #
           split_whitespace (dropWhile (\<lambda>c. \<not> is_whitespace c) u))"
  by pat_completeness auto
termination
proof (relation "measure length")
  fix t u :: code_points
  assume u: "u = dropWhile is_whitespace t" "u \<noteq> []"
  have "\<not> is_whitespace (hd u)" using hd_dropWhile [of is_whitespace t] u by simp
  then have "length (dropWhile (\<lambda>c. \<not> is_whitespace c) u) < length u"
    using u(2) by (cases u) (auto simp: length_dropWhile_le le_imp_less_Suc)
  also have "length u \<le> length t" using u(1) by (simp add: length_dropWhile_le)
  finally show "(dropWhile (\<lambda>c. \<not> is_whitespace c) u, t) \<in> measure length" by simp
qed simp

declare split_whitespace.simps [simp del]

section \<open>\<open>f64::from_str\<close>\<close>

text \<open>
  The grammar of the standard library: an optional sign, then \<open>inf\<close>, \<open>infinity\<close> or \<open>nan\<close>
  in any case, or digits with an optional point and at least one digit, and an optional
  exponent. The exact decimal value is rounded once.
\<close>

definition is_digit :: "nat \<Rightarrow> bool" where
  "is_digit c \<longleftrightarrow> 48 \<le> c \<and> c \<le> 57"

definition digits_value :: "code_points \<Rightarrow> nat" where
  "digits_value ds = foldl (\<lambda>n d. 10 * n + (d - 48)) 0 ds"

definition to_lower :: "nat \<Rightarrow> nat" where
  "to_lower c = (if 65 \<le> c \<and> c \<le> 90 then c + 32 else c)"

fun take_sign :: "code_points \<Rightarrow> bool \<times> code_points" where
  "take_sign [] = (False, [])"
| "take_sign (c # cs) =
     (if c = 45 then (True, cs) else if c = 43 then (False, cs) else (False, c # cs))"

text \<open>An exponent, if any, up to the end of the text.\<close>

definition parse_exponent :: "code_points \<Rightarrow> int option" where
  "parse_exponent t =
     (case t of
        [] \<Rightarrow> Some 0
      | c # cs \<Rightarrow>
          if to_lower c = 101 then
            (case take_sign cs of (neg, ds) \<Rightarrow>
               if ds \<noteq> [] \<and> list_all is_digit ds
               then Some (if neg then - int (digits_value ds) else int (digits_value ds)) else None)
          else None)"

definition parse_decimal :: "code_points \<Rightarrow> rat option" where
  "parse_decimal t =
     (let whole = takeWhile is_digit t;
          rest = dropWhile is_digit t;
          has_point = (rest \<noteq> [] \<and> hd rest = 46);
          frac = (if has_point then takeWhile is_digit (tl rest) else []);
          rest' = (if has_point then dropWhile is_digit (tl rest) else rest)
      in if whole = [] \<and> frac = [] then None
         else
           (case parse_exponent rest' of
              None \<Rightarrow> None
            | Some e \<Rightarrow>
                Some (of_nat (digits_value (whole @ frac)) * (10 :: rat) powi (e - int (length frac)))))"

definition parse_f64 :: "code_points \<Rightarrow> f64 option" where
  "parse_f64 t =
     (case take_sign t of (neg, body) \<Rightarrow>
        let word = map to_lower body;
            v = (if word = utf ''inf'' \<or> word = utf ''infinity'' then Some PInf
                 else if word = utf ''nan'' then Some NaN
                 else map_option to_f64 (parse_decimal body))
        in map_option (\<lambda>x. if neg then neg_f64 x else x) v)"

section \<open>Scraping\<close>

definition metric_name :: "code_points \<Rightarrow> code_points" where
  "metric_name line = takeWhile (\<lambda>c. c \<noteq> 123 \<and> \<not> is_whitespace c) line"

definition metric_value :: "code_points \<Rightarrow> f64 option" where
  "metric_value line =
     (case split_whitespace line of [] \<Rightarrow> None | tok # toks \<Rightarrow> parse_f64 (last (tok # toks)))"

record scrape_found =
  found_queue_depth :: bool
  found_kv_cache :: bool

text \<open>One line of the body, on the running sum and maximum.\<close>

definition scrape_line ::
  "code_points \<Rightarrow> f64 option \<times> f64 option \<Rightarrow> f64 option \<times> f64 option" where
  "scrape_line line acc =
     (case acc of (queue, kv) \<Rightarrow>
        if line \<noteq> [] \<and> hd line = 35 then (queue, kv)
        else if metric_name line = utf ''vllm:num_requests_waiting'' then
          (case metric_value line of
             Some v \<Rightarrow> (Some (add_f64 (the_default (Fin 0) queue) (max_f64 v (Fin 0))), kv)
           | None \<Rightarrow> (queue, kv))
        else if metric_name line = utf ''vllm:kv_cache_usage_perc'' \<or>
                metric_name line = utf ''vllm:gpu_cache_usage_perc'' then
          (case metric_value line of
             Some v \<Rightarrow>
               let v' = clamp_f64 v (Fin 0) (Fin 1)
               in (queue, Some (case kv of None \<Rightarrow> v' | Some k \<Rightarrow> max_f64 k v'))
           | None \<Rightarrow> (queue, kv))
        else (queue, kv))"

definition parse_backend_metrics :: "code_points \<Rightarrow> backend \<Rightarrow> scrape_found \<times> backend" where
  "parse_backend_metrics t b =
     (case fold scrape_line (lines t) (None, None) of (queue, kv) \<Rightarrow>
        let b1 = (case queue of Some q \<Rightarrow> b\<lparr>queue_depth := u64_of_f64 q\<rparr> | None \<Rightarrow> b);
            b2 = (case kv of
                    Some k \<Rightarrow> b1\<lparr>kv_cache_usage_bp := u64_of_f64 (mul_f64 k (Fin 10000))\<rparr>
                  | None \<Rightarrow> b1)
        in (\<lparr>found_queue_depth = (queue \<noteq> None), found_kv_cache = (kv \<noteq> None)\<rparr>, b2))"

definition apply_scrape :: "code_points \<Rightarrow> backend \<Rightarrow> backend" where
  "apply_scrape t b =
     (case parse_backend_metrics t b of (found, b1) \<Rightarrow>
        let b2 = (if \<not> found_queue_depth found then b1\<lparr>queue_depth := 0\<rparr> else b1)
        in if \<not> found_kv_cache found then b2\<lparr>kv_cache_usage_bp := 0\<rparr> else b2)"

section \<open>One check\<close>

text \<open>
  The replies of the two requests of a check: the status of \<open>/health\<close> (or a failed send), and
  for \<open>/metrics\<close> the status with the body text (or an unreadable body), or a failed send.
\<close>

type_synonym health_reply = "status option"
type_synonym metrics_reply = "(status \<times> code_points option) option"

definition health_url :: "backend \<Rightarrow> string" where
  "health_url b = url b @ ''/health''"

definition metrics_url :: "backend \<Rightarrow> string" where
  "metrics_url b = url b @ ''/metrics''"

definition check_one ::
  "health_check_config \<Rightarrow> (string \<Rightarrow> health_reply) \<Rightarrow> (string \<Rightarrow> metrics_reply) \<Rightarrow> backend \<Rightarrow> backend" where
  "check_one cfg get_health get_metrics b =
     (let ok = (case get_health (health_url b) of Some st \<Rightarrow> is_success st | None \<Rightarrow> False)
      in case record_probe cfg ok b of (scrape, b1) \<Rightarrow>
           if \<not> scrape then b1
           else
             (case get_metrics (metrics_url b) of
                Some (st, body) \<Rightarrow>
                  if is_success st
                  then (case body of Some t \<Rightarrow> apply_scrape t b1 | None \<Rightarrow> reset_scraped b1)
                  else reset_scraped b1
              | None \<Rightarrow> reset_scraped b1))"

text \<open>One tick of the checker: every backend is checked, each check touches only its own.\<close>

definition health_round ::
  "health_check_config \<Rightarrow> (string \<Rightarrow> health_reply) \<Rightarrow> (string \<Rightarrow> metrics_reply) \<Rightarrow>
   backend_pool \<Rightarrow> backend_pool" where
  "health_round cfg get_health get_metrics p =
     p\<lparr>backends := map (check_one cfg get_health get_metrics) (backends p)\<rparr>"

text \<open>The endless loop of the checker, seen after any number of ticks with their replies.\<close>

type_synonym health_tick = "(string \<Rightarrow> health_reply) \<times> (string \<Rightarrow> metrics_reply)"

definition health_checker :: "health_check_config \<Rightarrow> health_tick list \<Rightarrow> backend_pool \<Rightarrow> backend_pool" where
  "health_checker cfg ticks p = fold (\<lambda>(get_health, get_metrics). health_round cfg get_health get_metrics) ticks p"

section \<open>Streaks\<close>

definition probe_run :: "health_check_config \<Rightarrow> bool list \<Rightarrow> backend \<Rightarrow> backend" where
  "probe_run cfg hist b = fold (apply_probe_result cfg) hist b"

text \<open>How many results at the end of a history are \<open>r\<close>.\<close>

definition streak :: "bool \<Rightarrow> bool list \<Rightarrow> nat" where
  "streak r hist = length (takeWhile (\<lambda>x. x = r) (rev hist))"

lemma streak_snoc: "streak r (hist @ [x]) = (if x = r then Suc (streak r hist) else 0)"
  by (simp add: streak_def)

lemma streak_le: "streak r hist \<le> length hist"
  unfolding streak_def by (metis length_rev length_takeWhile_le)

lemma probe_run_snoc: "probe_run cfg (hist @ [r]) b = apply_probe_result cfg r (probe_run cfg hist b)"
  by (simp add: probe_run_def)

lemma apply_probe_result_fields:
  "consecutive_health_successes (apply_probe_result cfg r b) =
     (if r then consecutive_health_successes b + 1 else 0)"
  "consecutive_health_failures (apply_probe_result cfg r b) =
     (if r then 0 else consecutive_health_failures b + 1)"
  "healthy (apply_probe_result cfg r b) =
     (if r then healthy b \<or> ucast (healthy_threshold cfg) \<le> consecutive_health_successes b + 1
      else healthy b \<and> \<not> ucast (unhealthy_threshold cfg) \<le> consecutive_health_failures b + 1)"
  by (auto simp: apply_probe_result_def Let_def mark_healthy_def mark_unhealthy_def is_healthy_def)

lemma apply_probe_result_frame [frame_simps]:
  "backend_id (apply_probe_result cfg r b) = backend_id b"
  "url (apply_probe_result cfg r b) = url b"
  "breaker (apply_probe_result cfg r b) = breaker b"
  "active_connections (apply_probe_result cfg r b) = active_connections b"
  "queue_depth (apply_probe_result cfg r b) = queue_depth b"
  "kv_cache_usage_bp (apply_probe_result cfg r b) = kv_cache_usage_bp b"
  by (simp_all add: apply_probe_result_def Let_def mark_healthy_def mark_unhealthy_def)

lemma probe_run_streaks:
  assumes "length hist < 2 ^ 64"
    and "consecutive_health_successes b = 0" "consecutive_health_failures b = 0"
  shows "unat (consecutive_health_successes (probe_run cfg hist b)) = streak True hist"
    "unat (consecutive_health_failures (probe_run cfg hist b)) = streak False hist"
  using assms(1)
proof (induction hist rule: rev_induct)
  case Nil
  case 1
  then show ?case using assms(2) by (simp add: probe_run_def streak_def)
  case 2
  then show ?case using assms(3) by (simp add: probe_run_def streak_def)
next
  case (snoc r hist)
  have lt: "length hist < 2 ^ 64 - 1" if "length (hist @ [r]) < 2 ^ 64" using that by simp
  case 1
  then have "unat (consecutive_health_successes (probe_run cfg hist b)) < 2 ^ 64 - 1"
    using snoc.IH(1) lt streak_le [of True hist] by simp
  then show ?case using snoc.IH(1) lt [OF 1]
    by (simp add: probe_run_snoc apply_probe_result_fields streak_snoc)
  case 2
  then have "unat (consecutive_health_failures (probe_run cfg hist b)) < 2 ^ 64 - 1"
    using snoc.IH(2) lt streak_le [of False hist] by simp
  then show ?case using snoc.IH(2) lt [OF 2]
    by (simp add: probe_run_snoc apply_probe_result_fields streak_snoc)
qed

lemma unat_ucast_u32: "unat (ucast (x :: u32) :: u64) = unat x"
  using unat_u32_less [of x] by (simp add: unsigned_ucast_eq take_bit_nat_eq_self)

lemma hysteresis_step:
  assumes "length hist < 2 ^ 64 - 1"
    and "consecutive_health_successes b = 0" "consecutive_health_failures b = 0"
  shows "healthy (probe_run cfg (hist @ [r]) b) =
    (if r then healthy (probe_run cfg hist b) \<or> unat (healthy_threshold cfg) \<le> streak True (hist @ [r])
     else healthy (probe_run cfg hist b) \<and> \<not> unat (unhealthy_threshold cfg) \<le> streak False (hist @ [r]))"
proof -
  have "length (hist @ [r]) < 2 ^ 64" using assms(1) by simp
  from probe_run_streaks [OF this assms(2,3), of cfg] show ?thesis
    by (cases r) (simp_all add: probe_run_snoc apply_probe_result_fields word_le_nat_alt unat_ucast_u32
        del: unat_Suc_no_wrap)
qed

section \<open>Scraped values\<close>

text \<open>The values of the series a metric name selects, in order.\<close>

definition series :: "code_points set \<Rightarrow> code_points list \<Rightarrow> f64 list" where
  "series names ls =
     List.map_filter
       (\<lambda>l. if \<not> (l \<noteq> [] \<and> hd l = 35) \<and> metric_name l \<in> names then metric_value l else None) ls"

definition queue_names :: "code_points set" where
  "queue_names = {utf ''vllm:num_requests_waiting''}"

definition kv_names :: "code_points set" where
  "kv_names = {utf ''vllm:kv_cache_usage_perc'', utf ''vllm:gpu_cache_usage_perc''}"

definition queue_total :: "f64 list \<Rightarrow> f64 option" where
  "queue_total vs =
     (if vs = [] then None else Some (foldl add_f64 (Fin 0) (map (\<lambda>v. max_f64 v (Fin 0)) vs)))"

definition kv_max :: "f64 list \<Rightarrow> f64 option" where
  "kv_max vs =
     (case map (\<lambda>v. clamp_f64 v (Fin 0) (Fin 1)) vs of
        [] \<Rightarrow> None | k # ks \<Rightarrow> Some (foldl max_f64 k ks))"

lemma series_snoc:
  "series names (ls @ [l]) =
     series names ls @
       (if \<not> (l \<noteq> [] \<and> hd l = 35) \<and> metric_name l \<in> names
        then (case metric_value l of Some v \<Rightarrow> [v] | None \<Rightarrow> []) else [])"
  by (auto simp: series_def map_filter_def split: option.split)

lemma names_disjoint: "n \<in> queue_names \<Longrightarrow> n \<notin> kv_names"
  by (auto simp: queue_names_def kv_names_def utf_def)

lemma queue_total_snoc:
  "queue_total (vs @ [v]) = Some (add_f64 (the_default (Fin 0) (queue_total vs)) (max_f64 v (Fin 0)))"
  by (simp add: queue_total_def the_default_def)

lemma kv_max_snoc:
  "kv_max (vs @ [v]) =
     Some (case kv_max vs of
             None \<Rightarrow> clamp_f64 v (Fin 0) (Fin 1) | Some k \<Rightarrow> max_f64 k (clamp_f64 v (Fin 0) (Fin 1)))"
  by (cases vs) (simp_all add: kv_max_def)

lemma scrape_line_cases:
  "scrape_line l (queue, kv) =
     ((if \<not> (l \<noteq> [] \<and> hd l = 35) \<and> metric_name l \<in> queue_names
       then (case metric_value l of
               Some v \<Rightarrow> Some (add_f64 (the_default (Fin 0) queue) (max_f64 v (Fin 0))) | None \<Rightarrow> queue)
       else queue),
      (if \<not> (l \<noteq> [] \<and> hd l = 35) \<and> metric_name l \<in> kv_names
       then (case metric_value l of
               Some v \<Rightarrow> Some (case kv of None \<Rightarrow> clamp_f64 v (Fin 0) (Fin 1)
                                   | Some k \<Rightarrow> max_f64 k (clamp_f64 v (Fin 0) (Fin 1))) | None \<Rightarrow> kv)
       else kv))"
  using names_disjoint [of "metric_name l"]
  by (auto simp: scrape_line_def queue_names_def kv_names_def Let_def split: option.split)

lemma scrape_fold:
  "fold scrape_line ls (None, None) = (queue_total (series queue_names ls), kv_max (series kv_names ls))"
proof (induction ls rule: rev_induct)
  case Nil
  then show ?case by (simp add: series_def map_filter_def queue_total_def kv_max_def)
next
  case (snoc l ls)
  then show ?case
    by (auto simp: scrape_line_cases series_snoc queue_total_snoc kv_max_snoc split: option.split)
qed

text \<open>What a kept ratio can be: a number between 0 and 1, or NaN.\<close>

definition ratio_ok :: "f64 \<Rightarrow> bool" where
  "ratio_ok x \<longleftrightarrow> x = NaN \<or> (\<exists>q. x = Fin q \<and> 0 \<le> q \<and> q \<le> 1)"

lemma ratio_ok_clamp: "ratio_ok (clamp_f64 v (Fin 0) (Fin 1))"
  by (cases v) (auto simp: ratio_ok_def clamp_f64_def lt_f64_def)

lemma ratio_ok_max: "ratio_ok x \<Longrightarrow> ratio_ok y \<Longrightarrow> ratio_ok (max_f64 x y)"
  by (auto simp: ratio_ok_def max_f64_def)

lemma kv_max_ok: "kv_max vs = Some k \<Longrightarrow> ratio_ok k"
proof (induction vs arbitrary: k rule: rev_induct)
  case (snoc v vs)
  then show ?case by (auto simp: kv_max_snoc ratio_ok_clamp ratio_ok_max split: option.splits)
qed (simp add: kv_max_def)

lemma basis_points_bound: "ratio_ok k \<Longrightarrow> unat (u64_of_f64 (mul_f64 k (Fin 10000))) \<le> 10000"
proof -
  assume "ratio_ok k"
  then consider "k = NaN" | q where "k = Fin q" "0 \<le> q" "q \<le> 1" unfolding ratio_ok_def by blast
  then show ?thesis
  proof cases
    case 2
    let ?x = "rnd (q * 10000)"
    have "q * 10000 \<le> safe_bound" using 2 by (intro pow50_safe) simp
    then have "mul_f64 k (Fin 10000) = Fin ?x" using 2 to_f64_small [of "q * 10000"] by simp
    moreover have x: "0 \<le> ?x" "?x \<le> 10000"
      using 2 rnd_nonneg [of "q * 10000"] b64.upper [of 10000 "q * 10000"] representable_of_nat [of 10000]
      by simp_all
    moreover have "unat (u64_of_f64 (Fin ?x)) = nat \<lfloor>?x\<rfloor>" using x by (intro unat_u64_of_f64) simp_all
    moreover have "nat \<lfloor>?x\<rfloor> \<le> 10000" using x(2) by linarith
    ultimately show ?thesis by (simp only:)
  qed simp
qed

lemma apply_scrape_eq:
  "apply_scrape t b = b\<lparr>
     queue_depth := (case queue_total (series queue_names (lines t)) of Some q \<Rightarrow> u64_of_f64 q | None \<Rightarrow> 0),
     kv_cache_usage_bp :=
       (case kv_max (series kv_names (lines t)) of Some k \<Rightarrow> u64_of_f64 (mul_f64 k (Fin 10000)) | None \<Rightarrow> 0)\<rparr>"
  by (simp add: apply_scrape_def parse_backend_metrics_def scrape_fold Let_def split: option.split)

lemma apply_scrape_bound: "unat (kv_cache_usage_bp (apply_scrape t b)) \<le> 10000"
  unfolding apply_scrape_eq using basis_points_bound kv_max_ok by (auto split: option.split)

lemma check_one_cases:
  "check_one cfg get_health get_metrics b =
     (let b1 = apply_probe_result cfg (get_health (health_url b) \<in> Some ` Collect is_success) b in
      if get_health (health_url b) \<in> Some ` Collect is_success
      then (case get_metrics (metrics_url b) of
              Some (st, Some t) \<Rightarrow> if is_success st then apply_scrape t b1 else reset_scraped b1
            | _ \<Rightarrow> reset_scraped b1)
      else if healthy b1 then b1 else reset_scraped b1)"
proof -
  have "(case get_health (health_url b) of Some st \<Rightarrow> is_success st | None \<Rightarrow> False) \<longleftrightarrow>
      get_health (health_url b) \<in> Some ` Collect is_success"
    by (auto split: option.split)
  then show ?thesis
    by (auto simp: check_one_def record_probe_def Let_def is_healthy_def split: option.split prod.split)
qed

lemma check_one_frame [frame_simps]:
  "backend_id (check_one cfg gh gm b) = backend_id b"
  "url (check_one cfg gh gm b) = url b"
  "breaker (check_one cfg gh gm b) = breaker b"
  "active_connections (check_one cfg gh gm b) = active_connections b"
  by (auto simp: check_one_cases Let_def apply_scrape_eq reset_scraped_def frame_simps
      split: option.split prod.split)

lemma health_round_pool_ok: "pool_ok p \<Longrightarrow> pool_ok (health_round cfg gh gm p)"
  by (auto simp: pool_ok_def health_round_def frame_simps)

section \<open>The checker loop\<close>

text \<open>Whether the backend with URL \<open>u\<close> passes the probe of a tick.\<close>

definition passed :: "string \<Rightarrow> health_tick \<Rightarrow> bool" where
  "passed u tick \<longleftrightarrow> fst tick (u @ ''/health'') \<in> Some ` Collect is_success"

abbreviation probe_view :: "backend \<Rightarrow> bool \<times> u64 \<times> u64" where
  "probe_view b \<equiv> (healthy b, consecutive_health_successes b, consecutive_health_failures b)"

lemma check_one_view:
  "probe_view (check_one cfg gh gm b) = probe_view (apply_probe_result cfg (passed (url b) (gh, gm)) b)"
  by (auto simp: check_one_cases Let_def passed_def health_url_def apply_scrape_eq reset_scraped_def
      split: option.split prod.split)

lemma probe_view_step:
  "probe_view b = probe_view b' \<Longrightarrow> probe_view (apply_probe_result cfg r b) = probe_view (apply_probe_result cfg r b')"
  by (simp add: apply_probe_result_fields)

lemma health_checker_snoc:
  "health_checker cfg (ticks @ [t]) p = health_round cfg (fst t) (snd t) (health_checker cfg ticks p)"
  by (simp add: health_checker_def split_def)

lemma health_checker_view:
  assumes "i < length (backends p)"
  shows "length (backends (health_checker cfg ticks p)) = length (backends p)"
    "url (backends (health_checker cfg ticks p) ! i) = url (backends p ! i)"
    "probe_view (backends (health_checker cfg ticks p) ! i) =
       probe_view (probe_run cfg (map (passed (url (backends p ! i))) ticks) (backends p ! i))"
proof (induction ticks rule: rev_induct)
  case (snoc t ticks)
  let ?b = "backends (health_checker cfg ticks p) ! i" and ?u = "url (backends p ! i)"
  have b: "backends (health_checker cfg (ticks @ [t]) p) ! i = check_one cfg (fst t) (snd t) ?b"
    using snoc(1) assms by (simp add: health_checker_snoc health_round_def)
  case 1 show ?case using snoc(1) by (simp add: health_checker_snoc health_round_def)
  case 2 show ?case using snoc(2) by (simp add: b frame_simps)
  case 3
  have "probe_view (check_one cfg (fst t) (snd t) ?b) = probe_view (apply_probe_result cfg (passed ?u t) ?b)"
    using check_one_view [of cfg "fst t" "snd t" ?b] snoc(2) by simp
  also have "\<dots> = probe_view (apply_probe_result cfg (passed ?u t) (probe_run cfg (map (passed ?u) ticks) (backends p ! i)))"
    by (rule probe_view_step) (rule snoc(3))
  finally show ?case by (simp add: b probe_run_snoc)
qed (simp_all add: health_checker_def probe_run_def)

section \<open>Properties\<close>

text \<open>
  C23. Hysteresis. After any number of ticks of the checker, a passed probe makes the backend
  healthy iff it was healthy or the last \<open>healthy_threshold\<close> results passed, and a failed probe
  leaves it healthy iff it was healthy and fewer than \<open>unhealthy_threshold\<close> results in a row
  failed. So as soon as as many ticks in a row as the greater threshold agree, the flag says
  what they say, whatever came before.
\<close>

theorem health_hysteresis:
  assumes "i < length (backends p)" "backends p ! i = new_backend k u w cb" "length ticks < 2 ^ 64 - 1"
  shows "let flag = (\<lambda>ts. healthy (backends (health_checker cfg ts p) ! i));
      results = map (passed u) (ticks @ [t]) in
    flag (ticks @ [t]) =
      (if passed u t then flag ticks \<or> unat (healthy_threshold cfg) \<le> streak True results
       else flag ticks \<and> streak False results < unat (unhealthy_threshold cfg)) \<and>
    (max (unat (healthy_threshold cfg)) (unat (unhealthy_threshold cfg)) \<le> streak (passed u t) results \<longrightarrow>
      flag (ticks @ [t]) = passed u t)"
proof -
  let ?b = "new_backend k u w cb" and ?h = "map (passed u) ticks"
  have view: "healthy (backends (health_checker cfg ts p) ! i) = healthy (probe_run cfg (map (passed u) ts) ?b)" for ts
    using health_checker_view(3) [OF assms(1), of cfg ts] assms(2) by (simp add: new_backend_def)
  have "healthy (probe_run cfg (?h @ [passed u t]) ?b) =
      (if passed u t then healthy (probe_run cfg ?h ?b) \<or> unat (healthy_threshold cfg) \<le> streak True (?h @ [passed u t])
       else healthy (probe_run cfg ?h ?b) \<and> \<not> unat (unhealthy_threshold cfg) \<le> streak False (?h @ [passed u t]))"
    using assms(3) by (intro hysteresis_step) (simp_all add: new_backend_def)
  then show ?thesis by (cases "passed u t") (simp_all add: Let_def view not_le)
qed

text \<open>
  C25. What a scrape stores. The queue depth is the sum of the non-negative parts of all
  series named \<open>vllm:num_requests_waiting\<close>, truncated to \<open>u64\<close>; the cache usage is the
  greatest clamped ratio of the series with either cache name, in basis points, and never
  above 10000. A metric that does not occur is stored as 0; nothing else changes.
\<close>

theorem scrape_stores:
  "unat (kv_cache_usage_bp (apply_scrape t b)) \<le> 10000 \<and>
   apply_scrape t b = b\<lparr>
     queue_depth := (case queue_total (series queue_names (lines t)) of Some q \<Rightarrow> u64_of_f64 q | None \<Rightarrow> 0),
     kv_cache_usage_bp :=
       (case kv_max (series kv_names (lines t)) of Some k \<Rightarrow> u64_of_f64 (mul_f64 k (Fin 10000)) | None \<Rightarrow> 0)\<rparr>"
  using apply_scrape_bound apply_scrape_eq by blast

text \<open>
  C24. No stale load. Once a probe passes, or fails on a backend that is then down, the scraped
  values after the check do not depend on the ones before it. Only a failed probe below the
  threshold keeps them.
\<close>

theorem no_stale_scrape:
  assumes "get_health (health_url b) \<in> Some ` Collect is_success \<or>
    \<not> healthy (check_one cfg get_health get_metrics b)"
  shows "check_one cfg get_health get_metrics (b\<lparr>queue_depth := q, kv_cache_usage_bp := k\<rparr>) =
    check_one cfg get_health get_metrics b"
proof -
  let ?b = "b\<lparr>queue_depth := q, kv_cache_usage_bp := k\<rparr>"
  have apr: "apply_probe_result cfg r ?b = (apply_probe_result cfg r b)\<lparr>queue_depth := q, kv_cache_usage_bp := k\<rparr>" for r
    by (simp add: apply_probe_result_def Let_def mark_healthy_def mark_unhealthy_def is_healthy_def)
  have urls: "health_url ?b = health_url b" "metrics_url ?b = metrics_url b"
    by (simp_all add: health_url_def metrics_url_def)
  have "\<not> healthy (apply_probe_result cfg False b)"
    if "get_health (health_url b) \<notin> Some ` Collect is_success"
    using assms that by (auto simp: check_one_cases Let_def split: if_splits)
  then show ?thesis
    unfolding check_one_cases [of _ _ _ ?b] check_one_cases [of _ _ _ b] urls Let_def apr
    by (auto simp: apply_scrape_eq reset_scraped_def split: option.split)
qed

definition one_shot_config :: health_check_config where
  "one_shot_config = \<lparr>interval_secs = 5, unhealthy_threshold = 1, healthy_threshold = 2\<rparr>"

theorem health_hysteresis_witness:
  "\<not> healthy (backends (health_checker one_shot_config [(\<lambda>_. Some 200, \<lambda>_. None), (\<lambda>_. Some 500, \<lambda>_. None)]
     (new_pool [new_backend 0 ''b0'' 1 tiny_breaker] 8)) ! 0)"
  using health_hysteresis [where p = "new_pool [new_backend 0 ''b0'' 1 tiny_breaker] 8" and i = 0 and k = 0
      and u = "''b0''" and w = 1 and cb = tiny_breaker and ticks = "[(\<lambda>_. Some 200, \<lambda>_. None)]"
      and t = "(\<lambda>_. Some 500, \<lambda>_. None)" and cfg = one_shot_config]
  by (simp add: new_pool_def passed_def one_shot_config_def streak_def image_iff is_success_def Let_def)

theorem no_stale_scrape_witness:
  "queue_depth (check_one one_shot_config (\<lambda>_. None) (\<lambda>_. None) (warm_backend\<lparr>queue_depth := 9, kv_cache_usage_bp := 4\<rparr>)) = 0"
proof -
  have down: "\<not> healthy (check_one one_shot_config (\<lambda>_. None) (\<lambda>_. None) warm_backend)"
    by (simp add: check_one_cases Let_def apply_probe_result_fields reset_scraped_def one_shot_config_def
        warm_backend_def new_backend_def)
  have "queue_depth (check_one one_shot_config (\<lambda>_. None) (\<lambda>_. None) warm_backend) = 0"
    by (simp add: check_one_cases Let_def reset_scraped_def frame_simps warm_backend_def new_backend_def)
  then show ?thesis using no_stale_scrape [OF disjI2 [OF down], where q = 9 and k = 4] by simp
qed

end
