(* ===== verification/App.thy ===== *)
theory App
  imports Server Health
begin

text \<open>
  Startup (router-core/src/app.rs): from a configuration to the running state. The HTTP client
  is built by reqwest; whether that succeeds is the argument \<open>client_builds\<close>.

  The theory shows that validation and startup fit together: a validated configuration
  always starts (given a client), in a state that satisfies the invariants of every
  component, and the responses of the running router can be built.
\<close>

definition from_config :: "circuit_breaker_config \<Rightarrow> instant \<Rightarrow> circuit_breaker" where
  "from_config cfg now =
     new_breaker (cbc_failure_rate_threshold cfg) (cbc_min_requests cfg) (cbc_window_secs cfg)
       (cbc_open_duration_secs cfg) now"

definition build_backends :: "(nat \<Rightarrow> instant) \<Rightarrow> router_config \<Rightarrow> backend list" where
  "build_backends ts c =
     map (\<lambda>(i, bc). new_backend i (normalized_url bc) (bc_weight bc) (from_config (cfg_circuit_breaker c) (ts i)))
       (List.enumerate 0 (cfg_backends c))"

datatype app_error = Strategy_failed strategy_error | Client_failed

record app =
  app_routes :: "(string \<times> method_route) list"
  app_start :: app_state

definition build_client :: "(duration \<Rightarrow> duration \<Rightarrow> bool) \<Rightarrow> upstream_config \<Rightarrow> bool" where
  "build_client client_builds u =
     client_builds (from_secs (unat (connect_timeout_secs u))) (from_secs (unat (read_timeout_secs u)))"

definition build_app ::
  "(string \<Rightarrow> string) \<Rightarrow> (duration \<Rightarrow> duration \<Rightarrow> bool) \<Rightarrow> (nat \<Rightarrow> instant) \<Rightarrow> router_config \<Rightarrow>
   app_error + app" where
  "build_app sha256 client_builds ts c =
     (let p = new_pool (build_backends ts c) (max_backend_queue_depth (cfg_backpressure c))
      in case create_strategy sha256 (routing_strategy (cfg_routing c))
                (prefix_token_count (routing_prefix_cache (cfg_routing c))) (pool_len p) of
           Inl e \<Rightarrow> Inl (Strategy_failed e)
         | Inr s \<Rightarrow>
             if \<not> build_client client_builds (cfg_upstream c) then Inl Client_failed
             else
               Inr \<lparr>app_routes = build_router (cfg_metrics c),
                    app_start =
                      \<lparr>shared = \<lparr>pool = p,
                         controller = new_controller (bp_max_in_flight (cfg_backpressure c)), metric_log = []\<rparr>,
                       strategy_obj = s, strategy_name = routing_strategy (cfg_routing c),
                       ewma_alpha = la_alpha (routing_latency_aware (cfg_routing c))\<rparr>\<rparr>)"

section \<open>Startup lemmas\<close>

lemma build_backends_nth:
  "length (build_backends ts c) = length (cfg_backends c)"
  "i < length (cfg_backends c) \<Longrightarrow> build_backends ts c ! i =
     new_backend i (normalized_url (cfg_backends c ! i)) (bc_weight (cfg_backends c ! i))
       (from_config (cfg_circuit_breaker c) (ts i))"
  by (simp_all add: build_backends_def nth_enumerate_eq)

lemma build_backends_mem:
  assumes "b \<in> set (build_backends ts c)"
  shows "\<exists>i < length (cfg_backends c). b = new_backend i (normalized_url (cfg_backends c ! i))
    (bc_weight (cfg_backends c ! i)) (from_config (cfg_circuit_breaker c) (ts i))"
  using assms build_backends_nth by (metis in_set_conv_nth)

lemma build_backends_pool_ok: "pool_ok (new_pool (build_backends ts c) m)"
  by (auto simp: pool_ok_def new_pool_def build_backends_nth new_backend_def from_config_def new_breaker_ok
      dest!: build_backends_mem)

lemma created_ready: "create_strategy sha name ptc n = Inr s \<Longrightarrow> strategy_ready sha n s"
  unfolding strategy_ready_def using created_fits by blast

lemma normalized_url_prefix: "\<exists>rest. bc_url b = normalized_url b @ rest"
proof -
  have "bc_url b = rev (dropWhile P (rev (bc_url b))) @ rev (takeWhile P (rev (bc_url b)))" for P
    by (metis rev_append rev_rev_ident takeWhile_dropWhile_id)
  then show ?thesis unfolding normalized_url_def trim_end_slashes_def by blast
qed

lemma config_ok_strategy:
  assumes "config_ok hv c"
  shows "\<exists>s. create_strategy sha (routing_strategy (cfg_routing c)) ptc n = Inr s"
proof -
  have "routing_strategy (cfg_routing c) \<in> set STRATEGY_NAMES" using assms by (simp add: config_ok_def)
  then show ?thesis by (auto simp: create_strategy_def STRATEGY_NAMES_def)
qed

section \<open>Properties\<close>

text \<open>
  C32. A validated configuration starts. With a client that builds, \<open>build_app\<close> cannot fail on
  a configuration that validation accepted, and it starts in a state where every component
  invariant holds: breakers closed, backend ids equal to positions, nothing in flight, a
  strategy made for this pool, and a smoothing factor in (0, 1].
\<close>

theorem valid_config_starts:
  assumes "config_ok hv c" "length (cfg_backends c) \<le> 2 ^ 32" "build_client client_builds (cfg_upstream c)"
  shows "\<exists>ap. build_app sha client_builds ts c = Inr ap \<and>
    app_ok sha (app_start ap) \<and>
    in_flight (controller (shared (app_start ap))) = 0 \<and>
    (\<forall>b \<in> set (backends (pool (shared (app_start ap)))).
       state (inner (breaker b)) = Closed \<and> active_connections b = 0 \<and> healthy b) \<and>
    unit_interval (ewma_alpha (app_start ap)) \<and> distinct (map fst (app_routes ap))"
proof -
  let ?p = "new_pool (build_backends ts c) (max_backend_queue_depth (cfg_backpressure c))"
  obtain s where s: "create_strategy sha (routing_strategy (cfg_routing c))
      (prefix_token_count (routing_prefix_cache (cfg_routing c))) (pool_len ?p) = Inr s"
    using config_ok_strategy [OF assms(1)] by blast
  have "strategy_ready sha (length (cfg_backends c)) s"
    using created_ready [OF s] by (simp add: pool_len_def new_pool_def build_backends_nth)
  moreover have "pool_ok ?p" by (rule build_backends_pool_ok)
  moreover have "\<forall>b \<in> set (build_backends ts c).
      state (inner (breaker b)) = Closed \<and> active_connections b = 0 \<and> healthy b"
    by (auto simp: new_backend_def from_config_def new_breaker_def dest!: build_backends_mem)
  moreover have "unit_interval (la_alpha (routing_latency_aware (cfg_routing c)))"
    using assms(1) by (simp add: config_ok_def)
  moreover have "distinct (map fst (build_router (cfg_metrics c)))"
    using assms(1) by (auto simp: build_router_def config_ok_def ROUTER_ROUTES_def)
  ultimately show ?thesis using s assms(2,3)
    by (auto simp: build_app_def app_ok_def state_ok_def controller_ok_def in_flight_def new_controller_def
        new_pool_def build_backends_nth)
qed

theorem valid_config_starts_witness:
  "\<exists>ap. build_app sample_sha (\<lambda>c r. 0 < c \<and> 0 < r) (\<lambda>_. 0) (read_config (minimal_document [''http://a:8000/''])) = Inr ap
     \<and> app_ok sample_sha (app_start ap)"
proof -
  let ?c = "read_config (minimal_document [''http://a:8000/''])"
  have "config_ok (\<lambda>_. True) ?c" by (rule minimal_config) simp_all
  moreover have "length (cfg_backends ?c) \<le> 2 ^ 32" by (simp add: read_config_def minimal_document_def)
  moreover have "build_client (\<lambda>c r. 0 < c \<and> 0 < r) (cfg_upstream ?c)"
    by (simp add: build_client_def read_config_def minimal_document_def read_upstream_def the_default_def
        default_connect_timeout_secs_def default_read_timeout_secs_def from_secs_def)
  ultimately show ?thesis using valid_config_starts by blast
qed

text \<open>What \<open>HeaderValue::from_str\<close> accepts stays acceptable when trailing slashes are cut off.\<close>

lemma started_urls_accepted:
  assumes "config_ok hv c" "\<forall>u v. hv (u @ v) \<longrightarrow> hv u"
    and "build_app sha client_builds ts c = Inr ap" "b \<in> set (backends (pool (shared (app_start ap))))"
  shows "hv (url b)"
proof -
  have "b \<in> set (build_backends ts c)"
    using assms(3,4) by (auto simp: build_app_def new_pool_def Let_def split: sum.splits if_splits)
  then obtain i where i: "i < length (cfg_backends c)" "url b = normalized_url (cfg_backends c ! i)"
    using build_backends_mem by (fastforce simp: new_backend_def)
  have "hv (bc_url (cfg_backends c ! i))"
    using assms(1) i(1) by (simp add: config_ok_def backend_config_ok_def)
  then show ?thesis using assms(2) normalized_url_prefix [of "cfg_backends c ! i"] i(2) by metis
qed

text \<open>
  Replies can be built. \<open>HeaderValue::from_str\<close> accepts or rejects byte by byte, so what
  it accepts stays acceptable when trailing slashes are cut off. Then no backend of a started
  router has a URL that makes building a response panic.
\<close>

theorem replies_never_panic:
  assumes "config_ok hv c" "\<forall>u v. hv (u @ v) \<longrightarrow> hv u"
    and "build_app sha client_builds ts c = Inr ap" "b \<in> set (backends (pool (shared (app_start ap))))"
  shows "fst (into_response hv now ts' f (url b) acc w) \<noteq> None"
  using started_urls_accepted [OF assms] by (simp add: into_response_def split_def Let_def)

theorem replies_never_panic_witness:
  "fst (into_response (\<lambda>u. \<forall>ch \<in> set u. 32 \<le> (of_char ch :: nat)) 1 (\<lambda>_. 2) sample_forwarded ''http://a'' lone_guard lone_state) \<noteq> None"
proof -
  let ?hv = "\<lambda>u. \<forall>ch \<in> set u. 32 \<le> (of_char ch :: nat)"
  let ?c = "read_config (minimal_document [''http://a/''])"
  have ok: "config_ok ?hv ?c" by (rule minimal_config) simp_all
  obtain ap where ap: "build_app sample_sha (\<lambda>_ _. True) (\<lambda>_. 0) ?c = Inr ap"
    and bs: "backends (pool (shared (app_start ap))) = build_backends (\<lambda>_. 0) ?c"
  proof -
    obtain s where "create_strategy sample_sha (routing_strategy (cfg_routing ?c))
        (prefix_token_count (routing_prefix_cache (cfg_routing ?c)))
        (pool_len (new_pool (build_backends (\<lambda>_. 0) ?c) (max_backend_queue_depth (cfg_backpressure ?c)))) = Inr s"
      using config_ok_strategy [OF ok] by blast
    then show thesis using that by (simp add: build_app_def build_client_def new_pool_def)
  qed
  have "build_backends (\<lambda>_. 0) ?c ! 0 \<in> set (build_backends (\<lambda>_. 0) ?c)"
    by (rule nth_mem) (simp add: build_backends_nth read_config_def minimal_document_def)
  moreover have "url (build_backends (\<lambda>_. 0) ?c ! 0) = ''http://a''"
    by (simp add: build_backends_nth read_config_def minimal_document_def new_backend_def normalized_url_def
        trim_end_slashes_def read_backend_def)
  ultimately show ?thesis
    using replies_never_panic [OF ok _ ap, of "build_backends (\<lambda>_. 0) ?c ! 0"] bs by simp
qed

end
