(* ===== verification/Breaker_Spec.thy ===== *)
theory Breaker_Spec
  imports Circuit_Breaker
begin

text \<open>
  An abstract circuit breaker, and the proof that the one of circuit_breaker.rs behaves like it.
  The abstract breaker has no ring of buckets, no lazily refreshed state and no machine integers:
  it keeps the log of the verdicts since the circuit prev closed, and whether and when it
  tripped. Called at non-decreasing instants, the two give the same answers to every sequence of
  calls. The unit tests of circuit_breaker.rs (Breaker_Tests) are such sequences.
\<close>

section \<open>Calls\<close>

datatype breaker_call =
  Read_state
| Is_routable
| Try_begin
| Record_success admission
| Record_failure admission
| Abandon admission

datatype answer = State circuit_state | Flag bool | Granted "admission option" | Done

fun call_breaker :: "breaker_call \<Rightarrow> instant \<Rightarrow> circuit_breaker \<Rightarrow> answer \<times> circuit_breaker" where
  "call_breaker Read_state now cb = (case breaker_state now cb of (s, cb') \<Rightarrow> (State s, cb'))"
| "call_breaker Is_routable now cb = (case breaker_is_routable now cb of (r, cb') \<Rightarrow> (Flag r, cb'))"
| "call_breaker Try_begin now cb = (case try_begin now cb of (adm, cb') \<Rightarrow> (Granted adm, cb'))"
| "call_breaker (Record_success adm) now cb = (Done, record_success now adm cb)"
| "call_breaker (Record_failure adm) now cb = (Done, record_failure now adm cb)"
| "call_breaker (Abandon adm) now cb = (Done, abandon adm cb)"

fun breaker_calls :: "(instant \<times> breaker_call) list \<Rightarrow> circuit_breaker \<Rightarrow> answer list" where
  "breaker_calls [] cb = []"
| "breaker_calls ((now, c) # cs) cb = (case call_breaker c now cb of (r, cb') \<Rightarrow> r # breaker_calls cs cb')"

section \<open>The abstract breaker\<close>

record breaker_params =
  spec_threshold :: rat
  spec_min :: nat
  spec_window :: nat
  spec_open :: duration

text \<open>When it tripped and whether the probe is out, since when verdicts are kept, and these.\<close>

record breaker_spec =
  tripped :: "(instant \<times> bool) option"
  since :: instant
  verdicts :: verdict_log

definition phase_at :: "breaker_params \<Rightarrow> instant \<Rightarrow> breaker_spec \<Rightarrow> circuit_state" where
  "phase_at p now sp =
     (case tripped sp of
        None \<Rightarrow> Closed
      | Some (t, _) \<Rightarrow> if spec_open p \<le> now - t then HalfOpen else Open)"

definition probing :: "breaker_spec \<Rightarrow> bool" where
  "probing sp = (case tripped sp of None \<Rightarrow> False | Some (_, pr) \<Rightarrow> pr)"

definition set_probing :: "bool \<Rightarrow> breaker_spec \<Rightarrow> breaker_spec" where
  "set_probing pr sp = sp\<lparr>tripped := map_option (\<lambda>(t, _). (t, pr)) (tripped sp)\<rparr>"

text \<open>At least the minimum of verdicts in the window, and the share of failures, as a quotient in
  binary64, at the threshold or above.\<close>

definition over_threshold :: "breaker_params \<Rightarrow> instant \<Rightarrow> breaker_spec \<Rightarrow> bool" where
  "over_threshold p now sp =
     (let inside = filter (\<lambda>(t, _). in_window (since sp) (spec_window p) now t) (verdicts sp)
      in spec_min p \<le> length inside \<and>
         spec_threshold p \<le> rnd (of_nat (failed_in inside) / of_nat (length inside)))"

definition log_verdict :: "instant \<Rightarrow> bool \<Rightarrow> breaker_spec \<Rightarrow> breaker_spec" where
  "log_verdict now ok sp = sp\<lparr>verdicts := verdicts sp @ [(now, ok)]\<rparr>"

fun spec_call :: "breaker_params \<Rightarrow> breaker_call \<Rightarrow> instant \<Rightarrow> breaker_spec \<Rightarrow> answer \<times> breaker_spec" where
  "spec_call p Read_state now sp = (State (phase_at p now sp), sp)"
| "spec_call p Is_routable now sp =
     (Flag (phase_at p now sp = Closed \<or> phase_at p now sp = HalfOpen \<and> \<not> probing sp), sp)"
| "spec_call p Try_begin now sp =
     (if phase_at p now sp = Closed then (Granted (Some Normal), sp)
      else if phase_at p now sp = HalfOpen \<and> \<not> probing sp then (Granted (Some Probe), set_probing True sp)
      else (Granted None, sp))"
| "spec_call p (Record_success adm) now sp =
     (Done,
      if phase_at p now sp = HalfOpen \<and> adm = Probe
      then \<lparr>tripped = None, since = now, verdicts = [(now, True)]\<rparr>
      else log_verdict now True sp)"
| "spec_call p (Record_failure adm) now sp =
     (Done,
      if phase_at p now sp = HalfOpen \<and> adm = Probe then sp\<lparr>tripped := Some (now, False)\<rparr>
      else
        let sp' = log_verdict now False sp
        in if tripped sp = None \<and> over_threshold p now sp' then sp'\<lparr>tripped := Some (now, False)\<rparr> else sp')"
| "spec_call p (Abandon adm) now sp = (Done, if adm = Probe then set_probing False sp else sp)"

fun spec_calls :: "breaker_params \<Rightarrow> (instant \<times> breaker_call) list \<Rightarrow> breaker_spec \<Rightarrow> answer list" where
  "spec_calls p [] sp = []"
| "spec_calls p ((now, c) # cs) sp = (case spec_call p c now sp of (r, sp') \<Rightarrow> r # spec_calls p cs sp')"

definition new_spec :: "instant \<Rightarrow> breaker_spec" where
  "new_spec t0 = \<lparr>tripped = None, since = t0, verdicts = []\<rparr>"

definition params_of :: "rat \<Rightarrow> u64 \<Rightarrow> u64 \<Rightarrow> u64 \<Rightarrow> breaker_params" where
  "params_of thr min_req window_secs open_secs =
     \<lparr>spec_threshold = thr, spec_min = unat (max min_req 1), spec_window = unat (max window_secs 1),
      spec_open = from_secs (unat open_secs)\<rparr>"

section \<open>The simulation\<close>

definition configured :: "breaker_params \<Rightarrow> circuit_breaker \<Rightarrow> bool" where
  "configured p cb \<longleftrightarrow>
     failure_rate_threshold cb = Fin (spec_threshold p) \<and> unat (min_requests cb) = spec_min p \<and>
     0 < min_requests cb \<and> open_duration cb = spec_open p \<and> length (buckets (inner cb)) = spec_window p"

text \<open>The state in memory may lag behind the clock: it is refreshed by the next call that looks.\<close>

definition same_phase :: "breaker_params \<Rightarrow> instant \<Rightarrow> breaker_spec \<Rightarrow> inner \<Rightarrow> bool" where
  "same_phase p prev sp s \<longleftrightarrow>
     (case tripped sp of
        None \<Rightarrow> state s = Closed \<and> \<not> probe_in_flight s
      | Some (t, pr) \<Rightarrow> opened_at s = Some t \<and> probe_in_flight s = pr \<and>
          (state s = Open \<and> \<not> pr \<or> state s = HalfOpen \<and> spec_open p \<le> prev - t))"

definition same_log :: "instant \<Rightarrow> breaker_spec \<Rightarrow> inner \<Rightarrow> bool" where
  "same_log prev sp s \<longleftrightarrow> since sp \<le> prev \<and> (\<exists>c. tracks (since sp) c (verdicts sp) s \<and> c \<le> sec_of (since sp) prev)"

definition simulates :: "breaker_params \<Rightarrow> instant \<Rightarrow> breaker_spec \<Rightarrow> circuit_breaker \<Rightarrow> bool" where
  "simulates p prev sp cb \<longleftrightarrow> configured p cb \<and> same_phase p prev sp (inner cb) \<and> same_log prev sp (inner cb)"

lemma sec_of_mono: "a \<le> b \<Longrightarrow> sec_of t a \<le> sec_of t b"
  by (simp add: sec_of_def as_secs_mono diff_le_mono)

lemma same_log_later: "same_log prev sp s \<Longrightarrow> prev \<le> now \<Longrightarrow> same_log now sp s"
  unfolding same_log_def using sec_of_mono order_trans by blast

lemma same_phase_later: "same_phase p prev sp s \<Longrightarrow> prev \<le> now \<Longrightarrow> same_phase p now sp s"
  by (auto simp: same_phase_def split: option.splits)

lemma same_log_cong:
  assumes "buckets s' = buckets s" "head s' = head s" "head_start s' = head_start s"
    and "since sp' = since sp" "verdicts sp' = verdicts sp"
  shows "same_log prev sp' s' = same_log prev sp s"
  using tracks_cong [OF assms(1-3)] assms(4,5) by (simp add: same_log_def)

lemma same_log_refreshed [simp]: "same_log prev sp (refreshed now cb) = same_log prev sp (inner cb)"
  by (rule same_log_cong) (simp_all add: frame_simps)

lemma same_phase_cong:
  assumes "state s' = state s" "opened_at s' = opened_at s" "probe_in_flight s' = probe_in_flight s"
    and "tripped sp' = tripped sp"
  shows "same_phase p now sp' s' = same_phase p now sp s"
  unfolding same_phase_def assms ..

text \<open>The refresh brings the state in memory up to date.\<close>

lemma refreshed_phase:
  assumes "simulates p prev sp cb" "prev \<le> now"
  shows "state (refreshed now cb) = phase_at p now sp" "probe_in_flight (refreshed now cb) = probing sp"
    "same_phase p now sp (refreshed now cb)"
proof -
  have ph: "same_phase p prev sp (inner cb)" and d: "open_duration cb = spec_open p"
    using assms(1) by (simp_all add: simulates_def configured_def)
  show st: "state (refreshed now cb) = phase_at p now sp"
  proof (cases "tripped sp")
    case None
    then show ?thesis using ph by (simp add: same_phase_def phase_at_def refreshed_state)
  next
    case (Some x)
    obtain t pr where x: "x = (t, pr)" by fastforce
    have "spec_open p \<le> now - t" if "spec_open p \<le> prev - t" using that assms(2) by linarith
    then show ?thesis using ph Some d by (auto simp: x same_phase_def phase_at_def refreshed_state)
  qed
  show "probe_in_flight (refreshed now cb) = probing sp"
    using ph by (auto simp: same_phase_def probing_def frame_simps split: option.splits)
  show "same_phase p now sp (refreshed now cb)"
  proof (cases "tripped sp")
    case None
    then show ?thesis using ph by (simp add: same_phase_def refreshed_state frame_simps)
  next
    case (Some x)
    then show ?thesis using ph st same_phase_later [OF ph assms(2)]
      by (auto simp: same_phase_def phase_at_def frame_simps split: if_splits)
  qed
qed

lemma rotated_log:
  assumes "same_log prev sp s" "prev \<le> now"
  shows "since sp \<le> now" "tracks (since sp) (sec_of (since sp) now) (verdicts sp) (rotate now s)"
proof -
  obtain c where c: "tracks (since sp) c (verdicts sp) s" "c \<le> sec_of (since sp) now" and le: "since sp \<le> now"
    using same_log_later [OF assms] by (auto simp: same_log_def)
  show "since sp \<le> now" by (rule le)
  show "tracks (since sp) (sec_of (since sp) now) (verdicts sp) (rotate now s)"
    using c(1) le c(2) by (rule tracks_rotate)
qed

lemma tracks_clear: "window_ok s \<Longrightarrow> tracks now 0 [] (clear now s)"
  by (auto simp: tracks_def window_clear) (simp add: clear_def)

lemma same_logI:
  "tracks (since sp) (sec_of (since sp) now) (verdicts sp) s \<Longrightarrow> since sp \<le> now \<Longrightarrow> same_log now sp s"
  by (auto simp: same_log_def)

lemma configured_ops:
  assumes "configured p cb"
  shows "configured p (snd (breaker_state now cb))" "configured p (snd (breaker_is_routable now cb))"
    "configured p (snd (try_begin now cb))" "configured p (record_success now adm cb)"
    "configured p (record_failure now adm cb)" "configured p (abandon adm cb)"
proof -
  show "configured p (record_success now adm cb)"
    using assms by (auto simp: configured_def record_success_def Let_def frame_simps)
  show "configured p (record_failure now adm cb)"
    using assms by (auto simp: configured_def record_failure_def Let_def frame_simps)
  show "configured p (snd (breaker_state now cb))" "configured p (snd (breaker_is_routable now cb))"
    "configured p (abandon adm cb)"
    using assms by (auto simp: configured_def breaker_state_def breaker_is_routable_def abandon_def Let_def frame_simps)
  show "configured p (snd (try_begin now cb))"
    using assms by (cases "state (refreshed now cb)") (auto simp: configured_def try_begin_def Let_def frame_simps)
qed

lemma trip_decision:
  assumes "configured p cb" "tracks (since sp) (sec_of (since sp) now) (verdicts sp) s"
    and "length (buckets s) = spec_window p" "length (verdicts sp) \<le> 2 ^ 53"
  shows "should_trip cb s = over_threshold p now sp"
proof -
  let ?in = "filter (\<lambda>(t, _). in_window (since sp) (spec_window p) now t) (verdicts sp)"
  have "totals s = (of_nat (failed_in ?in), of_nat (length ?in))"
    using tracks_totals [OF assms(2)] assms(3) by (simp add: split_def conj_commute)
  moreover have "length ?in \<le> 2 ^ 53" using assms(4) length_filter_le le_trans by blast
  ultimately show ?thesis
    using should_trip_rate [of cb "spec_threshold p" s "failed_in ?in" "length ?in"] assms(1) length_filter_le [of _ ?in]
    by (simp add: configured_def over_threshold_def Let_def del: filter_filter)
qed

lemma simulates_new: "simulates (params_of thr mr w od) t0 (new_spec t0) (new_breaker (Fin thr) mr w od t0)"
proof -
  have "same_log t0 (new_spec t0) (inner (new_breaker (Fin thr) mr w od t0))"
    using tracks_new [of t0 "Fin thr" mr w od] unfolding same_log_def
    by (intro conjI exI [of _ 0]) (simp_all add: new_spec_def)
  then show ?thesis
    by (simp add: simulates_def configured_def same_phase_def new_spec_def params_of_def new_breaker_fields)
      (simp add: new_breaker_def)
qed

lemma simulates_success:
  assumes "simulates p prev sp cb" "prev \<le> now"
  shows "simulates p now (snd (spec_call p (Record_success adm) now sp)) (record_success now adm cb)"
proof -
  let ?s = "rotate now (refreshed now cb)"
  note ph = refreshed_phase [OF assms]
  have "same_log prev sp (refreshed now cb)" and cfg: "configured p (record_success now adm cb)"
    using assms(1) configured_ops(4) by (simp_all add: simulates_def)
  note rot = rotated_log [OF this(1) assms(2)]
  show ?thesis
  proof (cases "phase_at p now sp = HalfOpen \<and> adm = Probe")
    case True
    have "window_ok ?s" using rot(2) by (simp add: tracks_def)
    then have "tracks now 0 [] (clear now (?s\<lparr>state := Closed, opened_at := None\<rparr>))" by (intro tracks_clear) simp
    then have "tracks now 0 [] ((clear now (?s\<lparr>state := Closed, opened_at := None\<rparr>))\<lparr>probe_in_flight := False\<rparr>)"
      using tracks_cong [of "(clear now (?s\<lparr>state := Closed, opened_at := None\<rparr>))\<lparr>probe_in_flight := False\<rparr>"] by simp
    from tracks_bump(1) [of now now "[]" "(clear now (?s\<lparr>state := Closed, opened_at := None\<rparr>))\<lparr>probe_in_flight := False\<rparr>"] this
    have "tracks now 0 [(now, True)] (inner (record_success now adm cb))"
      using True ph(1) by (simp add: record_success_def Let_def frame_simps sec_of_def as_secs_def)
    then show ?thesis using True cfg ph(1)
      by (auto simp: simulates_def same_phase_def same_log_def record_success_state sec_of_def)
  next
    case False
    then have "inner (record_success now adm cb) = bump_success ?s"
      using ph(1) by (auto simp: record_success_def Let_def frame_simps)
    moreover have "same_log now (log_verdict now True sp) (bump_success ?s)"
      using tracks_bump(1) [OF rot(2)] rot(1) by (intro same_logI) (simp_all add: log_verdict_def)
    moreover have "same_phase p now (log_verdict now True sp) (bump_success ?s)"
      using ph(3) by (subst same_phase_cong [where s = "refreshed now cb" and sp = sp]) (simp_all add: log_verdict_def frame_simps)
    ultimately show ?thesis using False cfg by (auto simp: simulates_def)
  qed
qed

lemma simulates_failure:
  assumes "simulates p prev sp cb" "prev \<le> now" "length (verdicts sp) < 2 ^ 53"
  shows "simulates p now (snd (spec_call p (Record_failure adm) now sp)) (record_failure now adm cb)"
proof -
  let ?s = "rotate now (refreshed now cb)"
  note ph = refreshed_phase [OF assms(1,2)]
  have "same_log prev sp (refreshed now cb)" and cfg: "configured p (record_failure now adm cb)" and cfg0: "configured p cb"
    using assms(1) configured_ops(5) by (simp_all add: simulates_def)
  note rot = rotated_log [OF this(1) assms(2)]
  show ?thesis
  proof (cases "phase_at p now sp = HalfOpen \<and> adm = Probe")
    case True
    then have "inner (record_failure now adm cb) = ?s\<lparr>state := Open, opened_at := Some now, probe_in_flight := False\<rparr>"
      using ph(1) by (simp add: record_failure_def Let_def frame_simps)
    moreover have "same_log now (sp\<lparr>tripped := Some (now, False)\<rparr>) (?s\<lparr>state := Open, opened_at := Some now, probe_in_flight := False\<rparr>)"
      using same_logI [OF rot(2,1)] by (subst same_log_cong [where s = ?s and sp = sp]) simp_all
    ultimately show ?thesis using True cfg by (simp add: simulates_def same_phase_def)
  next
    case False
    let ?sp = "log_verdict now False sp" and ?b = "bump_failure ?s"
    have tr: "tracks (since ?sp) (sec_of (since ?sp) now) (verdicts ?sp) ?b"
      using tracks_bump(2) [OF rot(2)] by (simp add: log_verdict_def)
    have "length (buckets ?b) = spec_window p" using cfg0 by (simp add: configured_def frame_simps)
    then have trip: "should_trip cb ?b = over_threshold p now ?sp"
      using trip_decision [OF cfg0 tr] assms(3) by (simp add: log_verdict_def)
    have log: "same_log now ?sp ?b" using tr rot(1) by (intro same_logI) (simp_all add: log_verdict_def)
    have st: "state ?b = phase_at p now sp" using ph(1) by (simp add: frame_simps)
    have closed: "phase_at p now sp = Closed \<longleftrightarrow> tripped sp = None"
      by (auto simp: phase_at_def split: option.split)
    have inner: "inner (record_failure now adm cb) =
        (if tripped sp = None \<and> over_threshold p now ?sp then ?b\<lparr>state := Open, opened_at := Some now\<rparr> else ?b)"
      using False ph(1) st trip closed by (auto simp: record_failure_def Let_def frame_simps)
    show ?thesis
    proof (cases "tripped sp = None \<and> over_threshold p now ?sp")
      case True
      have "same_log now (?sp\<lparr>tripped := Some (now, False)\<rparr>) (?b\<lparr>state := Open, opened_at := Some now\<rparr>)"
        using log by (subst same_log_cong [where s = ?b and sp = ?sp]) simp_all
      moreover have "\<not> probe_in_flight ?b" using ph(2) True by (simp add: frame_simps probing_def)
      ultimately show ?thesis using True False inner cfg
        by (auto simp: simulates_def same_phase_def Let_def log_verdict_def)
    next
      case no_trip: False
      have "same_phase p now ?sp ?b" 
        using ph(3) by (subst same_phase_cong [where s = "refreshed now cb" and sp = sp]) (simp_all add: log_verdict_def frame_simps)
      then show ?thesis using no_trip False inner cfg log by (auto simp: simulates_def Let_def log_verdict_def)
    qed
  qed
qed

lemma simulates_call:
  assumes "simulates p prev sp cb" "prev \<le> now" "length (verdicts sp) < 2 ^ 53"
  shows "fst (call_breaker c now cb) = fst (spec_call p c now sp) \<and>
    simulates p now (snd (spec_call p c now sp)) (snd (call_breaker c now cb))"
proof -
  note ph = refreshed_phase [OF assms(1,2)]
  have log: "same_log now sp (inner cb)" and cfg: "configured p cb"
    using assms same_log_later by (auto simp: simulates_def)
  note conf = configured_ops [OF cfg]
  show ?thesis
  proof (cases c)
    case Read_state
    then show ?thesis using ph log conf(1) [of now] by (simp add: breaker_state_def simulates_def Let_def)
  next
    case Is_routable
    then show ?thesis using ph log conf(2) [of now]
      by (cases "phase_at p now sp") (simp_all add: breaker_is_routable_def simulates_def Let_def)
  next
    case Try_begin
    have "simulates p now (set_probing True sp) (cb\<lparr>inner := (refreshed now cb)\<lparr>probe_in_flight := True\<rparr>\<rparr>)"
      if "phase_at p now sp = HalfOpen"
    proof -
      have "same_log now (set_probing True sp) ((refreshed now cb)\<lparr>probe_in_flight := True\<rparr>)"
        using log by (subst same_log_cong [where s = "refreshed now cb" and sp = sp]) (simp_all add: set_probing_def)
      moreover have "same_phase p now (set_probing True sp) ((refreshed now cb)\<lparr>probe_in_flight := True\<rparr>)"
        using ph(1,3) that by (auto simp: same_phase_def set_probing_def split: option.splits)
      ultimately show ?thesis using cfg by (simp add: simulates_def configured_def frame_simps)
    qed
    then show ?thesis using Try_begin ph log conf(3) [of now]
      by (cases "phase_at p now sp") (auto simp: try_begin_def simulates_def Let_def)
  next
    case (Record_success adm)
    then show ?thesis using simulates_success [OF assms(1,2), of adm] by simp
  next
    case (Record_failure adm)
    then show ?thesis using simulates_failure [OF assms, of adm] by simp
  next
    case (Abandon adm)
    have "simulates p now (set_probing False sp) (abandon Probe cb)"
    proof -
      have "same_log now (set_probing False sp) (inner (abandon Probe cb))"
        using log by (subst same_log_cong [where s = "inner cb" and sp = sp]) (simp_all add: set_probing_def abandon_def)
      moreover have "same_phase p now sp (inner cb)"
        using assms same_phase_later by (auto simp: simulates_def)
      then have "same_phase p now (set_probing False sp) (inner (abandon Probe cb))"
        by (auto simp: same_phase_def set_probing_def abandon_def split: option.splits)
      ultimately show ?thesis using conf(6) by (simp add: simulates_def)
    qed
    moreover have "simulates p now sp cb" using assms log same_phase_later by (auto simp: simulates_def)
    ultimately show ?thesis using Abandon by (cases adm) (simp_all add: abandon_def)
  qed
qed

lemma spec_call_log: "length (verdicts (snd (spec_call p c now sp))) \<le> Suc (length (verdicts sp))"
  by (cases c) (auto simp: log_verdict_def set_probing_def Let_def)

lemma simulates_calls:
  assumes "simulates p prev sp cb" "sorted (prev # map fst cs)" "length (verdicts sp) + length cs \<le> 2 ^ 53"
  shows "breaker_calls cs cb = spec_calls p cs sp"
  using assms
proof (induction cs arbitrary: prev sp cb)
  case (Cons x cs)
  obtain now c where x: "x = (now, c)" by fastforce
  have "prev \<le> now" "length (verdicts sp) < 2 ^ 53" using Cons.prems x by simp_all
  note step = simulates_call [OF Cons.prems(1) this, of c]
  have "breaker_calls cs (snd (call_breaker c now cb)) = spec_calls p cs (snd (spec_call p c now sp))"
    using step Cons.prems spec_call_log [of p c now sp] x by (intro Cons.IH [of now]) simp_all
  then show ?case using step by (simp add: x split_def)
qed simp

section \<open>Properties\<close>

text \<open>
  C9. The breaker is its specification. Called at non-decreasing instants, the breaker with its
  ring of one-second buckets, its lazily refreshed state, its 64-bit counters and its quotient of
  floating-point numbers answers every sequence of calls (readings of the state, questions
  whether it is routable, attempts to begin, verdicts of ordinary requests and of probes,
  abandoned probes) exactly as the abstract breaker does, which only keeps when it tripped,
  whether the probe is out, and the log of verdicts since it last closed.
\<close>

theorem breaker_refines_spec:
  assumes "sorted (t0 # map fst cs)" "length cs \<le> 2 ^ 53"
  shows "breaker_calls cs (new_breaker (Fin thr) mr w od t0) = spec_calls (params_of thr mr w od) cs (new_spec t0)"
  using simulates_calls [OF simulates_new assms(1)] assms(2) by (simp add: new_spec_def)

text \<open>At the threshold one half the quotient needs no rounding.\<close>

lemma over_threshold_half:
  assumes "spec_threshold p = 1 / 2" "0 < spec_min p" "length (verdicts sp) \<le> 2 ^ 53"
  shows "over_threshold p now sp \<longleftrightarrow>
    (let inside = filter (\<lambda>(t, _). in_window (since sp) (spec_window p) now t) (verdicts sp)
     in spec_min p \<le> length inside \<and> length inside \<le> 2 * failed_in inside)"
proof -
  let ?in = "filter (\<lambda>(t, _). in_window (since sp) (spec_window p) now t) (verdicts sp)"
  have "length ?in \<le> 2 ^ 53" using assms(3) length_filter_le le_trans by blast
  then show ?thesis
    using ratio_half_exact [of "length ?in" "failed_in ?in"] assms(1,2) length_filter_le [of _ ?in]
    by (cases "0 < length ?in") (auto simp: over_threshold_def Let_def simp del: filter_filter)
qed

lemmas spec_eval = phase_at_def probing_def set_probing_def log_verdict_def new_spec_def over_threshold_half
  in_window_def sec_of_def as_secs_def from_secs_def

lemma params_eval: "0 < mr \<Longrightarrow> 0 < w \<Longrightarrow> params_of thr mr w od =
    \<lparr>spec_threshold = thr, spec_min = unat mr, spec_window = unat w, spec_open = from_secs (unat od)\<rparr>"
  by (simp add: params_of_def max_def word_le_nat_alt word_less_nat_alt)

theorem breaker_refines_spec_witness:
  "breaker_calls [(0, Record_failure Normal), (1, Is_routable), (from_secs 30, Try_begin), (from_secs 30, Try_begin)]
     (new_breaker (Fin (1 / 2)) 1 60 30 0) = [Done, Flag False, Granted (Some Probe), Granted None]"
  by (subst breaker_refines_spec) (simp_all add: params_eval spec_eval word_less_nat_alt)

end
