(* ===== verification/Breaker_Tests.thy ===== *)
theory Breaker_Tests
  imports Breaker_Spec
begin

text \<open>
  The unit tests of circuit_breaker.rs, run on the model. A test is a script of calls on one
  breaker, some with the answer they must get, and of moves of the test clock; the system clock
  itself is taken to stand still during a test, at whatever instant the test runs. Every test passes: the scripts are evaluated on
  the abstract breaker, which answers as the modelled one does.
\<close>

section \<open>Scripts\<close>

datatype test_step =
  Call breaker_call
| Expect breaker_call answer
| Expect_admitted
| Advance duration

fun passes :: "test_step list \<Rightarrow> instant \<Rightarrow> circuit_breaker \<Rightarrow> bool" where
  "passes [] now cb = True"
| "passes (Call c # steps) now cb = passes steps now (snd (call_breaker c now cb))"
| "passes (Expect c r # steps) now cb =
     (fst (call_breaker c now cb) = r \<and> passes steps now (snd (call_breaker c now cb)))"
| "passes (Expect_admitted # steps) now cb =
     (fst (try_begin now cb) \<noteq> None \<and> passes steps now (snd (try_begin now cb)))"
| "passes (Advance by_dur # steps) now cb = passes steps (now + by_dur) cb"

fun spec_passes :: "breaker_params \<Rightarrow> test_step list \<Rightarrow> instant \<Rightarrow> breaker_spec \<Rightarrow> bool" where
  "spec_passes p [] now sp = True"
| "spec_passes p (Call c # steps) now sp = spec_passes p steps now (snd (spec_call p c now sp))"
| "spec_passes p (Expect c r # steps) now sp =
     (fst (spec_call p c now sp) = r \<and> spec_passes p steps now (snd (spec_call p c now sp)))"
| "spec_passes p (Expect_admitted # steps) now sp =
     (fst (spec_call p Try_begin now sp) \<noteq> Granted None \<and>
      spec_passes p steps now (snd (spec_call p Try_begin now sp)))"
| "spec_passes p (Advance by_dur # steps) now sp = spec_passes p steps (now + by_dur) sp"

lemma passes_spec:
  assumes "simulates p prev sp cb" "prev \<le> now" "length (verdicts sp) + length steps < 2 ^ 53"
  shows "passes steps now cb = spec_passes p steps now sp"
  using assms
proof (induction steps now cb arbitrary: prev sp rule: passes.induct)
  case (2 c steps now cb)
  have "length (verdicts sp) < 2 ^ 53" using 2(4) by simp
  note step = simulates_call [OF 2(2,3) this, of c]
  show ?case using 2(1) [of now "snd (spec_call p c now sp)"] step 2(4) spec_call_log [of p c now sp] by simp
next
  case (3 c r steps now cb)
  have "length (verdicts sp) < 2 ^ 53" using 3(4) by simp
  note step = simulates_call [OF 3(2,3) this, of c]
  show ?case using 3(1) [of now "snd (spec_call p c now sp)"] step 3(4) spec_call_log [of p c now sp] by auto
next
  case (4 steps now cb)
  have "length (verdicts sp) < 2 ^ 53" using 4(4) by simp
  note step = simulates_call [OF 4(2,3) this, of Try_begin]
  have "fst (spec_call p Try_begin now sp) = Granted (fst (try_begin now cb))"
    "simulates p now (snd (spec_call p Try_begin now sp)) (snd (try_begin now cb))"
    using step by (simp_all add: split_def)
  then show ?case using 4(1) [of now "snd (spec_call p Try_begin now sp)"] 4(4) spec_call_log [of p Try_begin now sp]
    by (simp del: spec_call.simps)
next
  case (5 by_dur steps now cb)
  have "prev \<le> now + by_dur" using 5(3) by simp
  from 5(1) [OF 5(2) this] 5(4) show ?case by simp
qed simp

lemma passes_new:
  assumes "length steps < 2 ^ 53"
  shows "passes steps t (new_breaker (Fin thr) mr w od t) = spec_passes (params_of thr mr w od) steps t (new_spec t)"
  using passes_spec [OF simulates_new, of t t steps] assms by (simp add: new_spec_def)

section \<open>The tests\<close>

text \<open>50 percent over at least 4 requests, a window of 60 s, open for 30 s.\<close>

definition test_breaker :: "instant \<Rightarrow> circuit_breaker" where
  "test_breaker now = new_breaker (Fin (1 / 2)) 4 60 30 now"

definition trip :: "test_step list" where
  "trip =
     [Call (Record_success Normal), Call (Record_failure Normal), Call (Record_failure Normal),
      Call (Record_failure Normal), Expect Read_state (State Open)]"

definition starts_closed_and_routable :: "instant \<Rightarrow> bool" where
  "starts_closed_and_routable now =
     passes [Expect Read_state (State Closed), Expect Is_routable (Flag True), Expect_admitted] now (test_breaker now)"

definition opens_at_threshold :: "instant \<Rightarrow> bool" where
  "opens_at_threshold now =
     passes (trip @ [Expect Is_routable (Flag False), Expect Try_begin (Granted None)]) now (test_breaker now)"

definition stays_closed_below_min_requests :: "instant \<Rightarrow> bool" where
  "stays_closed_below_min_requests now =
     passes (replicate 5 (Call (Record_failure Normal)) @ [Expect Read_state (State Closed)]) now
       (new_breaker (Fin (1 / 2)) 10 60 30 now)"

definition half_open_after_open_duration :: "instant \<Rightarrow> bool" where
  "half_open_after_open_duration now =
     passes (trip @
       [Advance (from_secs 29), Expect Read_state (State Open),
        Advance (from_secs 2), Expect Read_state (State HalfOpen), Expect Is_routable (Flag True)]) now (test_breaker now)"

definition half_open_admits_exactly_one_probe :: "instant \<Rightarrow> bool" where
  "half_open_admits_exactly_one_probe now =
     passes (trip @
       [Advance (from_secs 31), Expect Try_begin (Granted (Some Probe)), Expect Try_begin (Granted None),
        Expect Is_routable (Flag False), Call (Abandon Probe), Expect Is_routable (Flag True),
        Expect Try_begin (Granted (Some Probe))]) now (test_breaker now)"

definition probe_success_closes_and_resets_window :: "instant \<Rightarrow> bool" where
  "probe_success_closes_and_resets_window now =
     passes (trip @
       [Advance (from_secs 31), Expect Try_begin (Granted (Some Probe)), Call (Record_success Probe),
        Expect Read_state (State Closed), Expect Try_begin (Granted (Some Normal)),
        Call (Record_failure Normal), Expect Read_state (State Closed)]) now (test_breaker now)"

definition probe_failure_reopens_for_another_open_duration :: "instant \<Rightarrow> bool" where
  "probe_failure_reopens_for_another_open_duration now =
     passes (trip @
       [Advance (from_secs 31), Expect Try_begin (Granted (Some Probe)), Call (Record_failure Probe),
        Expect Read_state (State Open), Advance (from_secs 29), Expect Read_state (State Open),
        Advance (from_secs 2), Expect Read_state (State HalfOpen)]) now (test_breaker now)"

definition sliding_window_forgets_old_failures :: "instant \<Rightarrow> bool" where
  "sliding_window_forgets_old_failures now =
     passes (replicate 3 (Call (Record_failure Normal)) @
       [Advance (from_secs 61), Call (Record_failure Normal), Expect Read_state (State Closed)]) now (test_breaker now)"

definition sliding_window_keeps_recent_failures :: "instant \<Rightarrow> bool" where
  "sliding_window_keeps_recent_failures now =
     passes (replicate 2 (Call (Record_failure Normal)) @
       [Advance (from_secs 30), Call (Record_success Normal), Call (Record_failure Normal),
        Expect Read_state (State Open)]) now (test_breaker now)"

definition abandoned_probe_is_handed_back_without_a_verdict :: "instant \<Rightarrow> bool" where
  "abandoned_probe_is_handed_back_without_a_verdict now =
     passes (trip @
       [Advance (from_secs 31), Expect Try_begin (Granted (Some Probe)), Call (Abandon Probe),
        Expect Read_state (State HalfOpen), Expect Try_begin (Granted (Some Probe))]) now (test_breaker now)"

definition stale_success_during_half_open_does_not_close :: "instant \<Rightarrow> bool" where
  "stale_success_during_half_open_does_not_close now =
     passes (trip @
       [Advance (from_secs 31), Call (Record_success Normal), Expect Read_state (State HalfOpen),
        Expect Try_begin (Granted (Some Probe))]) now (test_breaker now)"

definition stale_disconnect_during_half_open_keeps_the_probe :: "instant \<Rightarrow> bool" where
  "stale_disconnect_during_half_open_keeps_the_probe now =
     passes (trip @
       [Advance (from_secs 31), Expect Try_begin (Granted (Some Probe)), Call (Abandon Normal),
        Expect Is_routable (Flag False), Expect Try_begin (Granted None), Call (Abandon Probe),
        Expect Try_begin (Granted (Some Probe))]) now (test_breaker now)"

definition late_failure_while_open_does_not_extend_the_open_period :: "instant \<Rightarrow> bool" where
  "late_failure_while_open_does_not_extend_the_open_period now =
     passes (trip @
       [Advance (from_secs 20), Call (Record_failure Normal), Advance (from_secs 11),
        Expect Read_state (State HalfOpen)]) now (test_breaker now)"

definition window_keeps_oldest_bucket_at_n_minus_1_and_drops_it_at_n :: "instant \<Rightarrow> bool" where
  "window_keeps_oldest_bucket_at_n_minus_1_and_drops_it_at_n now \<longleftrightarrow>
     passes (replicate 3 (Call (Record_failure Normal)) @
       [Advance (from_secs 9), Call (Record_failure Normal), Expect Read_state (State Open)]) now
       (new_breaker (Fin (1 / 2)) 4 10 30 now) \<and>
     passes (replicate 3 (Call (Record_failure Normal)) @
       [Advance (from_secs 10), Call (Record_failure Normal), Expect Read_state (State Closed)]) now
       (new_breaker (Fin (1 / 2)) 4 10 30 now)"

lemma length_bound: "n < 100 \<Longrightarrow> n < (2 :: nat) ^ 53"
  by simp

lemma passes_new_short:
  "length steps < 100 \<Longrightarrow>
     passes steps t (new_breaker (Fin thr) mr w od t) = spec_passes (params_of thr mr w od) steps t (new_spec t)"
  by (rule passes_new) (rule length_bound)

text \<open>A test is carried over to the abstract breaker, and evaluated there.\<close>

declare passes.simps [simp del]

lemma replicate_small:
  "replicate 2 x = [x, x]" "replicate 3 x = [x, x, x]" "replicate 5 x = [x, x, x, x, x]"
  by (simp_all add: numeral_eq_Suc)

lemmas to_spec = replicate_small test_breaker_def trip_def passes_new_short params_eval word_less_nat_alt

text \<open>Every test passes.\<close>

lemma starts_closed_and_routable_passes: "starts_closed_and_routable now"
  by (simp add: starts_closed_and_routable_def to_spec, simp add: spec_eval)

lemma opens_at_threshold_passes: "opens_at_threshold now"
  by (simp add: opens_at_threshold_def to_spec, simp add: spec_eval)

lemma stays_closed_below_min_requests_passes: "stays_closed_below_min_requests now"
  by (simp add: stays_closed_below_min_requests_def to_spec, simp add: spec_eval)

lemma half_open_after_open_duration_passes: "half_open_after_open_duration now"
  by (simp add: half_open_after_open_duration_def to_spec, simp add: spec_eval)

lemma half_open_admits_exactly_one_probe_passes: "half_open_admits_exactly_one_probe now"
  by (simp add: half_open_admits_exactly_one_probe_def to_spec, simp add: spec_eval)

lemma probe_success_closes_and_resets_window_passes: "probe_success_closes_and_resets_window now"
  by (simp add: probe_success_closes_and_resets_window_def to_spec, simp add: spec_eval)

lemma probe_failure_reopens_for_another_open_duration_passes: "probe_failure_reopens_for_another_open_duration now"
  by (simp add: probe_failure_reopens_for_another_open_duration_def to_spec, simp add: spec_eval)

lemma sliding_window_forgets_old_failures_passes: "sliding_window_forgets_old_failures now"
  by (simp add: sliding_window_forgets_old_failures_def to_spec, simp add: spec_eval)

lemma sliding_window_keeps_recent_failures_passes: "sliding_window_keeps_recent_failures now"
  by (simp add: sliding_window_keeps_recent_failures_def to_spec, simp add: spec_eval)

lemma abandoned_probe_is_handed_back_without_a_verdict_passes: "abandoned_probe_is_handed_back_without_a_verdict now"
  by (simp add: abandoned_probe_is_handed_back_without_a_verdict_def to_spec, simp add: spec_eval)

lemma stale_success_during_half_open_does_not_close_passes: "stale_success_during_half_open_does_not_close now"
  by (simp add: stale_success_during_half_open_does_not_close_def to_spec, simp add: spec_eval)

lemma stale_disconnect_during_half_open_keeps_the_probe_passes: "stale_disconnect_during_half_open_keeps_the_probe now"
  by (simp add: stale_disconnect_during_half_open_keeps_the_probe_def to_spec, simp add: spec_eval)

lemma late_failure_while_open_does_not_extend_the_open_period_passes: "late_failure_while_open_does_not_extend_the_open_period now"
  by (simp add: late_failure_while_open_does_not_extend_the_open_period_def to_spec, simp add: spec_eval)

lemma window_keeps_oldest_bucket_at_n_minus_1_and_drops_it_at_n_passes: "window_keeps_oldest_bucket_at_n_minus_1_and_drops_it_at_n now"
  by (simp add: window_keeps_oldest_bucket_at_n_minus_1_and_drops_it_at_n_def to_spec, simp add: spec_eval)

end
