(* ===== verification/Test_Support.thy ===== *)
theory Test_Support
  imports App Breaker_Tests
begin

text \<open>
  What the unit tests share: the fixtures of \<open>routing::test_support\<close> and of the test modules, and
  the facts about their breakers that the tests are evaluated with. As in Breaker_Tests, the
  system clock stands still during a test, at whatever instant the test runs; a fixture takes
  that instant.
\<close>

section \<open>Fixtures\<close>

definition default_breaker :: "instant \<Rightarrow> circuit_breaker" where
  "default_breaker now = from_config (read_circuit_breaker None) now"

definition test_backends :: "instant \<Rightarrow> nat \<Rightarrow> backend list" where
  "test_backends now n =
     map (\<lambda>i. new_backend i (''http://backend-'' @ show_nat i @ '':8000'') 1 (default_breaker now)) [0..<n]"

definition test_req :: "'v incoming_request" where
  "test_req = \<lparr>req_path = ''/v1/completions'', req_body = None\<rparr>"

section \<open>Breakers of the fixtures\<close>

lemma default_breaker_eq: "default_breaker now = new_breaker (Fin (1 / 2)) 5 60 30 now"
  by (simp add: default_breaker_def from_config_def read_circuit_breaker_def the_default_def default_rate_value
      default_min_requests_def default_window_secs_def default_open_duration_secs_def)

lemma fresh_breaker:
  "fst (breaker_is_routable t (new_breaker thr mr w od t0)) = True"
  "fst (breaker_state t (new_breaker thr mr w od t0)) = Closed"
  by (simp_all add: breaker_results refreshed_state) (simp_all add: new_breaker_def)

end
