(* ===== verification/System.thy ===== *)
theory System
  imports App
begin

text \<open>
  The running router as a transition system: the shared state together with the multiset of
  requests in flight. A step is one atomic operation of one request on the pool, a breaker or the
  permit counter (\<open>task_step\<close>), the arrival of a request, or an operation of the health checker
  or the metrics endpoint (\<open>background_step\<close>). All interleavings are sequences of steps.

  The invariant says that the counters the tasks share are exactly what the tasks hold: the
  in-flight count is the number of slots held, every backend's connection count the number of
  guards on it, and a half-open breaker's probe mark the one request that carries the probe.
\<close>

section \<open>Holdings\<close>

fun permit_held :: "request_task \<Rightarrow> nat" where
  "permit_held (Streaming s) = of_bool (accounting s \<noteq> None)"
| "permit_held (Replied_with st) = 0"
| "permit_held _ = 1"

text \<open>The backend whose connection count includes the request, and the one it probes.\<close>

fun connection_of :: "request_task \<Rightarrow> nat option" where
  "connection_of (Awaiting_backend acc body) = Some (acc_backend acc)"
| "connection_of (Streaming s) = map_option acc_backend (accounting s)"
| "connection_of (Settling s k) =
     (if settling_stage s = End_request then Some (acc_backend (settling_acc s)) else None)"
| "connection_of _ = None"

definition probe_in :: "request_accounting \<Rightarrow> nat option" where
  "probe_in acc = (if acc_admission acc = Probe then Some (acc_backend acc) else None)"

fun probe_of :: "request_task \<Rightarrow> nat option" where
  "probe_of (Starting j adm body) = (if adm = Probe then Some j else None)"
| "probe_of (Awaiting_backend acc body) = probe_in acc"
| "probe_of (Streaming s) = Option.bind (accounting s) probe_in"
| "probe_of (Settling s k) = (if settling_stage s = Close_request then None else probe_in (settling_acc s))"
| "probe_of _ = None"

definition guard_on :: "nat \<Rightarrow> request_task \<Rightarrow> nat" where
  "guard_on i t = of_bool (connection_of t = Some i)"

definition probe_on :: "nat \<Rightarrow> request_task \<Rightarrow> nat" where
  "probe_on i t = of_bool (probe_of t = Some i)"

definition held :: "(request_task \<Rightarrow> nat) \<Rightarrow> request_task multiset \<Rightarrow> nat" where
  "held f T = sum_mset (image_mset f T)"

text \<open>Positions are positions of the pool, and a guard not yet dropped has no verdict.\<close>

fun task_ok :: "nat \<Rightarrow> request_task \<Rightarrow> bool" where
  "task_ok n (Scanning i av body) = (i \<le> n \<and> set av \<subseteq> {..<n})"
| "task_ok n (Checking i av body) = (i < n \<and> set av \<subseteq> {..<n})"
| "task_ok n (Filtering todo av ul body) =
     (set todo \<subseteq> {..<n} \<and> set av \<subseteq> {..<n} \<and> set ul \<subseteq> {..<n} \<and> length todo + length ul \<le> length av)"
| "task_ok n (Selecting cands body) = (set cands \<subseteq> {..<n})"
| "task_ok n (Beginning j cands body) = (j \<in> set cands \<and> set cands \<subseteq> {..<n})"
| "task_ok n (Starting j adm body) = (j < n)"
| "task_ok n (Awaiting_backend acc body) = (acc_backend acc < n \<and> acc_outcome acc = ClientDisconnect)"
| "task_ok n (Streaming s) =
     (\<forall>acc. accounting s = Some acc \<longrightarrow> acc_backend acc < n \<and> acc_outcome acc = ClientDisconnect)"
| "task_ok n (Settling s k) = (acc_backend (settling_acc s) < n)"
| "task_ok n _ = True"

section \<open>Steps\<close>

type_synonym system = "app_state \<times> request_task multiset"

abbreviation choose_with :: "(string \<Rightarrow> string) \<Rightarrow> 'v json_api \<Rightarrow> f64 \<Rightarrow> 'v choice_env" where
  "choose_with sha api draw \<equiv> \<lparr>env_sha256 = sha, env_json = api, env_draw = draw\<rparr>"

text \<open>
  A step of one request, from its task to what is left of it: one task, or none once it is gone.
\<close>

inductive task_step ::
  "(string \<Rightarrow> string) \<Rightarrow> 'v json_api \<Rightarrow> app_state \<times> request_task \<Rightarrow> app_state \<times> request_task multiset \<Rightarrow> bool"
  for sha :: "string \<Rightarrow> string" and api :: "'v json_api"
where
  read_failed: "body_error_status e = (st, reason) \<Longrightarrow> reject st reason a = (t, a') \<Longrightarrow>
    task_step sha api (a, Reading_body) (a', {#t#})"
| read_done: "task_step sha api (a, Reading_body) (a, {#Scanning 0 [] body#})"
| seen_healthy: "i < num_backends (shared a) \<Longrightarrow> is_healthy (app_backend a i) \<Longrightarrow>
    task_step sha api (a, Scanning i av body) (a, {#Checking i av body#})"
| seen_unhealthy: "i < num_backends (shared a) \<Longrightarrow> \<not> is_healthy (app_backend a i) \<Longrightarrow>
    task_step sha api (a, Scanning i av body) (a, {#Scanning (Suc i) av body#})"
| checked: "check_breaker now i a = (r, a') \<Longrightarrow>
    task_step sha api (a, Checking i av body) (a', {#Scanning (Suc i) (if r then av @ [i] else av) body#})"
| scanned: "i = num_backends (shared a) \<Longrightarrow>
    task_step sha api (a, Scanning i av body) (a, {#Filtering av av [] body#})"
| depth_read:
    "ul' = (if queue_depth (app_backend a i) \<le> max_queue_depth (pool (shared a)) then ul @ [i] else ul) \<Longrightarrow>
    task_step sha api (a, Filtering (i # todo) av ul body) (a, {#Filtering todo av ul' body#})"
| filtered: "task_step sha api (a, Filtering [] av ul body) (a, {#Selecting (if ul = [] then av else ul) body#})"
| none_left: "reject 503 ''no_routable_backend'' a = (t, a') \<Longrightarrow>
    task_step sha api (a, Selecting [] body) (a', {#t#})"
| picked: "cands \<noteq> [] \<Longrightarrow> identity_kept see \<Longrightarrow>
    pick_candidate (choose_with sha api draw) see req cands a = (Some j, a') \<Longrightarrow>
    task_step sha api (a, Selecting cands body) (a', {#Beginning j cands body#})"
| pick_failed: "cands \<noteq> [] \<Longrightarrow> identity_kept see \<Longrightarrow>
    pick_candidate (choose_with sha api draw) see req cands a = (None, a1) \<Longrightarrow>
    reject 503 ''no_routable_backend'' a1 = (t, a') \<Longrightarrow>
    task_step sha api (a, Selecting cands body) (a', {#t#})"
| begun: "begin_on now j a = (Some adm, a') \<Longrightarrow>
    task_step sha api (a, Beginning j cands body) (a', {#Starting j adm body#})"
| refused: "begin_on now j a = (None, a') \<Longrightarrow>
    task_step sha api (a, Beginning j cands body) (a', {#Selecting (retain_others j cands a') body#})"
| started: "start_accounting j (strategy_name a) (ewma_alpha a) adm now (shared a) = (acc, w) \<Longrightarrow>
    task_step sha api (a, Starting j adm body) (a\<lparr>shared := w\<rparr>, {#Awaiting_backend acc body#})"
| replied: "begin_reply hv now now' res acc a = (t, a') \<Longrightarrow>
    task_step sha api (a, Awaiting_backend acc body) (a', {#t#})"
| polled: "task_step sha api (a, Streaming s) (a, {#begin_poll now (ev :: unit poll) s#})"
| settling: "settle_step now s (shared a) = (Some s', w) \<Longrightarrow>
    task_step sha api (a, Settling s k) (a\<lparr>shared := w\<rparr>, {#Settling s' k#})"
| settled: "settle_step now s (shared a) = (None, w) \<Longrightarrow>
    task_step sha api (a, Settling s k) (a\<lparr>shared := w\<rparr>, {#resume k#})"
| cancelled: "suspended t \<Longrightarrow> cancel_task now t a = (r, a') \<Longrightarrow>
    task_step sha api (a, t) (a', case r of None \<Rightarrow> {#} | Some t' \<Rightarrow> {#t'#})"

inductive background_step :: "app_state \<Rightarrow> app_state \<Rightarrow> bool" where
  probed: "background_step a (a\<lparr>shared := on_backend i (\<lambda>b. snd (record_probe cfg ok b)) (shared a)\<rparr>)"
| scraped: "background_step a (a\<lparr>shared := on_backend i (apply_scrape txt) (shared a)\<rparr>)"
| scrape_failed: "background_step a (a\<lparr>shared := on_backend i reset_scraped (shared a)\<rparr>)"
| exported: "i < num_backends (shared a) \<Longrightarrow> f \<in> set (exports now i) \<Longrightarrow>
    background_step a (a\<lparr>shared := f (shared a)\<rparr>)"
| exported_in_flight:
    "background_step a (a\<lparr>shared := report (In_flight_set (as_i64 (in_flight (controller (shared a))))) (shared a)\<rparr>)"

inductive sys_step :: "(string \<Rightarrow> string) \<Rightarrow> 'v json_api \<Rightarrow> system \<Rightarrow> system \<Rightarrow> bool"
  for sha :: "string \<Rightarrow> string" and api :: "'v json_api"
where
  arrival: "handler_admit a = (t, a') \<Longrightarrow> sys_step sha api (a, T) (a', add_mset t T)"
| request: "task_step sha api (a, t) (a', R) \<Longrightarrow> t \<in># T \<Longrightarrow> sys_step sha api (a, T) (a', R + (T - {#t#}))"
| background: "background_step a a' \<Longrightarrow> sys_step sha api (a, T) (a', T)"

inductive sys_reachable :: "(string \<Rightarrow> string) \<Rightarrow> 'v json_api \<Rightarrow> router_config \<Rightarrow> system \<Rightarrow> bool"
  for sha :: "string \<Rightarrow> string" and api :: "'v json_api" and c :: router_config
where
  start: "build_app sha client_builds ts c = Inr ap \<Longrightarrow> sys_reachable sha api c (app_start ap, {#})"
| step: "sys_reachable sha api c s \<Longrightarrow> sys_step sha api s s' \<Longrightarrow> sys_reachable sha api c s'"

section \<open>The invariant\<close>

definition counts_match :: "app_state \<Rightarrow> request_task multiset \<Rightarrow> bool" where
  "counts_match a T \<longleftrightarrow>
     unat (in_flight (controller (shared a))) = held permit_held T \<and>
     (\<forall>i < num_backends (shared a).
        unat (active_connections (app_backend a i)) = held (guard_on i) T \<and>
        of_bool (probe_out (breaker (app_backend a i))) = held (probe_on i) T)"

definition sys_ok :: "(string \<Rightarrow> string) \<Rightarrow> system \<Rightarrow> bool" where
  "sys_ok sha s \<longleftrightarrow> app_ok sha (fst s) \<and> counts_match (fst s) (snd s) \<and>
     (\<forall>t \<in># snd s. task_ok (num_backends (shared (fst s))) t)"

lemma held_simps [simp]:
  "held f {#} = 0" "held f (add_mset t T) = f t + held f T" "held f (T + U) = held f T + held f U"
  by (simp_all add: held_def)

lemma held_remove: "t \<in># T \<Longrightarrow> held f (T - {#t#}) + f t = held f T"
  by (metis add.commute held_simps(2) insert_DiffM)

lemma held_ge: "t \<in># T \<Longrightarrow> f t \<le> held f T"
  using held_remove [of t T f] by simp

lemma guard_le_permit: "guard_on i t \<le> permit_held t"
  by (cases t) (auto simp: guard_on_def)

lemma probe_le_permit: "probe_on i t \<le> permit_held t"
  by (cases t) (auto simp: probe_on_def split: bind_splits)

lemma permit_held_le: "permit_held t \<le> 1"
  by (cases t) auto

lemma held_mono: "(\<And>t. f t \<le> g t) \<Longrightarrow> held f T \<le> held g T"
  by (induction T) (auto intro: add_mono)

text \<open>
  What a step of one task has to do to the counters: change each by exactly what the task
  gains or gives back.
\<close>

definition moves :: "app_state \<Rightarrow> request_task \<Rightarrow> app_state \<Rightarrow> request_task multiset \<Rightarrow> bool" where
  "moves a t a' R \<longleftrightarrow>
     num_backends (shared a') = num_backends (shared a) \<and>
     unat (in_flight (controller (shared a'))) + permit_held t =
       unat (in_flight (controller (shared a))) + held permit_held R \<and>
     (\<forall>i < num_backends (shared a).
        unat (active_connections (app_backend a' i)) + guard_on i t =
          unat (active_connections (app_backend a i)) + held (guard_on i) R \<and>
        of_bool (probe_out (breaker (app_backend a' i))) + probe_on i t =
          of_bool (probe_out (breaker (app_backend a i))) + held (probe_on i) R)"

text \<open>What a step may leave of a request.\<close>

definition step_ok :: "(string \<Rightarrow> string) \<Rightarrow> app_state \<Rightarrow> request_task \<Rightarrow> app_state \<Rightarrow> request_task multiset \<Rightarrow> bool" where
  "step_ok sha a t a' R \<longleftrightarrow> moves a t a' R \<and> app_ok sha a' \<and> (\<forall>t' \<in># R. task_ok (num_backends (shared a)) t')"

lemma counts_match_moves:
  assumes "counts_match a T" "t \<in># T" "moves a t a' R"
  shows "counts_match a' (R + (T - {#t#}))"
proof -
  have rm: "held f (T - {#t#}) + f t = held f T" for f using held_remove [OF assms(2)] by blast
  show ?thesis unfolding counts_match_def
  proof (intro conjI allI impI)
    show "unat (in_flight (controller (shared a'))) = held permit_held (R + (T - {#t#}))"
      using assms(1,3) rm [of permit_held] by (simp add: counts_match_def moves_def)
    fix i assume "i < num_backends (shared a')"
    then have i: "i < num_backends (shared a)" using assms(3) by (simp add: moves_def)
    have conn: "unat (active_connections (app_backend a' i)) + guard_on i t =
        unat (active_connections (app_backend a i)) + held (guard_on i) R"
      and probe: "of_bool (probe_out (breaker (app_backend a' i))) + probe_on i t =
        of_bool (probe_out (breaker (app_backend a i))) + held (probe_on i) R"
      using assms(3) i unfolding moves_def by blast+
    have match: "unat (active_connections (app_backend a i)) = held (guard_on i) T"
      "of_bool (probe_out (breaker (app_backend a i))) = held (probe_on i) T"
      using assms(1) i unfolding counts_match_def by blast+
    show "unat (active_connections (app_backend a' i)) = held (guard_on i) (R + (T - {#t#}))"
      unfolding held_simps using conn match(1) rm [of "guard_on i"] by linarith
    show "of_bool (probe_out (breaker (app_backend a' i))) = held (probe_on i) (R + (T - {#t#}))"
      unfolding held_simps using probe match(2) rm [of "probe_on i"] by linarith
  qed
qed

lemma sys_ok_replace:
  assumes "sys_ok sha (a, T)" "t \<in># T" "step_ok sha a t a' R"
  shows "sys_ok sha (a', R + (T - {#t#}))"
proof -
  have n: "num_backends (shared a') = num_backends (shared a)" and m: "moves a t a' R"
    using assms(3) by (simp_all add: step_ok_def moves_def)
  have "task_ok (num_backends (shared a)) x" if "x \<in># R + (T - {#t#})" for x
  proof -
    have "x \<in># R \<or> x \<in># T" using that unfolding union_iff by (blast dest: in_diffD)
    then show ?thesis using assms(1,3) by (auto simp: sys_ok_def step_ok_def)
  qed
  moreover have "counts_match a' (R + (T - {#t#}))"
    using counts_match_moves [OF _ assms(2) m] assms(1) by (simp add: sys_ok_def)
  ultimately show ?thesis using assms(3) n by (simp add: sys_ok_def step_ok_def)
qed

text \<open>A finished task holds nothing, so a step of nobody can be put down to one.\<close>

lemma sys_ok_add_finished: "sys_ok sha (a, T) \<Longrightarrow> sys_ok sha (a, add_mset (Replied_with st) T)"
  by (simp add: sys_ok_def counts_match_def guard_on_def probe_on_def)

lemma sys_ok_new:
  assumes "sys_ok sha (a, T)" "step_ok sha a (Replied_with 0) a' R"
  shows "sys_ok sha (a', R + T)"
  using sys_ok_replace [OF sys_ok_add_finished [OF assms(1), of 0] _ assms(2)] by simp

text \<open>What the shared state looks like to one of its tasks.\<close>

definition task_at :: "(string \<Rightarrow> string) \<Rightarrow> app_state \<Rightarrow> request_task \<Rightarrow> bool" where
  "task_at sha a t \<longleftrightarrow> app_ok sha a \<and> task_ok (num_backends (shared a)) t \<and>
     (0 < permit_held t \<longrightarrow> 0 < unat (in_flight (controller (shared a)))) \<and>
     (\<forall>i < num_backends (shared a).
        (connection_of t = Some i \<longrightarrow> 0 < unat (active_connections (app_backend a i))) \<and>
        (connection_of t = None \<longrightarrow> 0 < permit_held t \<longrightarrow> unat (active_connections (app_backend a i)) < 2 ^ 64 - 1) \<and>
        (probe_of t = Some i \<longrightarrow> probe_out (breaker (app_backend a i))))"

lemma sys_ok_task_at:
  assumes "sys_ok sha (a, T)" "t \<in># T"
  shows "task_at sha a t"
  unfolding task_at_def
proof (intro conjI allI impI)
  have match: "counts_match a T" using assms(1) by (simp add: sys_ok_def)
  then have permits: "unat (in_flight (controller (shared a))) = held permit_held T" by (simp add: counts_match_def)
  show "app_ok sha a" "task_ok (num_backends (shared a)) t" using assms by (simp_all add: sys_ok_def)
  show "0 < unat (in_flight (controller (shared a)))" if "0 < permit_held t"
    using permits held_ge [OF assms(2), of permit_held] that by simp
  fix i assume i: "i < num_backends (shared a)"
  have conns: "unat (active_connections (app_backend a i)) = held (guard_on i) T"
    and probes: "of_bool (probe_out (breaker (app_backend a i))) = held (probe_on i) T"
    using match i by (simp_all add: counts_match_def)
  show "0 < unat (active_connections (app_backend a i))" if "connection_of t = Some i"
    using conns held_ge [OF assms(2), of "guard_on i"] that by (simp add: guard_on_def)
  show "probe_out (breaker (app_backend a i))" if "probe_of t = Some i"
    using probes held_ge [OF assms(2), of "probe_on i"] that
    by (cases "probe_out (breaker (app_backend a i))") (simp_all add: probe_on_def)
  show "unat (active_connections (app_backend a i)) < 2 ^ 64 - 1" if "connection_of t = None" "0 < permit_held t"
  proof -
    have "held (guard_on i) (T - {#t#}) \<le> held permit_held (T - {#t#})" by (rule held_mono) (rule guard_le_permit)
    moreover have "held (guard_on i) (T - {#t#}) = held (guard_on i) T"
      using held_remove [OF assms(2), of "guard_on i"] that by (simp add: guard_on_def)
    moreover have "held permit_held (T - {#t#}) + permit_held t = held permit_held T"
      using held_remove [OF assms(2)] by blast
    ultimately show ?thesis
      using conns permits that unat_u64_le [of "in_flight (controller (shared a))"] by linarith
  qed
qed

section \<open>What the operations move\<close>

text \<open>Steps that leave the shared state alone.\<close>

lemma step_ok_local:
  assumes "app_ok sha a'" "shared a' = shared a" "task_ok (num_backends (shared a)) t'"
    and "permit_held t' = permit_held t" "connection_of t' = connection_of t" "probe_of t' = probe_of t"
  shows "step_ok sha a t a' {#t'#}"
  using assms by (simp add: step_ok_def moves_def guard_on_def probe_on_def)

lemma app_okI:
  assumes "app_ok sha a" "state_ok (shared a')" "num_backends (shared a') = num_backends (shared a)"
    and "strategy_obj a' = strategy_obj a"
  shows "app_ok sha a'"
  using assms by (simp add: app_ok_def)

text \<open>Steps that work on one backend.\<close>

lemma app_ok_on_backend:
  assumes "app_ok sha a"
    and "breaker_ok (breaker (app_backend a j)) \<Longrightarrow> breaker_ok (breaker (f (app_backend a j)))"
    and "backend_id (f (app_backend a j)) = backend_id (app_backend a j)"
  shows "app_ok sha (a\<lparr>shared := on_backend j f (shared a)\<rparr>)"
proof -
  have "state_ok (on_backend j f (shared a))"
    using assms pool_ok_on_backend [of "shared a" j f] by (simp add: app_ok_def state_ok_def frame_simps)
  then show ?thesis by (intro app_okI [OF assms(1)]) (simp_all add: frame_simps)
qed

lemma step_ok_backend:
  assumes "app_ok sha a" "j < num_backends (shared a)" "task_ok (num_backends (shared a)) t'"
    and "breaker_ok (breaker (app_backend a j)) \<Longrightarrow> breaker_ok (breaker (f (app_backend a j)))"
    and "backend_id (f (app_backend a j)) = backend_id (app_backend a j)"
    and "permit_held t' = permit_held t"
    and "\<And>i. i \<noteq> j \<Longrightarrow> guard_on i t' = guard_on i t \<and> probe_on i t' = probe_on i t"
    and "unat (active_connections (f (app_backend a j))) + guard_on j t =
      unat (active_connections (app_backend a j)) + guard_on j t'"
    and "of_bool (probe_out (breaker (f (app_backend a j)))) + probe_on j t =
      of_bool (probe_out (breaker (app_backend a j))) + probe_on j t'"
  shows "step_ok sha a t (a\<lparr>shared := on_backend j f (shared a)\<rparr>) {#t'#}"
proof -
  let ?a = "a\<lparr>shared := on_backend j f (shared a)\<rparr>"
  have "unat (active_connections (app_backend ?a i)) + guard_on i t = unat (active_connections (app_backend a i)) + guard_on i t' \<and>
      of_bool (probe_out (breaker (app_backend ?a i))) + probe_on i t = of_bool (probe_out (breaker (app_backend a i))) + probe_on i t'"
    if "i < num_backends (shared a)" for i
    using assms(2,7-9) that by (cases "i = j") (simp_all add: frame_simps)
  moreover have "app_ok sha ?a" using assms(1,4,5) by (rule app_ok_on_backend)
  ultimately show ?thesis using assms(3,6) by (simp add: step_ok_def moves_def frame_simps)
qed

text \<open>Steps that give a permit back.\<close>

lemma in_flight_release:
  "0 < unat (in_flight c) \<Longrightarrow> unat (in_flight (drop_permit c)) + 1 = unat (in_flight c)"
  by (simp add: in_flight_drop)

lemma step_ok_release:
  assumes "task_at sha a t" "permit_held t = 1" "connection_of t = None" "probe_of t = None"
    and "pool (shared a') = pool (shared a)" "controller (shared a') = drop_permit (controller (shared a))"
    and "app_ok sha a'" "held permit_held R = 0" "\<forall>t' \<in># R. task_ok (num_backends (shared a)) t'"
  shows "step_ok sha a t a' R"
proof -
  have "held (guard_on i) R = 0" "held (probe_on i) R = 0" for i
    using held_mono [of "guard_on i" permit_held R] held_mono [of "probe_on i" permit_held R]
      guard_le_permit probe_le_permit assms(8) by fastforce+
  moreover have "0 < unat (in_flight (controller (shared a)))" using assms(1,2) by (simp add: task_at_def)
  ultimately show ?thesis
    using assms(2-9) in_flight_release [of "controller (shared a)"]
    by (simp add: step_ok_def moves_def guard_on_def probe_on_def)
qed

lemma app_ok_release:
  assumes "app_ok sha a" "pool (shared a') = pool (shared a)"
    "controller (shared a') = drop_permit (controller (shared a))" "strategy_obj a' = strategy_obj a"
  shows "app_ok sha a'"
  using assms controller_ok_drop [of "controller (shared a)"] by (intro app_okI [OF assms(1)]) (simp_all add: app_ok_def state_ok_def)

lemma reject_effect:
  assumes "reject st reason a = (t, a')"
  shows "t = Replied_with st" "pool (shared a') = pool (shared a)"
    "controller (shared a') = drop_permit (controller (shared a))" "strategy_obj a' = strategy_obj a"
  using assms by (auto simp: reject_def Let_def inc_rejected_def frame_simps)

lemma step_ok_reject:
  assumes "task_at sha a t" "permit_held t = 1" "connection_of t = None" "probe_of t = None"
    and "reject st reason a = (t', a')"
  shows "step_ok sha a t a' {#t'#}"
  using assms reject_effect [OF assms(5)]
  by (intro step_ok_release [OF assms(1)] app_ok_release [of sha a a']) (simp_all add: task_at_def)

section \<open>Every step keeps the invariant\<close>

lemma step_arrival:
  assumes "app_ok sha a" "handler_admit a = (t, a')"
  shows "step_ok sha a (Replied_with 0) a' {#t#}"
proof -
  have st: "state_ok (shared a)" using assms(1) by (simp add: app_ok_def)
  obtain o1 c where acq: "try_acquire (controller (shared a)) = (o1, c)" by fastforce
  have "unat (in_flight c) = unat (in_flight (controller (shared a))) + (if o1 = None then 0 else 1)"
    using in_flight_try_acquire [of "controller (shared a)"] by (simp add: acq)
  moreover have "controller_ok c"
    using controller_ok_try_acquire [of "controller (shared a)"] st by (simp add: acq state_ok_def)
  moreover have "o1 = None \<or> o1 = Some Permit" by (metis option.exhaust permit.exhaust)
  ultimately have "moves a (Replied_with 0) a' {#t#} \<and> state_ok (shared a') \<and> strategy_obj a' = strategy_obj a \<and>
      task_ok (num_backends (shared a)) t"
    using assms(2) st
    by (auto simp: handler_admit_def acq inc_rejected_def moves_def frame_simps guard_on_def probe_on_def state_ok_def)
  then show ?thesis using app_okI [OF assms(1)] by (auto simp: step_ok_def moves_def)
qed

text \<open>The scan.\<close>

lemma step_checked:
  assumes "task_at sha a (Checking i av body)" "check_breaker now i a = (r, a')"
  shows "step_ok sha a (Checking i av body) a' {#Scanning (Suc i) (if r then av @ [i] else av) body#}"
proof -
  let ?cb = "snd (breaker_is_routable now (breaker (app_backend a i)))"
  have ok: "app_ok sha a" and i: "i < num_backends (shared a)" and av: "set av \<subseteq> {..<num_backends (shared a)}"
    using assms(1) by (simp_all add: task_at_def)
  have a': "a' = a\<lparr>shared := on_backend i (\<lambda>b. b\<lparr>breaker := ?cb\<rparr>) (shared a)\<rparr>"
    using assms(2) by (auto simp: check_breaker_def split_def)
  show ?thesis unfolding a'
    using i av by (intro step_ok_backend [OF ok i]) (auto simp: breaker_ok_ops breaker_results frame_simps guard_on_def probe_on_def)
qed

text \<open>The selection loop.\<close>

lemma strategy_step_ok:
  assumes "app_ok sha a" "pick_candidate (choose_with sha api draw) see req cands a = (o1, a1)"
  shows "app_ok sha a1" "shared a1 = shared a"
proof -
  have a1: "a1 = snd (pick_candidate (choose_with sha api draw) see req cands a)" using assms(2) by simp
  show "shared a1 = shared a" by (simp add: a1 frame_simps)
  then show "app_ok sha a1"
    using assms(1) strategy_ready_select [of "choose_with sha api draw"]
    by (simp add: app_ok_def) (simp add: a1 frame_simps)
qed

lemma step_picked:
  assumes "task_at sha a (Selecting cands body)"
    and "pick_candidate (choose_with sha api draw) see req cands a = (Some j, a')"
  shows "step_ok sha a (Selecting cands body) a' {#Beginning j cands body#}"
proof -
  have ok: "app_ok sha a" and cands: "set cands \<subseteq> {..<num_backends (shared a)}"
    using assms(1) by (simp_all add: task_at_def)
  have "j \<in> set cands" using pick_candidate_mem [of "choose_with sha api draw" see req cands a j] assms(2) by simp
  then show ?thesis using strategy_step_ok [OF ok assms(2)] cands by (intro step_ok_local) simp_all
qed

lemma step_pick_failed:
  assumes "task_at sha a (Selecting cands body)"
    and "pick_candidate (choose_with sha api draw) see req cands a = (None, a1)"
    and "reject st reason a1 = (t, a')"
  shows "step_ok sha a (Selecting cands body) a' {#t#}"
proof -
  have ok: "app_ok sha a" using assms(1) by (simp add: task_at_def)
  note a1 = strategy_step_ok [OF ok assms(2)]
  have "task_at sha a1 (Selecting cands body)" using assms(1) a1 by (simp add: task_at_def)
  from step_ok_reject [OF this _ _ _ assms(3)] show ?thesis by (simp add: step_ok_def moves_def a1(2))
qed

text \<open>The three outcomes of a \<open>try_begin\<close>, on the probe mark.\<close>

lemma try_begin_probe_count:
  assumes "breaker_ok cb"
  shows "of_bool (probe_out (snd (try_begin now cb))) =
    of_bool (probe_out cb) + (of_bool (fst (try_begin now cb) = Some Probe) :: nat)"
  using gate.enter_probe [OF assms, of now] gate.enter_other [OF assms, of now]
  by (cases "fst (try_begin now cb) = Some Probe") auto

lemma breaker_at_ok: "app_ok sha a \<Longrightarrow> j < num_backends (shared a) \<Longrightarrow> breaker_ok (breaker (app_backend a j))"
  by (simp add: app_ok_def state_ok_def pool_ok_def)

lemma step_begin:
  assumes "task_at sha a (Beginning j cands body)" "begin_on now j a = (adm, a')"
  shows "step_ok sha a (Beginning j cands body) a'
    {#case adm of Some m \<Rightarrow> Starting j m body | None \<Rightarrow> Selecting (retain_others j cands a') body#}"
proof -
  let ?cb = "breaker (app_backend a j)"
  have ok: "app_ok sha a" and cands: "set cands \<subseteq> {..<num_backends (shared a)}" and j: "j < num_backends (shared a)"
    using assms(1) by (auto simp: task_at_def)
  note cb = breaker_at_ok [OF ok j]
  have a': "a' = a\<lparr>shared := on_backend j (\<lambda>b. b\<lparr>breaker := snd (try_begin now ?cb)\<rparr>) (shared a)\<rparr>"
    "adm = fst (try_begin now ?cb)"
    using assms(2) by (auto simp: begin_on_def split_def)
  have "set (retain_others j cands a') \<subseteq> {..<num_backends (shared a)}" using cands by (auto simp: retain_others_def)
  then show ?thesis unfolding a'(1) using j try_begin_ok [OF cb, of now] try_begin_probe_count [OF cb, of now]
    by (intro step_ok_backend [OF ok j]) (auto simp: guard_on_def probe_on_def a'(2) split: option.split)
qed

lemma step_started:
  assumes "task_at sha a (Starting j adm body)"
    and "start_accounting j (strategy_name a) (ewma_alpha a) adm now (shared a) = (acc, w)"
  shows "step_ok sha a (Starting j adm body) (a\<lparr>shared := w\<rparr>) {#Awaiting_backend acc body#}"
proof -
  have ok: "app_ok sha a" and j: "j < num_backends (shared a)"
    and room: "unat (active_connections (app_backend a j)) < 2 ^ 64 - 1"
    using assms(1) by (simp_all add: task_at_def)
  have w: "w = on_backend j record_request_start (shared a)" and
    acc: "acc_backend acc = j" "acc_admission acc = adm" "acc_outcome acc = ClientDisconnect"
    using assms(2) by (auto simp: start_accounting_def)
  show ?thesis unfolding w using j room unat_Suc_no_wrap [OF room]
    by (intro step_ok_backend [OF ok j]) (auto simp: record_request_start_def acc guard_on_def probe_on_def probe_in_def)
qed

text \<open>The answer: a probe may be judged on the headers; the guard stays, or begins its drop.\<close>

lemma after_headers_holds:
  assumes "acc_backend acc < n" "acc_outcome acc = ClientDisconnect"
  shows "task_ok n (after_headers url_ok now f acc)" "permit_held (after_headers url_ok now f acc) = 1"
    "connection_of (after_headers url_ok now f acc) = Some (acc_backend acc)"
    "probe_of (after_headers url_ok now f acc) = probe_in acc"
  using assms
  by (auto simp: after_headers_def begin_drop_def new_accounted_stream_def probe_in_def split: forwarded_body.split)

lemma step_replied:
  assumes "task_at sha a (Awaiting_backend acc body)" "begin_reply hv now now' res acc a = (t, a')"
  shows "step_ok sha a (Awaiting_backend acc body) a' {#t#}"
proof (cases res)
  case (Inl e)
  then show ?thesis using assms
    by (cases e) (auto simp: begin_reply_def task_at_def begin_drop_def mark_headers_received_at_def probe_in_def
        intro!: step_ok_local)
next
  case (Inr f)
  let ?j = "acc_backend acc" and ?m = "mark_headers_received_at (fwd_headers_at f) acc"
  have ok: "app_ok sha a" and j: "?j < num_backends (shared a)" and out: "acc_outcome acc = ClientDisconnect"
    and probe: "acc_admission acc = Probe \<Longrightarrow> probe_out (breaker (app_backend a ?j))"
    using assms(1) by (simp_all add: task_at_def probe_in_def)
  note cb = breaker_at_ok [OF ok j]
  obtain acc1 w where res: "resolve_probe_on_headers now (fwd_status f) ?m (shared a) = (acc1, w)" by fastforce
  have m: "acc_backend ?m = ?j" "acc_admission ?m = acc_admission acc" "acc_outcome ?m = ClientDisconnect"
    using out by (simp_all add: mark_headers_received_at_def)
  have t: "t = after_headers (hv (url (app_backend a ?j))) now' f acc1" "a' = a\<lparr>shared := w\<rparr>"
    using assms(2) Inr res by (simp_all add: begin_reply_def)
  show ?thesis
  proof (cases "acc_admission acc = Probe \<and> is_success (fwd_status f)")
    case True
    then have acc1: "acc1 = ?m\<lparr>acc_admission := Normal\<rparr>"
      and w: "w = on_backend ?j (\<lambda>b. b\<lparr>breaker := record_success now Probe (breaker b)\<rparr>) (shared a)"
      using res m by (simp_all add: resolve_probe_on_headers_def)
    have "acc_backend acc1 = ?j" "acc_outcome acc1 = ClientDisconnect" "probe_in acc1 = None"
      using m by (simp_all add: acc1 probe_in_def)
    then show ?thesis unfolding t w
      using j True probe gate.probe_clears(1) [OF cb, of now] after_headers_holds [of acc1 "num_backends (shared a)"]
      by (intro step_ok_backend [OF ok j]) (auto simp: breaker_ok_ops guard_on_def probe_on_def probe_in_def)
  next
    case False
    then have "acc1 = ?m" "w = shared a"
      using res m by (simp_all add: resolve_probe_on_headers_def split: if_splits)
    then show ?thesis unfolding t
      using ok j m after_headers_holds [of ?m "num_backends (shared a)"]
      by (intro step_ok_local) (simp_all add: probe_in_def)
  qed
qed

lemma step_polled:
  assumes "task_at sha a (Streaming s)"
  shows "step_ok sha a (Streaming s) a {#begin_poll now ev s#}"
  using assms
  by (intro step_ok_local)
    (auto simp: task_at_def begin_poll_def begin_drop_def probe_in_def split: option.split poll.split)

text \<open>The drop of a guard.\<close>

lemma judge_probe:
  assumes "breaker_ok cb" "acc_admission acc = Probe \<Longrightarrow> probe_out cb"
  shows "of_bool (probe_out (judge_breaker now acc cb)) + of_bool (acc_admission acc = Probe) =
    (of_bool (probe_out cb) :: nat)"
  using assms gate.probe_clears [OF assms(1)] gate.normal_keeps [OF assms(1)]
  by (cases "acc_admission acc") (auto simp: judge_breaker_def)

lemma judge_breaker_ok: "breaker_ok cb \<Longrightarrow> breaker_ok (judge_breaker now acc cb)"
  by (simp add: judge_breaker_def breaker_ok_ops)

lemma step_settling:
  assumes "task_at sha a (Settling s k)" "settle_step now s (shared a) = (Some s', w)"
  shows "step_ok sha a (Settling s k) (a\<lparr>shared := w\<rparr>) {#Settling s' k#}"
proof -
  let ?acc = "settling_acc s"
  let ?j = "acc_backend ?acc"
  have ok: "app_ok sha a" and j: "?j < num_backends (shared a)" using assms(1) by (simp_all add: task_at_def)
  note cb = breaker_at_ok [OF ok j]
  show ?thesis
  proof (cases "settling_stage s")
    case End_request
    have pos: "0 < unat (active_connections (app_backend a ?j))" using assms(1) j End_request by (simp add: task_at_def)
    have s': "s' = s\<lparr>settling_stage := after_end (acc_outcome ?acc)\<rparr>" "w = on_backend ?j record_request_end (shared a)"
      using assms(2) End_request by (simp_all add: settle_step_def Let_def)
    have "after_end (acc_outcome ?acc) \<noteq> End_request" "after_end (acc_outcome ?acc) \<noteq> Close_request"
      by (auto simp: after_end_def split: outcome.split)
    then show ?thesis unfolding s' using j pos End_request
      by (intro step_ok_backend [OF ok j]) (auto simp: record_request_end_def guard_on_def probe_on_def)
  next
    case Load_latency
    then show ?thesis using assms ok j
      by (intro step_ok_local) (auto simp: settle_step_def Let_def)
  next
    case (Store_latency v)
    have s': "s' = s\<lparr>settling_stage := Judge_request\<rparr>" "w = on_backend ?j (\<lambda>b. b\<lparr>ewma_latency_us := v\<rparr>) (shared a)"
      using assms(2) Store_latency by (simp_all add: settle_step_def Let_def)
    show ?thesis unfolding s' using j Store_latency
      by (intro step_ok_backend [OF ok j]) (auto simp: guard_on_def probe_on_def)
  next
    case Judge_request
    have s': "s' = s\<lparr>settling_stage := Close_request\<rparr>"
      "w = on_backend ?j (\<lambda>b. b\<lparr>breaker := judge_breaker now ?acc (breaker b)\<rparr>) (shared a)"
      using assms(2) Judge_request by (simp_all add: settle_step_def Let_def)
    have "acc_admission ?acc = Probe \<Longrightarrow> probe_out (breaker (app_backend a ?j))"
      using assms(1) j Judge_request by (simp add: task_at_def probe_in_def)
    from judge_probe [where acc = ?acc, OF cb this, where now = now]
    have "of_bool (probe_out (judge_breaker now ?acc (breaker (app_backend a ?j)))) + probe_on ?j (Settling s k) =
        of_bool (probe_out (breaker (app_backend a ?j))) + probe_on ?j (Settling s' k)"
      using Judge_request by (auto simp: s' probe_on_def probe_in_def of_bool_def split: if_splits)
    then show ?thesis unfolding s'(2) using j Judge_request
      by (intro step_ok_backend [OF ok j]) (auto simp: s'(1) guard_on_def probe_on_def probe_in_def judge_breaker_ok)
  next
    case Close_request
    then show ?thesis using assms(2) by (simp add: settle_step_def Let_def)
  qed
qed

lemma close_request_effect:
  "pool (close_request s w) = pool w" "controller (close_request s w) = drop_permit (controller w)"
  by (simp_all add: close_request_def Let_def frame_simps)

lemma step_settled:
  assumes "task_at sha a (Settling s k)" "settle_step now s (shared a) = (None, w)"
  shows "step_ok sha a (Settling s k) (a\<lparr>shared := w\<rparr>) {#resume k#}"
proof -
  have stage: "settling_stage s = Close_request" and w: "w = close_request s (shared a)"
    using assms(2) by (auto simp: settle_step_def Let_def split: drop_stage.splits)
  have "permit_held (resume k) = 0" "task_ok (num_backends (shared a)) (resume k)" by (cases k; simp)+
  moreover have "app_ok sha (a\<lparr>shared := w\<rparr>)"
    by (rule app_ok_release [of sha a]) (use assms(1) in \<open>simp_all add: w close_request_effect task_at_def\<close>)
  ultimately show ?thesis using stage
    by (intro step_ok_release [OF assms(1)]) (simp_all add: w close_request_effect)
qed

text \<open>A cancelled task gives back what it holds, wherever it stands.\<close>

lemma step_cancelled:
  assumes "task_at sha a t" "suspended t" "cancel_task now t a = (r, a')"
  shows "step_ok sha a t a' (case r of None \<Rightarrow> {#} | Some t' \<Rightarrow> {#t'#})"
proof (cases t)
  case Reading_body
  then show ?thesis using assms
    by (auto intro!: step_ok_release [of sha a] app_ok_release [of sha a] simp: frame_simps task_at_def)
next
  case (Awaiting_backend acc body)
  then show ?thesis using assms by (auto intro!: step_ok_local simp: task_at_def begin_drop_def)
next
  case (Streaming s)
  then show ?thesis using assms
    by (cases "accounting s")
      (auto intro!: step_ok_local simp: task_at_def begin_drop_def probe_in_def step_ok_def moves_def guard_on_def probe_on_def)
next
  case (Replied_with st)
  then show ?thesis using assms by (simp add: step_ok_def moves_def guard_on_def probe_on_def task_at_def)
qed (use assms(2) in simp_all)

text \<open>Probes, scrapes and exports hold nothing and move nothing.\<close>

lemma moves_nothing:
  assumes "app_ok sha a"
    and "breaker_ok (breaker (app_backend a i)) \<Longrightarrow> breaker_ok (breaker (f (app_backend a i)))"
    and "backend_id (f (app_backend a i)) = backend_id (app_backend a i)"
    and "active_connections (f (app_backend a i)) = active_connections (app_backend a i)"
    and "probe_out (breaker (f (app_backend a i))) = probe_out (breaker (app_backend a i))"
    and "pool (shared a') = pool (on_backend i f (shared a))" "controller (shared a') = controller (shared a)"
    and "strategy_obj a' = strategy_obj a"
  shows "step_ok sha a (Replied_with 0) a' {#}"
proof -
  have "app_ok sha (a\<lparr>shared := on_backend i f (shared a)\<rparr>)" using assms(1-3) by (rule app_ok_on_backend)
  then have "app_ok sha a'" using assms(6-8) by (simp add: app_ok_def state_ok_def frame_simps)
  moreover have "active_connections (app_backend a' j) = active_connections (app_backend a j) \<and>
      probe_out (breaker (app_backend a' j)) = probe_out (breaker (app_backend a j))"
    if "j < num_backends (shared a)" for j
    using assms(4-6) that by (cases "j = i") (simp_all add: frame_simps)
  ultimately show ?thesis using assms(6,7)
    by (simp add: step_ok_def moves_def frame_simps guard_on_def probe_on_def)
qed

lemma exports_effect:
  assumes "f \<in> set (exports now i)"
  shows "controller (f w) = controller w"
    and "pool (f w) = pool (on_backend i (\<lambda>b. b) w) \<or>
     pool (f w) = pool (on_backend i (\<lambda>b. b\<lparr>breaker := snd (breaker_state now (breaker b))\<rparr>) w)"
proof -
  have "on_backend i (\<lambda>b. b\<lparr>breaker := snd (breaker_state now (breaker (backend_at w i)))\<rparr>) w =
      on_backend i (\<lambda>b. b\<lparr>breaker := snd (breaker_state now (breaker b))\<rparr>) w"
    by (rule on_backend_cong) simp
  then show "controller (f w) = controller w"
    "pool (f w) = pool (on_backend i (\<lambda>b. b) w) \<or>
     pool (f w) = pool (on_backend i (\<lambda>b. b\<lparr>breaker := snd (breaker_state now (breaker b))\<rparr>) w)"
    using assms
    by (auto simp: exports_def export_connections_def export_health_def export_breaker_def export_queue_depth_def
        export_kv_cache_def split_def on_backend_id frame_simps)
qed

lemma step_background:
  assumes "background_step a a'" "app_ok sha a"
  shows "step_ok sha a (Replied_with 0) a' {#}"
  using assms(1)
proof cases
  case (probed i cfg r)
  then show ?thesis
    by (intro moves_nothing [OF assms(2), where i = i and f = "\<lambda>b. snd (record_probe cfg r b)"])
      (simp_all add: record_probe_def Let_def reset_scraped_def frame_simps)
next
  case (scraped i m)
  then show ?thesis
    by (intro moves_nothing [OF assms(2), where i = i and f = "apply_scrape m"])
      (simp_all add: apply_scrape_eq frame_simps)
next
  case (scrape_failed i)
  then show ?thesis
    by (intro moves_nothing [OF assms(2), where i = i and f = reset_scraped])
      (simp_all add: reset_scraped_def frame_simps)
next
  case (exported i f now)
  consider "pool (f (shared a)) = pool (on_backend i (\<lambda>b. b) (shared a))"
    | "pool (f (shared a)) = pool (on_backend i (\<lambda>b. b\<lparr>breaker := snd (breaker_state now (breaker b))\<rparr>) (shared a))"
    using exports_effect(2) [OF exported(3)] by blast
  then show ?thesis
  proof cases
    case 1
    then show ?thesis using exports_effect(1) [OF exported(3)] exported(1)
      by (intro moves_nothing [OF assms(2), where i = i and f = "\<lambda>b. b"]) simp_all
  next
    case 2
    then show ?thesis using exports_effect(1) [OF exported(3)] exported(1) breaker_ok_ops
      by (intro moves_nothing [OF assms(2), where i = i])
        (auto simp: breaker_results frame_simps)
  qed
next
  case exported_in_flight
  then show ?thesis
    by (intro moves_nothing [where i = 0 and f = "\<lambda>b. b", OF assms(2)])
      (simp_all add: frame_simps on_backend_id)
qed

lemma task_step_ok:
  assumes "task_step sha api (a, t) (a', R)" "task_at sha a t"
  shows "step_ok sha a t a' R"
  using assms(1)
proof (cases rule: task_step.cases)
  case (read_failed e st reason t')
  with assms(2) show ?thesis by (auto intro: step_ok_reject)
next
  case (none_left t' body)
  with assms(2) show ?thesis by (auto intro: step_ok_reject)
next
  case (pick_failed cands see draw req a1 t' body)
  with assms(2) show ?thesis by (auto intro: step_pick_failed)
next
  case (begun now j adm cands body)
  with assms(2) show ?thesis using step_begin [of sha a j cands body now "Some adm" a'] by simp
next
  case (refused now j cands body)
  with assms(2) show ?thesis using step_begin [of sha a j cands body now None a'] by simp
next
  case (settling now s s' w k)
  with assms(2) show ?thesis by (auto intro: step_settling)
next
  case (settled now s w k)
  with assms(2) show ?thesis by (auto intro: step_settled)
next
  case (cancelled now r)
  with assms(2) show ?thesis by (auto intro: step_cancelled)
next
  case (checked now i r av body)
  with assms(2) show ?thesis using step_checked by blast
next
  case (picked cands see draw req j body)
  with assms(2) show ?thesis using step_picked by blast
next
  case (started j adm now acc w body)
  with assms(2) show ?thesis using step_started by blast
next
  case (replied hv now now' res acc body)
  with assms(2) show ?thesis using step_replied by blast
next
  case (polled s now ev)
  with assms(2) show ?thesis using step_polled by blast
qed (use assms(2) in \<open>auto intro!: step_ok_local simp: task_at_def\<close>)

lemma sys_step_ok:
  assumes "sys_step sha api s s'" "sys_ok sha s"
  shows "sys_ok sha s'"
  using assms
proof (cases rule: sys_step.cases)
  case (arrival a t a' T)
  then show ?thesis using assms(2) sys_ok_new [of sha a T a' "{#t#}"] step_arrival [of sha a t a'] by (simp add: sys_ok_def)
next
  case (request a t a' R T)
  then show ?thesis using assms(2) sys_ok_replace task_step_ok sys_ok_task_at by blast
next
  case (background a a' T)
  then show ?thesis using assms(2) sys_ok_new [of sha a T a' "{#}"] step_background [of a a' sha] by (simp add: sys_ok_def)
qed

lemma sys_start_ok:
  assumes "build_app sha client_builds ts c = Inr ap" "length (cfg_backends c) \<le> 2 ^ 32"
  shows "sys_ok sha (app_start ap, {#})"
proof -
  let ?p = "new_pool (build_backends ts c) (max_backend_queue_depth (cfg_backpressure c))"
  obtain s where s: "create_strategy sha (routing_strategy (cfg_routing c))
      (prefix_token_count (routing_prefix_cache (cfg_routing c))) (pool_len ?p) = Inr s"
    and p: "pool (shared (app_start ap)) = ?p" "strategy_obj (app_start ap) = s"
    "controller (shared (app_start ap)) = new_controller (bp_max_in_flight (cfg_backpressure c))"
    using assms(1) by (auto simp: build_app_def Let_def split: sum.splits if_splits)
  have "strategy_ready sha (length (cfg_backends c)) s"
    using created_ready [OF s] by (simp add: pool_len_def new_pool_def build_backends_nth)
  then have "app_ok sha (app_start ap)"
    using assms(2) build_backends_pool_ok [of ts c] 
    by (simp add: app_ok_def state_ok_def p controller_ok_def new_controller_def) (simp add: new_pool_def build_backends_nth)
  then show ?thesis
    by (simp add: sys_ok_def counts_match_def p in_flight_def new_controller_def)
      (simp add: new_pool_def build_backends_nth new_backend_def from_config_def new_breaker_def)
qed

lemma sys_reachable_ok:
  "sys_reachable sha api c s \<Longrightarrow> length (cfg_backends c) \<le> 2 ^ 32 \<Longrightarrow> sys_ok sha s"
  by (induction rule: sys_reachable.induct) (blast intro: sys_start_ok sys_step_ok)+

end
