(* ===== verification/Progress.thy ===== *)
theory Progress
  imports System
begin

text \<open>
  Requests end. Every step of a request but the poll of a stream that is still open lowers the
  work it has left (\<open>work\<close>), and every request can always take such a step without its client
  going away, whatever state the others have left the router in: there is neither a livelock nor
  a deadlock. One request is followed through an interleaved run (\<open>followed\<close>); the number of
  its own atomic operations is bounded by the size of the pool.
\<close>

section \<open>The work a request has left\<close>

fun work :: "nat \<Rightarrow> request_task \<Rightarrow> nat" where
  "work n Reading_body = 5 * n + 14"
| "work n (Scanning i av body) = 3 * length av + 5 * (n - i) + 13"
| "work n (Checking i av body) = 3 * length av + 5 * (n - i) + 12"
| "work n (Filtering todo av ul body) = length todo + 2 * length av + 12"
| "work n (Selecting cands body) = 2 * length cands + 11"
| "work n (Beginning j cands body) = 2 * length cands + 10"
| "work n (Starting j adm body) = 9"
| "work n (Awaiting_backend acc body) = 8"
| "work n (Streaming s) = (if accounting s = None then 1 else 7)"
| "work n (Settling s k) = Suc (stage_rank (settling_stage s))"
| "work n (Replied_with st) = 1"

text \<open>A poll after which the stream is still a stream, because the backend sent a chunk or nothing.\<close>

definition stays_open :: "request_task \<Rightarrow> request_task multiset \<Rightarrow> bool" where
  "stays_open t R \<longleftrightarrow> (case t of Streaming s \<Rightarrow> (\<exists>s'. R = {#Streaming s'#}) | _ \<Rightarrow> False)"

lemma work_pos: "0 < work n t"
  by (cases t) auto

lemma work_resume [simp]: "work n (resume k) = 1"
  by (cases k) auto

lemma work_after_headers: "work n (after_headers ok now f acc) < 8"
  by (auto simp: after_headers_def begin_drop_def new_accounted_stream_def split: forwarded_body.split)

lemma work_begin_reply:
  assumes "begin_reply hv now now' res acc a = (t, a')"
  shows "work n t < 8"
proof (cases res)
  case (Inl e)
  then show ?thesis using assms by (cases e) (auto simp: begin_reply_def begin_drop_def)
next
  case (Inr f)
  then show ?thesis using assms work_after_headers by (auto simp: begin_reply_def split: prod.splits)
qed

lemma begin_poll_work: "stays_open (Streaming s) {#begin_poll now ev s#} \<or> work n (begin_poll now ev s) < work n (Streaming s)"
  by (auto simp: stays_open_def begin_poll_def begin_drop_def split: option.split poll.split)

lemma begin_poll_open: "(\<exists>s'. begin_poll now ev s = Streaming s') \<Longrightarrow> work n (begin_poll now ev s) = work n (Streaming s)"
  by (auto simp: begin_poll_def split: option.splits poll.splits)

lemma cancel_work:
  assumes "suspended t" "cancel_task now t a = (r, a')"
  shows "held (work n) (case r of None \<Rightarrow> {#} | Some t' \<Rightarrow> {#t'#}) < work n t"
    and "\<not> stays_open t (case r of None \<Rightarrow> {#} | Some t' \<Rightarrow> {#t'#})"
  using assms by (cases t; auto simp: begin_drop_def stays_open_def split: option.splits)+

lemma task_step_work:
  assumes "task_step sha api (a, t) (a', R)" "task_at sha a t"
  shows "stays_open t R \<and> held (work (num_backends (shared a))) R = work (num_backends (shared a)) t \<or>
    \<not> stays_open t R \<and> held (work (num_backends (shared a))) R < work (num_backends (shared a)) t"
  using assms(1)
proof (cases rule: task_step.cases)
  case (read_failed e st reason t')
  then show ?thesis using reject_effect(1) [of st reason a t' a'] by (simp add: stays_open_def)
next
  case (none_left t' body)
  then show ?thesis using reject_effect(1) [of 503 "''no_routable_backend''" a t' a'] by (simp add: stays_open_def)
next
  case (pick_failed cands see draw req a1 t' body)
  then show ?thesis using reject_effect(1) [of 503 "''no_routable_backend''" a1 t' a'] by (simp add: stays_open_def)
next
  case (refused now j cands body)
  then have "length (retain_others j cands a') < length cands"
    using assms(2) by (intro retain_others_shorter) (simp add: task_at_def)
  then show ?thesis using refused by (simp add: stays_open_def)
next
  case (replied hv now now' res acc body)
  then show ?thesis using work_begin_reply by (simp add: stays_open_def)
next
  case (polled s now ev)
  show ?thesis
  proof (cases "stays_open t R")
    case True
    then have "\<exists>s'. begin_poll now ev s = Streaming s'" using polled by (simp add: stays_open_def)
    then show ?thesis using True polled begin_poll_open [of now ev s] by simp
  next
    case False
    then show ?thesis using polled begin_poll_work [of s now ev] by simp
  qed
next
  case (settling now s s' w k)
  then show ?thesis using settle_step_rank [of s' w now s "shared a"] by (simp add: stays_open_def)
next
  case (settled now s w k)
  then show ?thesis by (cases "settling_stage s") (simp_all add: stays_open_def)
next
  case (cancelled now r)
  then show ?thesis using cancel_work by simp
next
  case (checked now i r av body)
  then have "num_backends (shared a) - i = Suc (num_backends (shared a) - Suc i)"
    using assms(2) by (simp add: task_at_def Suc_diff_Suc)
  then show ?thesis using checked by (simp add: stays_open_def)
next
  case (filtered av ul body)
  then have "length ul \<le> length av" using assms(2) by (simp add: task_at_def)
  then show ?thesis using filtered by (simp add: stays_open_def)
qed (auto simp: stays_open_def)

section \<open>Every request can go on\<close>

text \<open>
  A step in which the client of a request that still holds its slot goes away. A request that
  has been answered, and a stream that has ended, hold nothing: that they are dropped is their end.
\<close>

definition cancellation :: "app_state \<Rightarrow> request_task \<Rightarrow> app_state \<Rightarrow> request_task multiset \<Rightarrow> bool" where
  "cancellation a t a' R \<longleftrightarrow> suspended t \<and> 0 < permit_held t \<and>
     (\<exists>now. a' = snd (cancel_task now t a) \<and>
        R = (case fst (cancel_task now t a) of None \<Rightarrow> {#} | Some t' \<Rightarrow> {#t'#}))"

lemma own_step:
  assumes "task_step sha api (a, t) (a', R)" "\<not> suspended t \<or> permit_held t = 0" "\<not> stays_open t R"
  shows "\<exists>a' R. task_step sha api (a, t) (a', R) \<and> \<not> stays_open t R \<and> \<not> cancellation a t a' R"
  using assms by (auto simp: cancellation_def)

lemma task_can_step:
  fixes api :: "'v json_api"
  assumes "task_at sha a t"
  shows "\<exists>a' R. task_step sha api (a, t) (a', R) \<and> \<not> stays_open t R \<and> \<not> cancellation a t a' R"
proof (cases t)
  case Reading_body
  then have "task_step sha api (a, t) (a, {#Scanning 0 [] []#})" by (simp add: read_done)
  moreover have "\<not> stays_open t {#Scanning 0 [] []#}" "\<not> cancellation a t a {#Scanning 0 [] []#}"
    using Reading_body by (simp_all add: stays_open_def cancellation_def)
  ultimately show ?thesis by blast
next
  case (Scanning i av body)
  then have "i < num_backends (shared a) \<or> i = num_backends (shared a)" using assms by (auto simp: task_at_def)
  then have "\<exists>a' t'. task_step sha api (a, Scanning i av body) (a', {#t'#})"
    using seen_healthy seen_unhealthy scanned by (cases "is_healthy (app_backend a i)") blast+
  then show ?thesis using Scanning own_step by (fastforce simp: stays_open_def)
next
  case (Checking i av body)
  then show ?thesis by (intro own_step) (auto simp: stays_open_def intro: checked [OF prod.collapse [symmetric], where now = 0])
next
  case (Filtering todo av ul body)
  then have "\<exists>a' t'. task_step sha api (a, Filtering todo av ul body) (a', {#t'#})"
    using filtered depth_read [OF refl] by (cases todo) blast+
  then show ?thesis using Filtering own_step by (fastforce simp: stays_open_def)
next
  case (Selecting cands body)
  let ?pick = "pick_candidate (choose_with sha api (Fin 0)) (\<lambda>b. b) \<lparr>req_path = [], req_body = None\<rparr> cands a"
  have id: "identity_kept (\<lambda>b. b)" by (simp add: identity_kept_def)
  have "\<exists>a' t'. task_step sha api (a, Selecting cands body) (a', {#t'#})"
  proof (cases "cands = []")
    case True
    then show ?thesis using none_left [OF prod.collapse [symmetric]] by blast
  next
    case False
    show ?thesis
    proof (cases "fst ?pick")
      case None
      then have "?pick = (None, snd ?pick)" by (simp add: prod_eq_iff)
      from pick_failed [OF False id this prod.collapse [symmetric]] show ?thesis by blast
    next
      case (Some j)
      then have "?pick = (Some j, snd ?pick)" by (simp add: prod_eq_iff)
      from picked [OF False id this] show ?thesis by blast
    qed
  qed
  then show ?thesis using Selecting own_step by (fastforce simp: stays_open_def)
next
  case (Beginning j cands body)
  have "\<exists>a' t'. task_step sha api (a, Beginning j cands body) (a', {#t'#})"
  proof (cases "fst (begin_on 0 j a)")
    case None
    then have "begin_on 0 j a = (None, snd (begin_on 0 j a))" by (simp add: prod_eq_iff)
    from refused [OF this] show ?thesis by blast
  next
    case (Some adm)
    then have "begin_on 0 j a = (Some adm, snd (begin_on 0 j a))" by (simp add: prod_eq_iff)
    from begun [OF this] show ?thesis by blast
  qed
  then show ?thesis using Beginning own_step by (fastforce simp: stays_open_def)
next
  case (Starting j adm body)
  then show ?thesis by (intro own_step) (auto simp: stays_open_def intro: started [OF prod.collapse [symmetric], where now = 0])
next
  case (Awaiting_backend acc body)
  let ?t = "fst (begin_reply (\<lambda>_. True) 0 0 (Inl Connect) acc a)"
  have "task_step sha api (a, t) (a, {#?t#})"
    unfolding Awaiting_backend
    by (rule replied [where hv = "\<lambda>_. True" and now = 0 and now' = 0 and res = "Inl Connect"]) (simp add: begin_reply_def prod_eq_iff)
  moreover have "\<not> stays_open t {#?t#}" "\<not> cancellation a t a {#?t#}"
    using Awaiting_backend by (auto simp: stays_open_def cancellation_def begin_reply_def forward_error_status_def)
  ultimately show ?thesis by blast
next
  case (Streaming s)
  show ?thesis
  proof (cases "accounting s")
    case None
    from cancelled [of t 0 a, OF _ prod.collapse [symmetric]] cancel_work(2) [of t 0 a, OF _ prod.collapse [symmetric]]
    show ?thesis using Streaming None by (intro own_step) simp_all
  next
    case (Some acc)
    let ?t = "begin_poll 0 (Ready_none :: unit poll) s"
    have "task_step sha api (a, t) (a, {#?t#})" unfolding Streaming by (rule polled)
    moreover have "\<not> stays_open t {#?t#}" "\<not> cancellation a t a {#?t#}"
      using Streaming Some by (auto simp: stays_open_def cancellation_def begin_poll_def)
    ultimately show ?thesis by blast
  qed
next
  case (Settling s k)
  have "\<exists>a' t'. task_step sha api (a, Settling s k) (a', {#t'#})"
  proof (cases "fst (settle_step 0 s (shared a))")
    case None
    then have "settle_step 0 s (shared a) = (None, snd (settle_step 0 s (shared a)))" by (simp add: prod_eq_iff)
    from settled [OF this] show ?thesis by blast
  next
    case (Some s')
    then have "settle_step 0 s (shared a) = (Some s', snd (settle_step 0 s (shared a)))" by (simp add: prod_eq_iff)
    from settling [OF this] show ?thesis by blast
  qed
  then show ?thesis using Settling own_step by (fastforce simp: stays_open_def)
next
  case (Replied_with st)
  from cancelled [of t 0 a, OF _ prod.collapse [symmetric]] cancel_work(2) [of t 0 a, OF _ prod.collapse [symmetric]]
  show ?thesis using Replied_with by (intro own_step) simp_all
qed

lemma task_can_progress:
  fixes api :: "'v json_api"
  assumes "task_at sha a t"
  shows "\<exists>a' R. task_step sha api (a, t) (a', R) \<and> \<not> cancellation a t a' R \<and>
    held (work (num_backends (shared a))) R < work (num_backends (shared a)) t"
  using task_can_step [OF assms, of api] task_step_work assms by blast

text \<open>
  The steps of the requests there are, without arrivals, health checks, scrapes and
  cancellations. They alone bring the router to rest.
\<close>

inductive request_step :: "(string \<Rightarrow> string) \<Rightarrow> 'v json_api \<Rightarrow> system \<Rightarrow> system \<Rightarrow> bool"
  for sha :: "string \<Rightarrow> string" and api :: "'v json_api"
where
  goes_on: "task_step sha api (a, t) (a', R) \<Longrightarrow> t \<in># T \<Longrightarrow> \<not> cancellation a t a' R \<Longrightarrow>
    request_step sha api (a, T) (a', R + (T - {#t#}))"

lemma request_step_sys: "request_step sha api s s' \<Longrightarrow> sys_step sha api s s'"
  by (auto elim!: request_step.cases intro: request)

lemma request_run_sys: "(request_step sha api)\<^sup>*\<^sup>* s s' \<Longrightarrow> (sys_step sha api)\<^sup>*\<^sup>* s s'"
  by (rule rtranclp_mono [THEN predicate2D]) (auto intro: request_step_sys)

lemma sys_step_num_backends:
  "sys_ok sha (a, T) \<Longrightarrow> t \<in># T \<Longrightarrow> task_step sha api (a, t) (a', R) \<Longrightarrow> num_backends (shared a') = num_backends (shared a)"
  using task_step_ok sys_ok_task_at by (fastforce simp: step_ok_def moves_def)

lemma drain_run:
  fixes api :: "'v json_api"
  assumes "sys_ok sha (a, T)"
  shows "\<exists>a'. (request_step sha api)\<^sup>*\<^sup>* (a, T) (a', {#})"
  using assms
proof (induction "held (work (num_backends (shared a))) T" arbitrary: a T rule: less_induct)
  case less
  let ?n = "num_backends (shared a)"
  show ?case
  proof (cases "T = {#}")
    case False
    then obtain t where t: "t \<in># T" by blast
    then obtain a1 R where s: "task_step sha api (a, t) (a1, R)" "\<not> cancellation a t a1 R" "held (work ?n) R < work ?n t"
      using task_can_progress [OF sys_ok_task_at [OF less.prems t]] by blast
    let ?T = "R + (T - {#t#})"
    have step: "request_step sha api (a, T) (a1, ?T)" using s(1) t s(2) by (rule goes_on)
    have "num_backends (shared a1) = ?n" using sys_step_num_backends [OF less.prems t s(1)] .
    moreover have "held (work ?n) ?T < held (work ?n) T"
      using s(3) held_remove [OF t, of "work ?n"] unfolding held_simps by linarith
    ultimately obtain a' where "(request_step sha api)\<^sup>*\<^sup>* (a1, ?T) (a', {#})"
      using less.hyps [of a1 ?T] sys_step_ok [OF request_step_sys [OF step] less.prems] by auto
    with step show ?thesis by (blast intro: converse_rtranclp_into_rtranclp)
  qed auto
qed

section \<open>Counting the operations of a request\<close>

text \<open>
  One request \<open>t\<close> followed through an interleaved run: what is left of it, the other requests,
  and the number of its own operations so far. The others, arrivals, health checks and scrapes
  take any steps between its own; polls that leave its stream open are not counted.
\<close>

inductive followed :: "(string \<Rightarrow> string) \<Rightarrow> 'v json_api \<Rightarrow> system \<Rightarrow> request_task \<Rightarrow>
    nat \<Rightarrow> system \<Rightarrow> request_task multiset \<Rightarrow> bool"
  for sha :: "string \<Rightarrow> string" and api :: "'v json_api" and s :: system and t :: request_task
where
  at_start: "followed sha api s t 0 s {#t#}"
| worked: "followed sha api s t m (a, T) {#u#} \<Longrightarrow> task_step sha api (a, u) (a', R) \<Longrightarrow> \<not> stays_open u R \<Longrightarrow>
    followed sha api s t (Suc m) (a', T) R"
| waited: "followed sha api s t m (a, T) {#u#} \<Longrightarrow> task_step sha api (a, u) (a', R) \<Longrightarrow> stays_open u R \<Longrightarrow>
    followed sha api s t m (a', T) R"
| others: "followed sha api s t m (a, T) R \<Longrightarrow> sys_step sha api (a, T) (a', T') \<Longrightarrow>
    followed sha api s t m (a', T') R"

lemma task_step_single: "task_step sha api (a, t) (a', R) \<Longrightarrow> R = {#} \<or> (\<exists>u. R = {#u#})"
  by (erule task_step.cases) (auto split: option.split)

lemma followed_single: "followed sha api s t m s' R \<Longrightarrow> R = {#} \<or> (\<exists>u. R = {#u#})"
  by (induction rule: followed.induct) (auto dest: task_step_single)

text \<open>What some requests do, they can do beside others.\<close>

lemma sys_step_frame:
  assumes "sys_step sha api (a, T) (a', T')"
  shows "sys_step sha api (a, R + T) (a', R + T')"
  using assms
proof (cases rule: sys_step.cases)
  case (request t R')
  have "R + T' = R' + (R + T - {#t#})"
    unfolding request(1) diff_union_single_conv [OF request(3)] by (simp only: ac_simps)
  then show ?thesis using request(2,3) sys_step.request [of sha api a t a' R' "R + T"] by simp
qed (auto intro: sys_step.intros)

lemma sys_run_frame:
  assumes "(sys_step sha api)\<^sup>*\<^sup>* (a, T) (a', T')"
  shows "(sys_step sha api)\<^sup>*\<^sup>* (a, R + T) (a', R + T')"
  using assms
proof (induction "(a', T')" arbitrary: a' T')
  case (step s)
  then show ?case by (cases s) (auto intro: sys_step_frame rtranclp.rtrancl_into_rtrancl)
qed simp

lemma followed_run:
  assumes "followed sha api (a, T) t m (a', T') R"
  shows "(sys_step sha api)\<^sup>*\<^sup>* (a, add_mset t T) (a', R + T')"
  using assms
proof (induction m "(a', T')" R arbitrary: a' T' rule: followed.induct)
  case (worked m a1 T1 u a2 R)
  with request [OF worked(3), of "{#u#} + T1"] show ?case by (auto intro: rtranclp.rtrancl_into_rtrancl)
next
  case (waited m a1 T1 u a2 R)
  with request [OF waited(3), of "{#u#} + T1"] show ?case by (auto intro: rtranclp.rtrancl_into_rtrancl)
next
  case (others m a1 T1 R a2 T2)
  with sys_step_frame [OF others(3), of R] show ?case by (auto intro: rtranclp.rtrancl_into_rtrancl)
qed simp

text \<open>Conversely every run is a run of any one of its requests among the others.\<close>

lemma followed_step:
  assumes "followed sha api s t m (a, T) R" "sys_step sha api (a, R + T) (a', U)"
  shows "\<exists>m' T' R'. followed sha api s t m' (a', T') R' \<and> U = R' + T'"
  using assms(2)
proof (cases rule: sys_step.cases)
  case (arrival t')
  then have "U = R + add_mset t' T" by simp
  then show ?thesis using others [OF assms(1) sys_step.arrival [OF arrival(2)]] by blast
next
  case (request u Q)
  show ?thesis
  proof (cases "u \<in># T")
    case True
    have "U = R + (Q + (T - {#u#}))"
      unfolding request(1) diff_union_single_conv [OF True] by (simp only: ac_simps)
    then show ?thesis using others [OF assms(1) sys_step.request [OF request(2) True]] by blast
  next
    case False
    then have R: "R = {#u#}" using request(3) followed_single [OF assms(1)] by auto
    then have f: "followed sha api s t m (a, T) {#u#}" "U = Q + T" using assms(1) request(1) by simp_all
    have "\<exists>m'. followed sha api s t m' (a', T) Q"
      using worked [OF f(1) request(2)] waited [OF f(1) request(2)] by (cases "stays_open u Q") auto
    then show ?thesis using f(2) by blast
  qed
next
  case background
  then show ?thesis using others [OF assms(1) sys_step.background [OF background(2)]] by auto
qed

lemma followed_complete:
  assumes "(sys_step sha api)\<^sup>*\<^sup>* (a, add_mset t T) (a', U)"
  shows "\<exists>m T' R. followed sha api (a, T) t m (a', T') R \<and> U = R + T'"
  using assms
proof (induction "(a', U)" arbitrary: a' U)
  case base
  have "add_mset t T = {#t#} + T" by simp
  then show ?case using at_start [of sha api "(a, T)" t] by blast
next
  case (step s)
  obtain a1 U1 where s: "s = (a1, U1)" by (cases s)
  obtain m T1 R where "followed sha api (a, T) t m (a1, T1) R" "U1 = R + T1" using step(3) [OF s] by blast
  then show ?case using followed_step step(2) unfolding s by blast
qed

lemma handler_admit_work: "handler_admit a = (t, a') \<Longrightarrow> work n t \<le> 5 * n + 14"
  by (auto simp: handler_admit_def split: prod.splits option.splits permit.splits)

lemma step_pool_size: "step_ok sha a t a' R \<Longrightarrow> num_backends (shared a') = num_backends (shared a)"
  by (simp add: step_ok_def moves_def)

lemma sys_step_size:
  assumes "sys_step sha api (a, T) (a', T')" "sys_ok sha (a, T)"
  shows "num_backends (shared a') = num_backends (shared a)"
  using assms(1)
proof (cases rule: sys_step.cases)
  case (arrival t)
  then show ?thesis using step_pool_size [OF step_arrival [OF _ arrival(2)]] assms(2) by (auto simp: sys_ok_def)
next
  case (request t R)
  then show ?thesis using sys_step_num_backends [OF assms(2)] by blast
next
  case background
  then show ?thesis using step_pool_size [OF step_background [OF background(2)]] assms(2) by (auto simp: sys_ok_def)
qed

text \<open>A step of the followed request, on the work it has left.\<close>

lemma followed_own:
  assumes "task_step sha api (a, u) (a', R)" "sys_ok sha (a, add_mset u T)"
  shows "sys_ok sha (a', R + T)" "num_backends (shared a') = num_backends (shared a)"
    and "\<not> stays_open u R \<Longrightarrow> Suc (held (work (num_backends (shared a))) R) \<le> work (num_backends (shared a)) u"
    and "stays_open u R \<Longrightarrow> held (work (num_backends (shared a))) R = work (num_backends (shared a)) u"
proof -
  note step = request [OF assms(1), of "add_mset u T"]
  show "sys_ok sha (a', R + T)" using sys_step_ok [OF step assms(2)] by simp
  have at: "task_at sha a u" using sys_ok_task_at [OF assms(2)] by simp
  show "num_backends (shared a') = num_backends (shared a)" by (rule step_pool_size [OF task_step_ok [OF assms(1) at]])
  show "\<not> stays_open u R \<Longrightarrow> Suc (held (work (num_backends (shared a))) R) \<le> work (num_backends (shared a)) u"
    "stays_open u R \<Longrightarrow> held (work (num_backends (shared a))) R = work (num_backends (shared a)) u"
    using task_step_work [OF assms(1) at] by auto
qed

lemma followed_bound:
  assumes "followed sha api (a, T) t m s R" "sys_ok sha (a, add_mset t T)"
  shows "sys_ok sha (fst s, R + snd s) \<and> num_backends (shared (fst s)) = num_backends (shared a) \<and>
    m + held (work (num_backends (shared a))) R \<le> work (num_backends (shared a)) t"
  using assms(1)
proof (induction rule: followed.induct)
  case (worked m a1 T1 u a' R)
  then have "sys_ok sha (a1, add_mset u T1)" by simp
  from followed_own [OF worked(2) this] show ?case using worked by simp
next
  case (waited m a1 T1 u a' R)
  then have "sys_ok sha (a1, add_mset u T1)" by simp
  from followed_own [OF waited(2) this] show ?case using waited by simp
next
  case (others m a1 T1 R a' T')
  then have ok: "sys_ok sha (a1, R + T1)" by simp
  note step = sys_step_frame [OF others(2), of R]
  show ?case using others sys_step_ok [OF step ok] sys_step_size [OF step ok] by simp
qed (use assms(2) in simp)

end
