(* ===== verification/Handler_Runs.thy ===== *)
theory Handler_Runs
  imports Progress
begin

text \<open>
  The handlers and background tasks as runs of the transition system. A pass of the proxy handler
  is a sequence of steps of its own and of interferences at its synchronisation points
  (\<open>pass_run\<close>), and with other requests that make the interferences, arriving, advancing and
  ending in between, it is a run of the system. The answer of a backend, a poll of the response
  stream, a cancellation, a round of health checks and a scrape of the metrics, each executed
  without interruption, are sequences of steps too. So what holds in every reachable state holds
  throughout them. The limits and the identity of the backends (\<open>fixed_part\<close>) never change.
\<close>

section \<open>What never changes\<close>

text \<open>The limits, and the identity, URL and weight of the backends.\<close>

definition fixed_part :: "router_state \<Rightarrow> usize \<times> u64 \<times> (nat \<times> string \<times> u32) list" where
  "fixed_part w = (max_in_flight (controller w), max_queue_depth (pool w),
     map (\<lambda>b. (backend_id b, url b, weight b)) (backends (pool w)))"

named_theorems fixed

lemma fixed_on_backend [fixed]:
  assumes "\<And>b. backend_id (f b) = backend_id b" "\<And>b. url (f b) = url b" "\<And>b. weight (f b) = weight b"
  shows "fixed_part (on_backend i f w) = fixed_part w"
proof -
  have "map g (xs[i := f (xs ! i)]) = map g xs" if "\<And>b. g (f b) = g b" for g :: "backend \<Rightarrow> nat \<times> string \<times> u32" and xs
    using that by (metis list_update_id map_update)
  then show ?thesis using assms by (simp add: fixed_part_def on_backend_def)
qed

lemma fixed_simple [fixed]:
  "fixed_part (report m w) = fixed_part w"
  "fixed_part (release_permit w) = fixed_part w"
  "fixed_part (w\<lparr>controller := snd (try_acquire (controller w))\<rparr>) = fixed_part w"
  by (simp_all add: fixed_part_def frame_simps)

lemma fixed_routable [fixed]: "fixed_part (w\<lparr>pool := snd (routable ts (pool w))\<rparr>) = fixed_part w"
  by (simp add: fixed_part_def routable_pool list_eq_iff_nth_eq frame_simps)

lemma weight_frame [fixed]:
  "weight (record_request_start b) = weight b" "weight (record_request_end b) = weight b"
  "weight (update_ewma_latency l al b) = weight b" "weight (apply_verdict ts acc b) = weight b"
  by (auto simp: record_request_start_def record_request_end_def update_ewma_latency_def apply_verdict_def Let_def
      split: outcome.split)

lemma request_frame [fixed]:
  "backend_id (record_request_start b) = backend_id b" "url (record_request_start b) = url b"
  "backend_id (record_request_end b) = backend_id b" "url (record_request_end b) = url b"
  by (simp_all add: record_request_start_def record_request_end_def)

lemma fixed_drop_accounting [fixed]: "fixed_part (drop_accounting ts acc w) = fixed_part w"
  by (simp add: drop_accounting_def Let_def fixed frame_simps)

lemma fixed_stream [fixed]:
  "fixed_part (finish ts out acc w) = fixed_part w"
  "fixed_part (drop_stream ts s w) = fixed_part w"
  "fixed_part (snd (snd (poll_next ts ev s w))) = fixed_part w"
  "fixed_part (snd (resolve_probe_on_headers now st acc w)) = fixed_part w"
  "fixed_part (snd (into_response hv now ts f u acc w)) = fixed_part w"
  by (auto simp: finish_def drop_stream_def poll_next_def resolve_probe_on_headers_def into_response_def
      fixed split_def Let_def split: option.split poll.split response_body.split forwarded_body.split)

lemma fixed_steps [fixed]:
  "fixed_part (shared (snd (handler_admit a))) = fixed_part (shared a)"
  "fixed_part (shared (snd (reject st reason a))) = fixed_part (shared a)"
  "fixed_part (shared (snd (begin_reply hv now now' res acc a))) = fixed_part (shared a)"
  "fixed_part (shared (snd (cancel_task now t a))) = fixed_part (shared a)"
  "fixed_part (shared (snd (check_breaker now i a))) = fixed_part (shared a)"
  "fixed_part (snd (settle_step now s w)) = fixed_part w"
proof -
  have "fixed_part (shared a\<lparr>controller := c\<rparr>) = fixed_part (shared a)"
    if "try_acquire (controller (shared a)) = (o1, c)" for o1 c
    using fixed_simple(3) [of "shared a"] that by simp
  then show "fixed_part (shared (snd (handler_admit a))) = fixed_part (shared a)"
    by (auto simp: handler_admit_def inc_rejected_def fixed split: prod.split option.split permit.split)
  show "fixed_part (shared (snd (reject st reason a))) = fixed_part (shared a)"
    by (simp add: reject_def inc_rejected_def Let_def fixed)
  have "fixed_part w = fixed_part (shared a)"
    if "resolve_probe_on_headers now st acc (shared a) = (acc1, w)" for now st acc acc1 w
    using fixed_stream(4) [of now st acc "shared a"] that by simp
  then show "fixed_part (shared (snd (begin_reply hv now now' res acc a))) = fixed_part (shared a)"
    by (auto simp: begin_reply_def split: sum.split forward_error.split prod.split)
  show "fixed_part (shared (snd (cancel_task now t a))) = fixed_part (shared a)" by (cases t) (simp_all add: fixed)
  show "fixed_part (shared (snd (check_breaker now i a))) = fixed_part (shared a)"
    by (simp add: check_breaker_def split_def fixed)
  show "fixed_part (snd (settle_step now s w)) = fixed_part w"
    by (simp add: settle_step_def close_request_def Let_def fixed split: drop_stage.split)
qed

lemma task_step_fixed:
  assumes "task_step sha api (a, t) (a', R)"
  shows "fixed_part (shared a') = fixed_part (shared a)"
  using assms
proof (cases rule: task_step.cases)
  case (read_failed e st reason t')
  then show ?thesis using fixed_steps(2) [of st reason a] by simp
next
  case (checked now i r av body)
  then show ?thesis using fixed_steps(5) [of now i a] by simp
next
  case (none_left t' body)
  then show ?thesis using fixed_steps(2) [of 503 "''no_routable_backend''" a] by simp
next
  case (picked cands see draw req j body)
  then show ?thesis using pick_candidate_frame(1) [of "choose_with sha api draw" see req cands a] by simp
next
  case (pick_failed cands see draw req a1 t' body)
  then show ?thesis
    using pick_candidate_frame(1) [of "choose_with sha api draw" see req cands a]
      fixed_steps(2) [of 503 "''no_routable_backend''" a1] by simp
next
  case (begun now j adm cands body)
  then show ?thesis using begin_on_frame(2) [of now j a] by (simp add: fixed)
next
  case (refused now j cands body)
  then show ?thesis using begin_on_frame(2) [of now j a] by (simp add: fixed)
next
  case (replied hv now now' res acc body)
  then show ?thesis using fixed_steps(3) [of hv now now' res acc a] by (metis snd_conv)
next
  case (settling now s s' w k)
  then show ?thesis using fixed_steps(6) [of now s "shared a"] by simp
next
  case (settled now s w k)
  then show ?thesis using fixed_steps(6) [of now s "shared a"] by simp
next
  case (cancelled now r)
  then show ?thesis using fixed_steps(4) [of now t a] by simp
qed (auto simp: start_accounting_def fixed)

lemma background_step_fixed: "background_step a a' \<Longrightarrow> fixed_part (shared a') = fixed_part (shared a)"
proof (induction rule: background_step.induct)
  case (probed a i cfg r)
  show ?case by (simp add: fixed record_probe_def Let_def reset_scraped_def apply_probe_result_def mark_healthy_def mark_unhealthy_def)
next
  case (exported i a f now)
  then show ?case
    by (auto simp: exports_def export_connections_def export_health_def export_breaker_def export_queue_depth_def
        export_kv_cache_def split_def fixed)
qed (simp_all add: fixed apply_scrape_eq reset_scraped_def)

lemma sys_step_fixed: "sys_step sha api s s' \<Longrightarrow> fixed_part (shared (fst s')) = fixed_part (shared (fst s))"
proof (induction rule: sys_step.induct)
  case (arrival a t a' T)
  then show ?case using fixed_steps(1) [of a] by simp
qed (simp_all add: task_step_fixed background_step_fixed)

lemma sys_run_fixed: "(sys_step sha api)\<^sup>*\<^sup>* s s' \<Longrightarrow> fixed_part (shared (fst s')) = fixed_part (shared (fst s))"
  by (induction rule: rtranclp_induct) (simp_all add: sys_step_fixed)

lemma fixed_size: "fixed_part w = fixed_part w' \<Longrightarrow> num_backends w = num_backends w'"
  by (auto simp: fixed_part_def dest: map_eq_imp_length_eq)

lemma sys_reachable_fixed:
  assumes "sys_reachable sha api c s"
  shows "fixed_part (shared (fst s)) =
    (bp_max_in_flight (cfg_backpressure c), max_backend_queue_depth (cfg_backpressure c),
     map (\<lambda>(i, bc). (i, normalized_url bc, bc_weight bc)) (List.enumerate 0 (cfg_backends c)))"
  using assms
proof (induction rule: sys_reachable.induct)
  case (start client_builds ts ap)
  then show ?case
    by (auto simp: fixed_part_def build_app_def Let_def new_controller_def new_pool_def build_backends_def new_backend_def
        split: sum.splits if_splits)
qed (simp add: sys_step_fixed)

section \<open>The proxy handler\<close>

definition after_select :: "(sync_point \<Rightarrow> app_state \<Rightarrow> app_state) \<Rightarrow> instant \<Rightarrow> string \<Rightarrow> (nat \<times> admission) option \<Rightarrow>
    app_state \<Rightarrow> request_task \<times> app_state" where
  "after_select others now body r a =
     (case r of
        None \<Rightarrow> reject 503 ''no_routable_backend'' a
      | Some (i, adm) \<Rightarrow>
          (let a2 = others Before_start a in
           case start_accounting i (strategy_name a2) (ewma_alpha a2) adm now (shared a2) of
             (acc, w) \<Rightarrow> (Awaiting_backend acc body, a2\<lparr>shared := w\<rparr>)))"

text \<open>
  A pass of one request: its own steps, and the interferences \<open>others p\<close> it meets on the way, with
  the states it meets them in.
\<close>

inductive pass_run :: "(string \<Rightarrow> string) \<Rightarrow> 'v json_api \<Rightarrow> (sync_point \<Rightarrow> app_state \<Rightarrow> app_state) \<Rightarrow>
    app_state \<times> request_task \<Rightarrow> (sync_point \<times> app_state) list \<Rightarrow> app_state \<times> request_task \<Rightarrow> bool"
  for sha :: "string \<Rightarrow> string" and api :: "'v json_api" and others :: "sync_point \<Rightarrow> app_state \<Rightarrow> app_state"
    and s :: "app_state \<times> request_task"
where
  here: "pass_run sha api others s [] s"
| own: "pass_run sha api others s ps (a, t) \<Longrightarrow> task_step sha api (a, t) (a', {#t'#}) \<Longrightarrow>
    pass_run sha api others s ps (a', t')"
| away: "pass_run sha api others s ps (a, t) \<Longrightarrow> pass_run sha api others s (ps @ [(p, a)]) (others p a, t)"

text \<open>
  The other requests make the interferences: \<open>C j\<close> are the requests there are besides, before the
  \<open>j\<close>-th interference, and a run of theirs, with health checks and scrapes, leads to the next.
\<close>

definition crowd_makes :: "(string \<Rightarrow> string) \<Rightarrow> 'v json_api \<Rightarrow> (sync_point \<Rightarrow> app_state \<Rightarrow> app_state) \<Rightarrow>
    (sync_point \<times> app_state) list \<Rightarrow> (nat \<Rightarrow> request_task multiset) \<Rightarrow> bool" where
  "crowd_makes sha api others ps C \<longleftrightarrow>
     (\<forall>j < length ps. case ps ! j of (p, a) \<Rightarrow> (sys_step sha api)\<^sup>*\<^sup>* (a, C j) (others p a, C (Suc j)))"

definition pass_between :: "(string \<Rightarrow> string) \<Rightarrow> 'v json_api \<Rightarrow> (sync_point \<Rightarrow> app_state \<Rightarrow> app_state) \<Rightarrow>
    app_state \<times> request_task \<Rightarrow> app_state \<times> request_task \<Rightarrow> bool" where
  "pass_between sha api others s s' \<longleftrightarrow> (\<exists>ps. pass_run sha api others s ps s')"

lemma one_step:
  "task_step sha api (a, t) (a', {#t'#}) \<Longrightarrow> sys_step sha api (a, add_mset t T) (a', add_mset t' T)"
  using request [of sha api a t a' "{#t'#}" "add_mset t T"] by simp

text \<open>Whatever the other requests do at the interferences, the whole is a run of the system.\<close>

lemma pass_run_crowd:
  assumes "pass_run sha api others (a, t) ps (a', t')" "crowd_makes sha api others ps C"
  shows "(sys_step sha api)\<^sup>*\<^sup>* (a, add_mset t (C 0)) (a', add_mset t' (C (length ps)))"
  using assms
proof (induction ps "(a', t')" arbitrary: a' t' rule: pass_run.induct)
  case (own ps a1 t1 a2 t2)
  then show ?case by (blast intro: one_step rtranclp.rtrancl_into_rtrancl)
next
  case (away ps a1 t1 p)
  have "crowd_makes sha api others ps C" "(sys_step sha api)\<^sup>*\<^sup>* (a1, C (length ps)) (others p a1, C (Suc (length ps)))"
    using away.prems unfolding crowd_makes_def by (auto simp: nth_append less_Suc_eq split: prod.splits)
  then have "(sys_step sha api)\<^sup>*\<^sup>* (a, add_mset t (C 0)) (a1, add_mset t1 (C (length ps)))"
    "(sys_step sha api)\<^sup>*\<^sup>* (a1, add_mset t1 (C (length ps))) (others p a1, add_mset t1 (C (Suc (length ps))))"
    using away(2) sys_run_frame [of sha api a1 "C (length ps)" "others p a1" "C (Suc (length ps))" "{#t1#}"] by simp_all
  then show ?case using rtranclp_trans by fastforce
qed simp

lemma pass_between_refl [simp]: "pass_between sha api others s s"
  unfolding pass_between_def by (rule exI) (rule here)

lemma pass_run_trans:
  assumes "pass_run sha api others s2 qs s3" "pass_run sha api others s1 ps s2"
  shows "pass_run sha api others s1 (ps @ qs) s3"
  using assms
proof (induction rule: pass_run.induct)
  case (away qs a t p)
  then show ?case using pass_run.away [of sha api others s1 "ps @ qs" a t p] by simp
qed (auto intro: pass_run.own)

lemma pass_between_trans [trans]:
  "pass_between sha api others s1 s2 \<Longrightarrow> pass_between sha api others s2 s3 \<Longrightarrow> pass_between sha api others s1 s3"
  unfolding pass_between_def by (blast intro: pass_run_trans)

lemma own_between: "task_step sha api (a, t) (a', {#t'#}) \<Longrightarrow> pass_between sha api others (a, t) (a', t')"
  unfolding pass_between_def by (blast intro: here own)

text \<open>Interference, and then a step of the request.\<close>

lemma interfered: "pass_between sha api others (a, t) (others p a, t)"
  unfolding pass_between_def by (blast intro: here away)

lemma interfered_step:
  "task_step sha api (others p a, t) (a', {#t'#}) \<Longrightarrow> pass_between sha api others (a, t) (a', t')"
  using interfered own_between pass_between_trans by blast

text \<open>No interference changes the number of backends.\<close>

definition size_kept :: "(sync_point \<Rightarrow> app_state \<Rightarrow> app_state) \<Rightarrow> bool" where
  "size_kept others \<longleftrightarrow> (\<forall>p a. num_backends (shared (others p a)) = num_backends (shared a))"

lemma scan_available_run:
  assumes "size_kept others" "num_backends (shared a) = n" "i \<le> n"
    and "scan_available others ts [i..<n] a = (found, a')"
  shows "pass_between sha api others (a, Scanning i av body) (a', Scanning n (av @ found) body) \<and>
    num_backends (shared a') = n"
  using assms(2-4)
proof (induction "n - i" arbitrary: i a av found)
  case 0
  then show ?case by simp
next
  case (Suc m)
  then have i: "i < n" and js: "[i..<n] = i # [Suc i..<n]" by (simp_all add: upt_conv_Cons)
  let ?a1 = "others (Before_healthy i) a"
  let ?a2 = "others (Before_breaker i) ?a1"
  have n1: "num_backends (shared ?a1) = n" using assms(1) Suc.prems by (simp add: size_kept_def)
  show ?case
  proof (cases "is_healthy (app_backend ?a1 i)")
    case True
    obtain r a3 where chk: "check_breaker (ts i) i ?a2 = (r, a3)" by fastforce
    obtain found2 where rest: "scan_available others ts [Suc i..<n] a3 = (found2, a')"
      "found = (if r then i # found2 else found2)"
      using Suc.prems(3) True chk unfolding js by (auto simp: Let_def split: prod.splits)
    have n3: "num_backends (shared a3) = n"
      using fixed_size [OF task_step_fixed [OF checked [OF chk]]] assms(1) n1 by (simp add: size_kept_def)
    have "pass_between sha api others (a, Scanning i av body) (?a1, Checking i av body)"
      using interfered_step [where others = others and p = "Before_healthy i" and a = a, OF seen_healthy] i n1 True by simp
    also have "pass_between sha api others (?a1, Checking i av body)
        (a3, Scanning (Suc i) (if r then av @ [i] else av) body)"
      by (rule interfered_step [where others = others and p = "Before_breaker i" and a = "?a1", OF checked [OF chk]])
    also have "pass_between sha api others (a3, Scanning (Suc i) (if r then av @ [i] else av) body)
        (a', Scanning n ((if r then av @ [i] else av) @ found2) body)"
      using Suc.hyps(1) [of "Suc i" a3 found2 "if r then av @ [i] else av"] Suc.hyps(2) n3 i rest(1) by simp
    finally show ?thesis
      using Suc.hyps(1) [of "Suc i" a3 found2] Suc.hyps(2) n3 i rest by (simp split: if_splits)
  next
    case False
    then have rest: "scan_available others ts [Suc i..<n] ?a1 = (found, a')"
      using Suc.prems(3) unfolding js by (simp add: Let_def)
    have "pass_between sha api others (a, Scanning i av body) (?a1, Scanning (Suc i) av body)"
      using interfered_step [where others = others and p = "Before_healthy i" and a = a, OF seen_unhealthy] i n1 False by simp
    also have "pass_between sha api others (?a1, Scanning (Suc i) av body) (a', Scanning n (av @ found) body)"
      using Suc.hyps(1) [of "Suc i" ?a1 found av] Suc.hyps(2) n1 i rest by simp
    finally show ?thesis using Suc.hyps(1) [of "Suc i" ?a1 found] Suc.hyps(2) n1 i rest by simp
  qed
qed

lemma scan_under_limit_run:
  assumes "scan_under_limit others todo a = (found, a')"
  shows "pass_between sha api others (a, Filtering todo av ul body) (a', Filtering [] av (ul @ found) body)"
  using assms
proof (induction todo arbitrary: a ul found)
  case (Cons i todo)
  let ?a1 = "others (Before_queue_depth i) a"
  let ?keep = "queue_depth (app_backend ?a1 i) \<le> max_queue_depth (pool (shared ?a1))"
  obtain found2 where rest: "scan_under_limit others todo ?a1 = (found2, a')"
    "found = (if ?keep then i # found2 else found2)"
    using Cons.prems by (auto simp: Let_def split: prod.splits)
  have "pass_between sha api others (a, Filtering (i # todo) av ul body)
      (?a1, Filtering todo av (if ?keep then ul @ [i] else ul) body)"
    by (rule interfered_step [where others = others and p = "Before_queue_depth i" and a = a, OF depth_read [OF refl]])
  also have "pass_between sha api others (?a1, Filtering todo av (if ?keep then ul @ [i] else ul) body)
      (a', Filtering [] av ((if ?keep then ul @ [i] else ul) @ found2) body)"
    by (rule Cons.IH [OF rest(1)])
  finally show ?case using rest(2) by (simp split: if_splits)
qed simp

lemma scan_routable_run:
  assumes "size_kept others" "scan_routable others ts a = (cands, a')"
  shows "pass_between sha api others (a, Scanning 0 [] body) (a', Selecting cands body)"
proof -
  let ?n = "num_backends (shared a)"
  obtain av a1 where av: "scan_available others ts [0..<?n] a = (av, a1)" by fastforce
  obtain ul where ul: "scan_under_limit others av a1 = (ul, a')" "cands = (if ul = [] then av else ul)"
    using assms(2) av by (auto simp: scan_routable_def split: prod.splits)
  note scan = scan_available_run [OF assms(1) refl le0 av, where av = "[]" and body = body and sha = sha and api = api]
  have "pass_between sha api others (a, Scanning 0 [] body) (a1, Scanning ?n av body)"
    using scan by simp
  also have "pass_between sha api others (a1, Scanning ?n av body) (a1, Filtering av av [] body)"
    using scan by (intro own_between scanned) simp
  also have "pass_between sha api others (a1, Filtering av av [] body) (a', Filtering [] av ul body)"
    using scan_under_limit_run [OF ul(1), where av = av and ul = "[]" and body = body] by simp
  also have "pass_between sha api others (a', Filtering [] av ul body) (a', Selecting cands body)"
    unfolding ul(2) by (rule own_between [OF filtered])
  finally show ?thesis .
qed

lemma start_run:
  "pass_between sha api others (a, Starting j adm body)
    (snd (after_select others now body (Some (j, adm)) a), fst (after_select others now body (Some (j, adm)) a))"
proof -
  let ?a = "others Before_start a"
  obtain acc w where acc: "start_accounting j (strategy_name ?a) (ewma_alpha ?a) adm now (shared ?a) = (acc, w)"
    by fastforce
  from interfered_step [where others = others and p = "Before_start" and a = a, OF started [OF acc, where body = body]] show ?thesis by (simp add: after_select_def acc)
qed

lemma reject_run:
  assumes "\<And>t' a'. reject st reason a = (t', a') \<Longrightarrow> task_step sha api (a0, t) (a', {#t'#})"
  shows "pass_between sha api others (a0, t) (snd (reject st reason a), fst (reject st reason a))"
  by (rule own_between [OF assms]) simp

lemma select_loop_run:
  assumes "\<And>k. choice env k = choose_with sha api (draw k)" "\<And>k. identity_kept (seen env k)"
    and "select_loop others env req k cands a = (r, a')"
  shows "pass_between sha api others (a, Selecting cands body)
    (snd (after_select others now body r a'), fst (after_select others now body r a'))"
  using assms
proof (induction others env req k cands a rule: select_loop.induct)
  case (1 others env req k cands a)
  let ?a0 = "others (Before_strategy k) a"
  show ?case
  proof (cases "cands = []")
    case True
    then have "r = None" "a' = a" using "1.prems"(3) by (simp_all add: select_loop.simps)
    moreover have "pass_between sha api others (a, Selecting [] body)
        (snd (reject 503 ''no_routable_backend'' a), fst (reject 503 ''no_routable_backend'' a))"
      by (rule reject_run [OF none_left])
    ultimately show ?thesis using True by (simp add: after_select_def)
  next
    case False
    obtain o1 a1 where pick: "pick_candidate (choice env k) (seen env k) req cands ?a0 = (o1, a1)" by fastforce
    note pick' = pick [unfolded "1.prems"(1)]
    show ?thesis
    proof (cases o1)
      case None
      then have r: "r = None" "a' = a1" using "1.prems"(3) False pick by (simp_all add: select_loop.simps)
      have "pass_between sha api others (?a0, Selecting cands body)
          (snd (reject 503 ''no_routable_backend'' a1), fst (reject 503 ''no_routable_backend'' a1))"
        by (rule reject_run [OF pick_failed [OF False "1.prems"(2) pick' [unfolded None]]])
      then show ?thesis unfolding r after_select_def option.case
        by (rule pass_between_trans [OF interfered])
    next
      case (Some j)
      let ?a1 = "others (Before_begin k) a1"
      have to_begin: "pass_between sha api others (a, Selecting cands body) (a1, Beginning j cands body)"
        by (rule interfered_step [where others = others and p = "Before_strategy k" and a = a, OF picked [OF False "1.prems"(2) pick' [unfolded Some]]])
      obtain o2 a2 where beg: "begin_on (begin_at env k) j ?a1 = (o2, a2)" by fastforce
      show ?thesis
      proof (cases o2)
        case None
        then have "select_loop others env req (Suc k) (retain_others j cands a2) a2 = (r, a')"
          using "1.prems"(3) False pick Some beg by (simp add: select_loop.simps [of others env req k])
        note rest = "1.IH" [OF False pick [symmetric] Some beg [symmetric] None "1.prems"(1,2) this]
        have "pass_between sha api others (a1, Beginning j cands body) (a2, Selecting (retain_others j cands a2) body)"
          by (rule interfered_step [where others = others and p = "Before_begin k" and a = a1, OF refused [OF beg [unfolded None]]])
        then show ?thesis by (rule pass_between_trans [OF to_begin pass_between_trans [OF _ rest]])
      next
        case (Some adm)
        then have r: "r = Some (j, adm)" "a' = a2"
          using "1.prems"(3) False pick \<open>o1 = Some j\<close> beg by (simp_all add: select_loop.simps)
        have "pass_between sha api others (a1, Beginning j cands body) (a2, Starting j adm body)"
          by (rule interfered_step [where others = others and p = "Before_begin k" and a = a1, OF begun [OF beg [unfolded Some]]])
        then show ?thesis unfolding r
          by (rule pass_between_trans [OF to_begin pass_between_trans [OF _ start_run]])
      qed
    qed
  qed
qed

lemma handler_route_run:
  assumes "size_kept others"
    and "\<And>k. choice env k = choose_with sha api (draw k)" "\<And>k. identity_kept (seen env k)"
    and "handler_route others env from_slice now cr read_body a = (t', a')"
  shows "pass_between sha api others (a, Reading_body) (a', t')"
proof (cases read_body)
  case (Inl e)
  obtain st reason where e: "body_error_status e = (st, reason)" by fastforce
  have "(t', a') = reject st reason a" using assms(4) Inl e by (simp add: handler_route_def)
  moreover have "pass_between sha api others (a, Reading_body) (snd (reject st reason a), fst (reject st reason a))"
    by (rule reject_run [OF read_failed [OF e]])
  ultimately show ?thesis by (metis fst_conv snd_conv)
next
  case (Inr body)
  let ?req = "\<lparr>req_path = cr_path cr, req_body = from_slice body\<rparr>"
  obtain cands a1 where sc: "scan_routable others (routable_at env) a = (cands, a1)" by fastforce
  obtain r a2 where sel: "select_loop others env ?req 0 cands a1 = (r, a2)" by fastforce
  have res: "(t', a') = after_select others now body r a2"
    using assms(4) Inr sc sel by (auto simp: handler_route_def select_backend_def after_select_def Let_def split: option.split)
  have "pass_between sha api others (a, Reading_body) (a, Scanning 0 [] body)"
    by (rule own_between [OF read_done])
  also have "pass_between sha api others (a, Scanning 0 [] body) (a1, Selecting cands body)"
    by (rule scan_routable_run [OF assms(1) sc])
  also have "pass_between sha api others (a1, Selecting cands body) (a', t')"
    using select_loop_run [OF assms(2,3) sel, where body = body and now = now] res by (metis fst_conv snd_conv)
  finally show ?thesis .
qed

text \<open>When nobody comes between, it is a run beside any other requests.\<close>

lemma handler_route_alone:
  assumes "\<And>k. choice env k = choose_with sha api (draw k)" "\<And>k. identity_kept (seen env k)"
    and "handler_route (\<lambda>_ x. x) env from_slice now cr read_body a = (t', a')"
  shows "(sys_step sha api)\<^sup>*\<^sup>* (a, add_mset Reading_body T) (a', add_mset t' T)"
proof -
  have "size_kept (\<lambda>_ x. x)" by (simp add: size_kept_def)
  from handler_route_run [OF this assms] obtain ps where
    "pass_run sha api (\<lambda>_ x. x) (a, Reading_body) ps (a', t')" unfolding pass_between_def by blast
  from pass_run_crowd [OF this, of "\<lambda>_. T"] show ?thesis by (simp add: crowd_makes_def split_def)
qed

section \<open>Replies, polls and cancellations\<close>

text \<open>A drop of a guard, when nobody comes between its steps.\<close>

lemma settle_run:
  "(sys_step sha api)\<^sup>*\<^sup>* (a\<lparr>shared := w\<rparr>, add_mset (Settling s k) T) (a\<lparr>shared := settle ts s w\<rparr>, add_mset (resume k) T)"
proof (induction ts s w rule: settle.induct)
  case (1 ts s w)
  let ?now = "stage_reading ts (settling_stage s)"
  obtain o1 w1 where step: "settle_step ?now s w = (o1, w1)" by fastforce
  show ?case
  proof (cases o1)
    case None
    then have "task_step sha api (a\<lparr>shared := w\<rparr>, Settling s k) (a\<lparr>shared := settle ts s w\<rparr>, {#resume k#})"
      using settled [of ?now s "a\<lparr>shared := w\<rparr>" w1] step by (simp add: settle.simps [of ts s w])
    then show ?thesis by (blast intro: one_step)
  next
    case (Some s')
    then have "task_step sha api (a\<lparr>shared := w\<rparr>, Settling s k) (a\<lparr>shared := w1\<rparr>, {#Settling s' k#})"
      using settling [of ?now s "a\<lparr>shared := w\<rparr>" s' w1] step by simp
    moreover have "(sys_step sha api)\<^sup>*\<^sup>* (a\<lparr>shared := w1\<rparr>, add_mset (Settling s' k) T)
        (a\<lparr>shared := settle ts s w\<rparr>, add_mset (resume k) T)"
      using 1 [OF step [symmetric] Some] step Some by (simp add: settle.simps [of ts s w])
    ultimately show ?thesis by (blast intro: one_step converse_rtranclp_into_rtranclp)
  qed
qed

lemma drop_run:
  "(sys_step sha api)\<^sup>*\<^sup>* (a, add_mset (Settling (begin_drop (ts 0) acc) k) T)
     (a\<lparr>shared := drop_accounting ts acc (shared a)\<rparr>, add_mset (resume k) T)"
  using settle_run [where a = a and w = "shared a" and s = "begin_drop (ts 0) acc" and ts = ts] by (simp add: settle_drop)

lemmas drop_run_reply = drop_run [where k = "Reply st" for st, unfolded resume.simps]

lemma into_response_run:
  assumes "into_response hv (ts 3) ts f u acc (shared a) = (ro, w)"
    and "resolve_probe_on_headers (ts 3) (fwd_status f) acc (shared a) = (acc1, w1)"
    and "t' = (case ro of None \<Rightarrow> Replied_with 0
      | Some x \<Rightarrow> (case resp_body x of Body_bytes _ \<Rightarrow> Replied_with (resp_status x) | Body_stream s \<Rightarrow> Streaming s))"
  shows "(sys_step sha api)\<^sup>*\<^sup>* (a\<lparr>shared := w1\<rparr>, add_mset (after_headers (hv u) (ts 0) f acc1) T) (a\<lparr>shared := w\<rparr>, add_mset t' T)"
proof (cases "fwd_body f")
  case (Full bytes)
  let ?acc = "acc1\<lparr>acc_outcome := Completed (fwd_status f)\<rparr>"
  have "w = drop_accounting ts ?acc w1" "t' = Replied_with (if hv u then fwd_status f else 0)"
    using assms Full by (auto simp: into_response_def finish_def Let_def split: if_splits)
  then show ?thesis using drop_run_reply [where sha = sha and api = api and a = "a\<lparr>shared := w1\<rparr>" and acc = ?acc and ts = ts] Full
    by (simp only: after_headers_def forwarded_body.case) simp
next
  case Stream
  show ?thesis
  proof (cases "hv u")
    case True
    then show ?thesis using assms Stream by (auto simp: into_response_def after_headers_def Let_def)
  next
    case False
    then have "w = drop_accounting ts acc1 w1" "t' = Replied_with 0"
      using assms Stream by (auto simp: into_response_def drop_stream_def new_accounted_stream_def Let_def)
    then show ?thesis using drop_run_reply [where sha = sha and api = api and a = "a\<lparr>shared := w1\<rparr>" and acc = acc1 and ts = ts] Stream False
      by (simp add: after_headers_def)
  qed
qed

lemma handler_reply_run:
  assumes "handler_reply hv ts res acc a = ((r, t'), a')"
  shows "(sys_step sha api)\<^sup>*\<^sup>* (a, add_mset (Awaiting_backend acc body) T) (a', add_mset t' T)"
proof -
  obtain t1 a1 where b: "begin_reply hv (ts 3) (ts 0) res acc a = (t1, a1)" by fastforce
  have "sys_step sha api (a, add_mset (Awaiting_backend acc body) T) (a1, add_mset t1 T)"
    by (rule one_step [OF replied [OF b]])
  moreover have "(sys_step sha api)\<^sup>*\<^sup>* (a1, add_mset t1 T) (a', add_mset t' T)"
  proof (cases res)
    case (Inl e)
    show ?thesis
    proof (cases e)
      case Connect
      let ?acc = "acc\<lparr>acc_outcome := TransportError\<rparr>"
      have "a1 = a" "t1 = Settling (begin_drop (ts 0) ?acc) (Reply (forward_error_status e))"
        "a' = a\<lparr>shared := drop_accounting ts ?acc (shared a)\<rparr>" "t' = Replied_with (forward_error_status e)"
        using assms b Inl Connect by (auto simp: begin_reply_def handler_reply_def finish_forward_error_def finish_def)
      then show ?thesis using drop_run_reply [where sha = sha and api = api and a = a and acc = ?acc and ts = ts] by simp
    next
      case (Body t)
      let ?acc = "(mark_headers_received_at t acc)\<lparr>acc_outcome := StreamError\<rparr>"
      have "a1 = a" "t1 = Settling (begin_drop (ts 0) ?acc) (Reply (forward_error_status e))"
        "a' = a\<lparr>shared := drop_accounting ts ?acc (shared a)\<rparr>" "t' = Replied_with (forward_error_status e)"
        using assms b Inl Body by (auto simp: begin_reply_def handler_reply_def finish_forward_error_def finish_def)
      then show ?thesis using drop_run_reply [where sha = sha and api = api and a = a and acc = ?acc and ts = ts] by simp
    qed
  next
    case (Inr f)
    let ?u = "url (app_backend a (acc_backend acc))" and ?m = "mark_headers_received_at (fwd_headers_at f) acc"
    obtain acc1 w1 where res: "resolve_probe_on_headers (ts 3) (fwd_status f) ?m (shared a) = (acc1, w1)" by fastforce
    obtain ro w where ir: "into_response hv (ts 3) ts f ?u ?m (shared a) = (ro, w)" by fastforce
    have "a' = a\<lparr>shared := w\<rparr>" "t' = (case ro of None \<Rightarrow> Replied_with 0
        | Some x \<Rightarrow> (case resp_body x of Body_bytes _ \<Rightarrow> Replied_with (resp_status x) | Body_stream s \<Rightarrow> Streaming s))"
      using assms Inr ir by (auto simp: handler_reply_def split: option.splits)
    moreover have "a1 = a\<lparr>shared := w1\<rparr>" "t1 = after_headers (hv ?u) (ts 0) f acc1"
      using b Inr res by (simp_all add: begin_reply_def)
    ultimately show ?thesis using into_response_run [OF ir res] by simp
  qed
  ultimately show ?thesis by (rule converse_rtranclp_into_rtranclp)
qed

lemma poll_next_run:
  assumes "poll_next ts (ev :: unit poll) s (shared a) = (out, s', w)"
  shows "(sys_step sha api)\<^sup>*\<^sup>* (a, add_mset (Streaming s) T) (a\<lparr>shared := w\<rparr>, add_mset (Streaming s') T)"
proof -
  have step: "sys_step sha api (a, add_mset (Streaming s) T) (a, add_mset (begin_poll (ts 0) ev s) T)"
    by (rule one_step [OF polled])
  show ?thesis
  proof (cases "\<exists>acc. accounting s = Some acc \<and> terminal ev")
    case True
    then obtain acc where acc: "accounting s = Some acc" "terminal ev" by blast
    let ?acc = "acc\<lparr>acc_outcome := terminal_outcome (stream_status s) ev\<rparr>"
    have "begin_poll (ts 0) ev s = Settling (begin_drop (ts 0) ?acc) (Fused s)"
      using acc by (cases ev) (simp_all add: begin_poll_def)
    moreover have "w = drop_accounting ts ?acc (shared a)" "Streaming s' = resume (Fused s)"
      using poll_terminal [OF acc, of ts "shared a"] assms by (simp_all add: finish_def)
    ultimately show ?thesis using step drop_run [where sha = sha and api = api and a = a and acc = ?acc and ts = ts and k = "Fused s" and T = T] by (simp add: converse_rtranclp_into_rtranclp)
  next
    case False
    then have "w = shared a" "begin_poll (ts 0) ev s = Streaming s'"
      using assms by (cases ev; auto simp: poll_next_def begin_poll_def split: option.splits)+
    then show ?thesis using step by (simp add: r_into_rtranclp)
  qed
qed

lemma gone_run: "sys_step sha api (a, add_mset (Replied_with st) T) (a, T)"
  using request [OF cancelled [where t = "Replied_with st" and now = 0 and a = a and r = None and a' = a],
      where T = "add_mset (Replied_with st) T"]
  by simp

lemma drop_task_run:
  assumes "suspended t"
  shows "(sys_step sha api)\<^sup>*\<^sup>* (a, add_mset t T) (drop_task ts t a, T)"
proof -
  obtain r a1 where c: "cancel_task (ts 0) t a = (r, a1)" by fastforce
  have step: "sys_step sha api (a, add_mset t T) (a1, (case r of None \<Rightarrow> {#} | Some t' \<Rightarrow> {#t'#}) + T)"
    using request [OF cancelled [OF assms c], where T = "add_mset t T"] by simp
  show ?thesis
  proof (cases r)
    case None
    then have "a1 = drop_task ts t a"
      using c by (cases t) (auto simp: drop_stream_def split: option.splits)
    then show ?thesis using step None by (simp add: r_into_rtranclp)
  next
    case (Some t')
    obtain acc where acc: "t' = Settling (begin_drop (ts 0) acc) (Reply 0)" "a1 = a"
      "drop_task ts t a = a\<lparr>shared := drop_accounting ts acc (shared a)\<rparr>"
    proof (cases t)
      case (Awaiting_backend acc body)
      then show ?thesis using that [of acc] c Some by simp
    next
      case (Streaming s)
      then obtain acc where "accounting s = Some acc" using c Some by (auto split: option.splits)
      then show ?thesis using Streaming c Some
        by (intro that [of "if done_seen s then acc\<lparr>acc_outcome := Completed (stream_status s)\<rparr> else acc"])
          (auto simp: drop_stream_def finish_def)
    qed (use c Some assms in auto)
    have "(sys_step sha api)\<^sup>*\<^sup>* (a, add_mset t' T) (drop_task ts t a, add_mset (Replied_with 0) T)"
      using drop_run_reply [where sha = sha and api = api and a = a and acc = acc and ts = ts] by (simp add: acc)
    then have "(sys_step sha api)\<^sup>*\<^sup>* (a, add_mset t' T) (drop_task ts t a, T)"
      by (rule rtranclp.rtrancl_into_rtrancl) (rule gone_run)
    then show ?thesis using step Some acc(2) by (simp add: converse_rtranclp_into_rtranclp)
  qed
qed

section \<open>Health checks and scrapes\<close>

lemma check_one_run:
  "(sys_step sha api)\<^sup>*\<^sup>* (a, T) (a\<lparr>shared := on_backend i (check_one cfg gh gm) (shared a)\<rparr>, T)"
proof -
  let ?b = "app_backend a i"
  define r where "r = (case gh (health_url ?b) of Some st \<Rightarrow> is_success st | None \<Rightarrow> False)"
  let ?a1 = "a\<lparr>shared := on_backend i (\<lambda>b. snd (record_probe cfg r b)) (shared a)\<rparr>"
  have probe: "sys_step sha api (a, T) (?a1, T)" by (rule background [OF probed])
  show ?thesis
  proof (cases r)
    case False
    then have "check_one cfg gh gm ?b = snd (record_probe cfg r ?b)"
      by (simp add: check_one_def r_def record_probe_def Let_def)
    then have "a\<lparr>shared := on_backend i (check_one cfg gh gm) (shared a)\<rparr> = ?a1"
      using on_backend_cong [of "check_one cfg gh gm" "shared a" i] by simp
    with probe show ?thesis by simp
  next
    case True
    obtain g where g: "check_one cfg gh gm ?b = g (snd (record_probe cfg r ?b))" "g = reset_scraped \<or> (\<exists>t. g = apply_scrape t)"
    proof -
      have "check_one cfg gh gm ?b = (case gm (metrics_url ?b) of
            Some (st, Some t) \<Rightarrow> if is_success st then apply_scrape t (snd (record_probe cfg r ?b)) else reset_scraped (snd (record_probe cfg r ?b))
          | _ \<Rightarrow> reset_scraped (snd (record_probe cfg r ?b)))"
        using True by (auto simp: check_one_def r_def record_probe_def Let_def split: option.split prod.split)
      then show thesis using that by (auto split: option.splits prod.splits if_splits)
    qed
    have "sys_step sha api (?a1, T) (?a1\<lparr>shared := on_backend i g (shared ?a1)\<rparr>, T)"
      using g(2) background [OF scraped] background [OF scrape_failed] by blast
    moreover have "on_backend i g (shared ?a1) = on_backend i (check_one cfg gh gm) (shared a)"
    proof -
      have "on_backend i g (shared ?a1) = on_backend i (\<lambda>b. g (snd (record_probe cfg r b))) (shared a)"
        by (simp add: on_backend_comp)
      also have "\<dots> = on_backend i (check_one cfg gh gm) (shared a)" by (rule on_backend_cong) (simp add: g(1))
      finally show ?thesis .
    qed
    ultimately show ?thesis using probe by (simp add: converse_rtranclp_into_rtranclp)
  qed
qed

lemma fold_run:
  assumes "\<And>a i. i \<in> set js \<Longrightarrow> i < num_backends (shared a) \<Longrightarrow>
      (sys_step sha api)\<^sup>*\<^sup>* (a, T) (a\<lparr>shared := g i (shared a)\<rparr>, T)"
    and "\<And>i w. num_backends (g i w) = num_backends w" "\<forall>i \<in> set js. i < num_backends (shared a)"
  shows "(sys_step sha api)\<^sup>*\<^sup>* (a, T) (a\<lparr>shared := fold g js (shared a)\<rparr>, T)"
  using assms
proof (induction js arbitrary: a)
  case (Cons i js)
  let ?a = "a\<lparr>shared := g i (shared a)\<rparr>"
  have "(sys_step sha api)\<^sup>*\<^sup>* (a, T) (?a, T)" using Cons.prems by simp
  moreover have "(sys_step sha api)\<^sup>*\<^sup>* (?a, T) (?a\<lparr>shared := fold g js (shared ?a)\<rparr>, T)"
    using Cons.prems by (intro Cons.IH) simp_all
  ultimately show ?case by simp
qed simp

lemma health_round_run:
  "(sys_step sha api)\<^sup>*\<^sup>* (a, T) (a\<lparr>shared := (shared a)\<lparr>pool := health_round cfg gh gm (pool (shared a))\<rparr>\<rparr>, T)"
proof -
  let ?f = "check_one cfg gh gm"
  have run: "(sys_step sha api)\<^sup>*\<^sup>* (a, T) (a\<lparr>shared := fold (\<lambda>i. on_backend i ?f) [0..<num_backends (shared a)] (shared a)\<rparr>, T)"
    by (rule fold_run) (simp_all add: check_one_run frame_simps)
  have "map (\<lambda>i. ?f (app_backend a i)) [0..<num_backends (shared a)] = map ?f (backends (pool (shared a)))"
    by (rule nth_equalityI) simp_all
  then have eq: "fold (\<lambda>i. on_backend i ?f) [0..<num_backends (shared a)] (shared a) =
      (shared a)\<lparr>pool := health_round cfg gh gm (pool (shared a))\<rparr>"
    unfolding fold_on_backend_all health_round_def by simp
  show ?thesis using run unfolding eq .
qed

lemma export_run:
  assumes "i < num_backends (shared a)" "set fs \<subseteq> set (exports now i)"
  shows "(sys_step sha api)\<^sup>*\<^sup>* (a, T) (a\<lparr>shared := fold (\<lambda>f. f) fs (shared a)\<rparr>, T)"
  using assms
proof (induction fs arbitrary: a)
  case (Cons f fs)
  let ?a = "a\<lparr>shared := f (shared a)\<rparr>"
  have step: "sys_step sha api (a, T) (?a, T)" using Cons.prems by (intro background exported) auto
  then have "num_backends (shared ?a) = num_backends (shared a)" using fixed_size [OF sys_step_fixed [OF step]] by simp
  then show ?case using step Cons.IH [of ?a] Cons.prems by (simp add: converse_rtranclp_into_rtranclp)
qed simp

lemma export_backend_run:
  "i < num_backends (shared a) \<Longrightarrow> (sys_step sha api)\<^sup>*\<^sup>* (a, T) (a\<lparr>shared := export_backend now i (shared a)\<rparr>, T)"
  unfolding export_backend_def by (rule export_run [OF _ subset_refl])

lemma export_backend_shared:
  "pool (export_backend now i w) = pool (on_backend i (\<lambda>b. b\<lparr>breaker := snd (breaker_state now (breaker (backend_at w i)))\<rparr>) w)"
  "controller (export_backend now i w) = controller w"
  by (simp_all add: export_backend_def exports_def export_connections_def export_health_def export_breaker_def
      export_queue_depth_def export_kv_cache_def split_def frame_simps)

lemma metrics_handler_run:
  "(sys_step sha api)\<^sup>*\<^sup>* (a, T) (snd (metrics_handler encode ts a), T)"
proof -
  let ?w = "fold (\<lambda>i. export_backend (ts i) i) [0..<num_backends (shared a)] (shared a)"
  have "(sys_step sha api)\<^sup>*\<^sup>* (a, T) (a\<lparr>shared := ?w\<rparr>, T)"
    by (rule fold_run) (simp_all add: export_backend_run export_backend_shared frame_simps)
  with background [OF exported_in_flight [of "a\<lparr>shared := ?w\<rparr>"], of sha api T] show ?thesis
    by (simp add: metrics_handler_def Let_def)
qed

end
