(* ===== verification/System_Runs.thy ===== *)
theory System_Runs
  imports Handler_Runs
begin

text \<open>
  What holds along every run of the router. From a fresh router a request can be served, so the
  reachable states are not empty of requests; a scrape of the router reads the counters of that
  moment. The properties of reachable states follow from the invariant of System, the runs of
  Handler_Runs and the measure of Progress.
\<close>

section \<open>A served request\<close>

text \<open>From a fresh router, a request can always come as far as waiting for its backend.\<close>

lemma routable_nonempty: "available_at ts p i \<Longrightarrow> fst (routable ts p) \<noteq> []"
  using routable_mem [of _ ts p] by (metis empty_iff empty_set)

lemma valid_config_builds:
  assumes "config_ok hv c" "build_client client_builds (cfg_upstream c)"
  shows "\<exists>ap. build_app sha client_builds ts c = Inr ap"
proof -
  obtain s where "create_strategy sha (routing_strategy (cfg_routing c))
      (prefix_token_count (routing_prefix_cache (cfg_routing c)))
      (pool_len (new_pool (build_backends ts c) (max_backend_queue_depth (cfg_backpressure c)))) = Inr s"
    using config_ok_strategy [OF assms(1)] by blast
  then show ?thesis using assms(2) by (simp add: build_app_def)
qed

lemma fresh_available:
  assumes "build_app sha client_builds ts c = Inr ap" "i < length (cfg_backends c)"
  shows "available_at ts' (pool (shared (app_start ap))) i"
proof -
  have p: "pool (shared (app_start ap)) = new_pool (build_backends ts c) (max_backend_queue_depth (cfg_backpressure c))"
    using assms(1) by (auto simp: build_app_def Let_def split: sum.splits if_splits)
  have "state (inner (from_config (cfg_circuit_breaker c) now)) = Closed" for now
    by (simp add: from_config_def new_breaker_def)
  then have "fst (breaker_is_routable t (from_config (cfg_circuit_breaker c) now))" for t now
    by (simp add: breaker_results refreshed_state)
  then show ?thesis using assms(2)
    by (simp add: available_at_def p new_pool_def build_backends_nth new_backend_def)
qed

lemma handler_admits:
  assumes "in_flight (controller (shared a)) < max_in_flight (controller (shared a))"
  shows "fst (handler_admit a) = Reading_body" "pool (shared (snd (handler_admit a))) = pool (shared a)"
  using assms by (simp_all add: handler_admit_def try_acquire_cases in_flight_def)

lemma served_reachable:
  assumes "config_ok hv c" "build_client client_builds (cfg_upstream c)" "length (cfg_backends c) \<le> 2 ^ 32"
  shows "\<exists>a acc. sys_reachable sha (api :: 'v json_api) c (a, {#Awaiting_backend acc []#})"
proof -
  obtain ap where ap: "build_app sha client_builds (\<lambda>_. 0) c = Inr ap" using valid_config_builds assms(1,2) by blast
  let ?a = "app_start ap"
  note r0 = start [OF ap, of api] and ok0 = sys_start_ok [OF ap assms(3)]
  have "max_in_flight (controller (shared ?a)) \<noteq> 0"
    using sys_reachable_fixed [OF r0] assms(1) by (simp add: fixed_part_def config_ok_def)
  moreover have "in_flight (controller (shared ?a)) = 0"
    using ok0 by (simp add: sys_ok_def counts_match_def unat_eq_zero)
  ultimately have room: "in_flight (controller (shared ?a)) < max_in_flight (controller (shared ?a))"
    by (simp add: word_neq_0_conv)
  obtain a1 where adm: "handler_admit ?a = (Reading_body, a1)" and p1: "pool (shared a1) = pool (shared ?a)"
    using handler_admits [OF room] by (metis prod.collapse)
  have r1: "sys_reachable sha api c (a1, {#Reading_body#})"
    using sys_reachable.step [OF r0 arrival [OF adm]] by simp
  then have ok1: "app_ok sha a1" using sys_reachable_ok [OF _ assms(3)] by (fastforce simp: sys_ok_def)
  define env :: "'v request_env" where
    "env = \<lparr>choice = (\<lambda>_. choose_with sha api (Fin 0)), seen = (\<lambda>_ b. b), routable_at = (\<lambda>_. 0), begin_at = (\<lambda>_. 0)\<rparr>"
  let ?req = "\<lparr>req_path = [], req_body = None\<rparr> :: 'v incoming_request"
  have "cfg_backends c \<noteq> []" using assms(1) by (simp add: config_ok_def)
  then have "fst (routable (\<lambda>_. 0) (pool (shared a1))) \<noteq> []"
    unfolding p1 by (intro routable_nonempty [OF fresh_available [OF ap, of 0]]) simp
  then obtain x where "fst (select_backend (\<lambda>_ y. y) env ?req a1) = Some x"
    using select_backend_total [OF ok1, of env ?req] by (auto simp: env_def identity_kept_def)
  then obtain i ad a2 where "select_backend (\<lambda>_ y. y) env ?req a1 = (Some (i, ad), a2)" by (metis prod.collapse)
  then have route: "\<exists>acc a3. handler_route (\<lambda>_ y. y) env (\<lambda>_. None) 0
      \<lparr>cr_method = [], cr_path = [], cr_path_and_query = None, cr_headers = []\<rparr> (Inr []) a1 = (Awaiting_backend acc [], a3)"
    by (simp add: handler_route_def split_def Let_def)
  then obtain acc a3 where "handler_route (\<lambda>_ y. y) env (\<lambda>_. None) 0
      \<lparr>cr_method = [], cr_path = [], cr_path_and_query = None, cr_headers = []\<rparr> (Inr []) a1 = (Awaiting_backend acc [], a3)"
    by blast
  from handler_route_alone [OF _ _ this, of sha api "\<lambda>_. Fin 0" "{#}"]
  have "(sys_step sha api)\<^sup>*\<^sup>* (a1, {#Reading_body#}) (a3, {#Awaiting_backend acc []#})"
    by (simp add: env_def identity_kept_def)
  then have "sys_reachable sha api c (a3, {#Awaiting_backend acc []#})"
    using r1 by (induction rule: rtranclp_induct) (auto intro: sys_reachable.step)
  then show ?thesis by blast
qed

lemma sys_run_ok:
  assumes "(sys_step sha api)\<^sup>*\<^sup>* s s'" "sys_ok sha s"
  shows "sys_ok sha s'"
  using assms by (induction rule: rtranclp_induct) (auto intro: sys_step_ok)

lemma sys_reachable_run:
  assumes "(sys_step sha api)\<^sup>*\<^sup>* s s'" "sys_reachable sha api c s"
  shows "sys_reachable sha api c s'"
  using assms by (induction rule: rtranclp_induct) (auto intro: sys_reachable.step)

definition demo_config :: router_config where
  "demo_config = read_config (minimal_document [''http://a''])"

lemma demo_config_ok: "config_ok (\<lambda>_. True) demo_config" "length (cfg_backends demo_config) = 1"
  "build_client (\<lambda>_ _. True) (cfg_upstream demo_config)"
  using minimal_config [of "[''http://a'']" "\<lambda>_. True"]
  by (simp_all add: demo_config_def build_client_def) (simp add: read_config_def minimal_document_def)

lemma demo_served: "\<exists>a acc. sys_reachable sample_sha prompt_api demo_config (a, {#Awaiting_backend acc []#})"
  using served_reachable [OF demo_config_ok(1,3)] demo_config_ok(2) by simp

section \<open>What a scrape of the router sees\<close>

text \<open>The calls that export one backend.\<close>

definition export_calls :: "instant \<Rightarrow> backend \<Rightarrow> metric_call list" where
  "export_calls now b =
     [Active_connections_set (url b) (as_i64 (active_connections b)),
      Backend_health_set (url b) (if is_healthy b then 1 else 0),
      Circuit_breaker_state_set (url b) (as_i64 (as_u64 (fst (breaker_state now (breaker b))))),
      Backend_queue_depth_set (url b) (as_i64 (queue_depth b)),
      Backend_kv_cache_usage_set (url b) (div_f64 (f64_of_u64 (kv_cache_usage_bp b)) (Fin 10000))]"

lemma on_backend_breaker_fields:
  "url (backend_at (on_backend i (\<lambda>b. b\<lparr>breaker := cb\<rparr>) w) i) = url (backend_at w i)"
  "queue_depth (backend_at (on_backend i (\<lambda>b. b\<lparr>breaker := cb\<rparr>) w) i) = queue_depth (backend_at w i)"
  "kv_cache_usage_bp (backend_at (on_backend i (\<lambda>b. b\<lparr>breaker := cb\<rparr>) w) i) = kv_cache_usage_bp (backend_at w i)"
  by (cases "i < num_backends w"; simp add: on_backend_def list_update_beyond)+

lemma export_backend_log: "metric_log (export_backend now i w) = metric_log w @ export_calls now (backend_at w i)"
  by (simp add: export_backend_def exports_def export_connections_def export_health_def export_breaker_def
      export_queue_depth_def export_kv_cache_def export_calls_def split_def frame_simps on_backend_breaker_fields)

lemma export_backend_other: "j \<noteq> i \<Longrightarrow> backend_at (export_backend now i w) j = backend_at w j"
  by (simp add: export_backend_shared frame_simps)

lemma export_all:
  assumes "distinct js"
  shows "metric_log (fold (\<lambda>i. export_backend (ts i) i) js w) =
      metric_log w @ concat (map (\<lambda>i. export_calls (ts i) (backend_at w i)) js)"
    and "controller (fold (\<lambda>i. export_backend (ts i) i) js w) = controller w"
  using assms
proof (induction js arbitrary: w)
  case (Cons i js)
  { case 1
    have "map (\<lambda>j. export_calls (ts j) (backend_at (export_backend (ts i) i w) j)) js =
        map (\<lambda>j. export_calls (ts j) (backend_at w j)) js"
      using 1 by (intro map_cong refl arg_cong [where f = "export_calls _"] export_backend_other) auto
    from Cons.IH(1) [of "export_backend (ts i) i w", unfolded this] show ?case
      using 1 by (simp add: export_backend_log) }
  { case 2
    then show ?case using Cons.IH(2) [of "export_backend (ts i) i w"] by (simp add: export_backend_shared) }
qed simp_all

lemma metrics_handler_log:
  "metric_log (shared (snd (metrics_handler encode ts a))) =
     metric_log (shared a) @
       concat (map (\<lambda>i. export_calls (ts i) (app_backend a i)) [0..<num_backends (shared a)]) @
       [In_flight_set (as_i64 (in_flight (controller (shared a))))]"
  by (simp add: metrics_handler_def Let_def export_all frame_simps)

lemma export_calls_gauges:
  "gauge_at (export_calls now b) (''router_active_connections'', url b) = Some (as_i64 (active_connections b))"
  "gauge_at (export_calls now b) (''router_backend_health'', url b) = Some (if is_healthy b then 1 else 0)"
  "gauge_at (export_calls now b) (''router_circuit_breaker_state'', url b) =
     Some (as_i64 (as_u64 (fst (breaker_state now (breaker b)))))"
  "gauge_at (export_calls now b) (''router_backend_queue_depth'', url b) = Some (as_i64 (queue_depth b))"
  "u \<noteq> url b \<Longrightarrow> gauge_at (export_calls now b) (fam, u) = None"
  "gauge_at (export_calls now b) (''router_in_flight'', u) = None"
  by (simp_all add: export_calls_def gauge_at_def map_filter_def)

text \<open>A batch of calls in which no group after the one of \<open>i\<close> sets the gauge.\<close>

lemma gauge_at_last:
  assumes "i < n" "gauge_at (f i) k = Some v" "\<forall>j. i < j \<and> j < n \<longrightarrow> gauge_at (f j) k = None"
  shows "gauge_at (concat (map f [0..<n])) k = Some v"
  using assms
proof (induction n)
  case (Suc n)
  then show ?case by (cases "i = n") (simp_all add: gauge_at_append less_Suc_eq)
qed simp

lemma metrics_handler_gauge:
  assumes "i < num_backends (shared a)"
    and "\<forall>j. i < j \<and> j < num_backends (shared a) \<longrightarrow> url (app_backend a j) \<noteq> url (app_backend a i)"
    and "gauge_at (export_calls (ts i) (app_backend a i)) (fam, url (app_backend a i)) = Some v"
    and "fam \<noteq> ''router_in_flight''"
  shows "gauge_at (metric_log (shared (snd (metrics_handler encode ts a)))) (fam, url (app_backend a i)) = Some v"
proof -
  have "gauge_at (concat (map (\<lambda>j. export_calls (ts j) (app_backend a j)) [0..<num_backends (shared a)]))
      (fam, url (app_backend a i)) = Some v"
    using assms(2) by (intro gauge_at_last [where f = "\<lambda>j. export_calls (ts j) (app_backend a j)", OF assms(1,3)])
      (metis export_calls_gauges(5))
  then show ?thesis using assms(4) by (simp add: metrics_handler_log gauge_at_append)
qed

section \<open>Properties\<close>

text \<open>
  C1. Exact accounting. In every state a running router can reach, under every interleaving of
  requests, cancellations, streams, health checks and scrapes, the in-flight counter is exactly
  the number of requests that hold a slot and never exceeds the configured limit, and every
  backend's connection counter is exactly the number of guards on that backend. No step
  wraps a counter, loses a slot or releases one twice.
\<close>

theorem reachable_counters_exact:
  assumes "sys_reachable sha api c (a, T)" "length (cfg_backends c) \<le> 2 ^ 32"
  shows "unat (in_flight (controller (shared a))) = held permit_held T \<and>
    held permit_held T \<le> unat (bp_max_in_flight (cfg_backpressure c)) \<and>
    num_backends (shared a) = length (cfg_backends c) \<and>
    (\<forall>i < length (cfg_backends c). unat (active_connections (app_backend a i)) = held (guard_on i) T)"
proof -
  have ok: "app_ok sha a" "counts_match a T"
    using sys_reachable_ok [OF assms] by (simp_all add: sys_ok_def)
  have "fixed_part (shared a) = (bp_max_in_flight (cfg_backpressure c), max_backend_queue_depth (cfg_backpressure c),
     map (\<lambda>(i, bc). (i, normalized_url bc, bc_weight bc)) (List.enumerate 0 (cfg_backends c)))"
    using sys_reachable_fixed [OF assms(1)] by simp
  then have "max_in_flight (controller (shared a)) = bp_max_in_flight (cfg_backpressure c)"
    "length (map (\<lambda>b. (backend_id b, url b, weight b)) (backends (pool (shared a)))) = length (cfg_backends c)"
    unfolding fixed_part_def by simp_all
  moreover have "in_flight (controller (shared a)) \<le> max_in_flight (controller (shared a))"
    using ok(1) by (simp add: app_ok_def state_ok_def controller_ok_def in_flight_def)
  ultimately show ?thesis using ok(2) by (simp add: counts_match_def word_le_nat_alt)
qed

theorem reachable_counters_exact_witness:
  "\<exists>a acc. sys_reachable sample_sha prompt_api demo_config (a, {#Awaiting_backend acc []#}) \<and>
     unat (in_flight (controller (shared a))) = 1"
proof -
  obtain a acc where r: "sys_reachable sample_sha prompt_api demo_config (a, {#Awaiting_backend acc []#})"
    using demo_served by blast
  then show ?thesis using reachable_counters_exact [OF r] demo_config_ok(2) by auto
qed

text \<open>
  C2. One probe at a time. In every reachable state at most one request in the whole router
  carries the half-open probe of a backend; the breaker's mark is set exactly while that
  request is alive, and the circuit is half-open all that time.
\<close>

theorem reachable_single_probe:
  assumes "sys_reachable sha api c (a, T)" "length (cfg_backends c) \<le> 2 ^ 32" "i < num_backends (shared a)"
  shows "held (probe_on i) T = (if probe_out (breaker (app_backend a i)) then 1 else 0) \<and>
    (0 < held (probe_on i) T \<longrightarrow> state (inner (breaker (app_backend a i))) = HalfOpen)"
proof -
  have ok: "app_ok sha a" "counts_match a T"
    using sys_reachable_ok [OF assms(1,2)] by (simp_all add: sys_ok_def)
  have "held (probe_on i) T = of_bool (probe_out (breaker (app_backend a i)))"
    using ok(2) assms(3) by (simp add: counts_match_def)
  moreover have "breaker_ok (breaker (app_backend a i))"
    using ok(1) assms(3) by (simp add: app_ok_def state_ok_def pool_ok_def)
  ultimately show ?thesis using probe_out_half_open [of "breaker (app_backend a i)"] by auto
qed

theorem reachable_single_probe_witness:
  "\<exists>a acc. sys_reachable sample_sha prompt_api demo_config (a, {#Awaiting_backend acc []#}) \<and>
     held (probe_on 0) {#Awaiting_backend acc []#} = of_bool (probe_out (breaker (app_backend a 0)))"
proof -
  obtain a acc where r: "sys_reachable sample_sha prompt_api demo_config (a, {#Awaiting_backend acc []#})"
    using demo_served by blast
  have "0 < num_backends (shared a)"
    using sys_reachable_ok [OF r] demo_config_ok(2) by (auto simp: sys_ok_def)
  then have "held (probe_on 0) {#Awaiting_backend acc []#} = of_bool (probe_out (breaker (app_backend a 0)))"
    using reachable_single_probe [OF r] demo_config_ok(2) by (simp del: held_simps)
  then show ?thesis using r by blast
qed

text \<open>
  C3. Nothing leaks. From every reachable state the requests there are bring the router to rest
  by steps of their own: no arrival, health check or scrape is needed, and no client has to go
  away. And whenever no live request holds anything, every slot is free, every connection count
  is zero and no breaker waits for a probe; the next request is then admitted.
\<close>

theorem quiescent_router_is_clean:
  assumes "sys_reachable sha api c (a, T)" "length (cfg_backends c) \<le> 2 ^ 32"
    and "bp_max_in_flight (cfg_backpressure c) \<noteq> 0"
  shows "(\<exists>a'. (request_step sha api)\<^sup>*\<^sup>* (a, T) (a', {#})) \<and>
    ((\<forall>t \<in># T. permit_held t = 0) \<longrightarrow>
      in_flight (controller (shared a)) = 0 \<and>
      (\<forall>i < num_backends (shared a). active_connections (app_backend a i) = 0 \<and>
         \<not> probe_out (breaker (app_backend a i))) \<and>
      fst (handler_admit a) = Reading_body)"
proof (intro conjI impI)
  show "\<exists>a'. (request_step sha api)\<^sup>*\<^sup>* (a, T) (a', {#})"
    using drain_run sys_reachable_ok [OF assms(1,2)] by blast
  assume idle: "\<forall>t \<in># T. permit_held t = 0"
  have match: "counts_match a T" using sys_reachable_ok [OF assms(1,2)] by (simp add: sys_ok_def)
  have "held permit_held T = 0" using idle by (induction T) simp_all
  then have none: "held (guard_on i) T = 0" "held (probe_on i) T = 0" for i
    using held_mono [of "guard_on i" permit_held T] held_mono [of "probe_on i" permit_held T]
      guard_le_permit probe_le_permit by fastforce+
  show free: "in_flight (controller (shared a)) = 0"
    using match \<open>held permit_held T = 0\<close> by (simp add: counts_match_def unat_eq_zero)
  show "\<forall>i < num_backends (shared a). active_connections (app_backend a i) = 0 \<and>
      \<not> probe_out (breaker (app_backend a i))"
    using match none by (simp add: counts_match_def unat_eq_zero)
  have "max_in_flight (controller (shared a)) = bp_max_in_flight (cfg_backpressure c)"
    using sys_reachable_fixed [OF assms(1)] by (simp add: fixed_part_def)
  then show "fst (handler_admit a) = Reading_body"
    using handler_admits(1) [of a] assms(3) free by (simp add: word_neq_0_conv)
qed

theorem quiescent_router_is_clean_witness:
  "\<exists>a. sys_reachable sample_sha prompt_api demo_config (a, {#}) \<and> in_flight (controller (shared a)) = 0"
proof -
  obtain a acc where r: "sys_reachable sample_sha prompt_api demo_config (a, {#Awaiting_backend acc []#})"
    using demo_served by blast
  from sys_reachable_run [OF drop_task_run r] have d: "sys_reachable sample_sha prompt_api demo_config
      (drop_task (\<lambda>_. 0) (Awaiting_backend acc []) a, {#})" by simp
  have "bp_max_in_flight (cfg_backpressure demo_config) \<noteq> 0" using demo_config_ok(1) by (simp add: config_ok_def)
  from quiescent_router_is_clean [OF d _ this] show ?thesis using d demo_config_ok(2) by auto
qed

text \<open>
  C29. Well-formed tasks. In every reachable state each position a request holds or may still
  try is a position of the pool, so no access is out of range; each unfinished guard still
  carries the default outcome; and the backends are the configured ones, in order, with their
  ids equal to their positions.
\<close>

theorem reachable_well_typed:
  assumes "sys_reachable sha api c (a, T)" "length (cfg_backends c) \<le> 2 ^ 32"
  shows "(\<forall>t \<in># T. task_ok (length (cfg_backends c)) t) \<and>
    (\<forall>i < length (cfg_backends c). backend_id (app_backend a i) = i \<and>
       url (app_backend a i) = normalized_url (cfg_backends c ! i) \<and>
       weight (app_backend a i) = bc_weight (cfg_backends c ! i))"
proof -
  let ?bs = "map (\<lambda>b. (backend_id b, url b, weight b)) (backends (pool (shared a)))"
  have bs: "?bs = map (\<lambda>(i, bc). (i, normalized_url bc, bc_weight bc)) (List.enumerate 0 (cfg_backends c))"
    using sys_reachable_fixed [OF assms(1)] by (simp add: fixed_part_def)
  have len: "num_backends (shared a) = length (cfg_backends c)" using arg_cong [OF bs, of length] by simp
  have "?bs ! i = (i, normalized_url (cfg_backends c ! i), bc_weight (cfg_backends c ! i))"
    if "i < length (cfg_backends c)" for i
    unfolding bs using that by (simp add: nth_enumerate_eq)
  then have "backend_id (app_backend a i) = i \<and> url (app_backend a i) = normalized_url (cfg_backends c ! i) \<and>
      weight (app_backend a i) = bc_weight (cfg_backends c ! i)" if "i < length (cfg_backends c)" for i
    using that len by simp
  moreover have "\<forall>t \<in># T. task_ok (length (cfg_backends c)) t"
    using sys_reachable_ok [OF assms] by (simp add: sys_ok_def len)
  ultimately show ?thesis by blast
qed

theorem reachable_well_typed_witness:
  "\<exists>a acc. sys_reachable sample_sha prompt_api demo_config (a, {#Awaiting_backend acc []#}) \<and>
     acc_backend acc < 1 \<and> acc_outcome acc = ClientDisconnect"
proof -
  obtain a acc where r: "sys_reachable sample_sha prompt_api demo_config (a, {#Awaiting_backend acc []#})"
    using demo_served by blast
  then show ?thesis using reachable_well_typed [OF r] demo_config_ok(2) by auto
qed

text \<open>
  C27. The system composes the handlers. Whatever happens at the synchronisation points of a pass
  of \<open>proxy_handler\<close>, from the request body to the call of the backend, the pass is a sequence of
  atomic steps of the request and of the interferences it meets; and if other requests make these
  interferences, \<open>C j\<close> of them before the \<open>j\<close>-th, so that they may arrive, advance and end in
  between, the whole is a run of the transition system. Executed without interruption, the
  handling of the backend's answer, a poll of the response stream, the cancellation of a
  suspended request, a round of health checks and a scrape of the metrics are runs of it as well.
  So what holds in every reachable state holds throughout them.
\<close>

theorem handlers_refine_system:
  assumes "size_kept others" "\<forall>k. choice env k = choose_with sha api (draw k) \<and> identity_kept (seen env k)"
    and "handler_route others env from_slice now cr read_body a = (t', a')"
    and "handler_reply hv ts res acc b = ((r, u'), b')"
    and "poll_next ts (ev :: unit poll) s (shared a) = (out, s', w)" "suspended t"
  shows "(\<exists>ps. pass_run sha api others (a, Reading_body) ps (a', t') \<and>
      (\<forall>C. crowd_makes sha api others ps C \<longrightarrow>
        (sys_step sha api)\<^sup>*\<^sup>* (a, add_mset Reading_body (C 0)) (a', add_mset t' (C (length ps))))) \<and>
    (sys_step sha api)\<^sup>*\<^sup>* (b, add_mset (Awaiting_backend acc body) T) (b', add_mset u' T) \<and>
    (sys_step sha api)\<^sup>*\<^sup>* (a, add_mset (Streaming s) T) (a\<lparr>shared := w\<rparr>, add_mset (Streaming s') T) \<and>
    (sys_step sha api)\<^sup>*\<^sup>* (a, add_mset t T) (drop_task ts t a, T) \<and>
    (sys_step sha api)\<^sup>*\<^sup>* (a, T) (a\<lparr>shared := (shared a)\<lparr>pool := health_round cfg gh gm (pool (shared a))\<rparr>\<rparr>, T) \<and>
    (sys_step sha api)\<^sup>*\<^sup>* (a, T) (snd (metrics_handler encode ts a), T)"
proof -
  have "pass_between sha api others (a, Reading_body) (a', t')"
    using assms(2) by (intro handler_route_run [OF assms(1) _ _ assms(3)]) simp_all
  then have "\<exists>ps. pass_run sha api others (a, Reading_body) ps (a', t') \<and>
      (\<forall>C. crowd_makes sha api others ps C \<longrightarrow>
        (sys_step sha api)\<^sup>*\<^sup>* (a, add_mset Reading_body (C 0)) (a', add_mset t' (C (length ps))))"
    unfolding pass_between_def by (blast intro: pass_run_crowd)
  then show ?thesis
    by (intro conjI health_round_run metrics_handler_run handler_reply_run [OF assms(4)]
        poll_next_run [OF assms(5)] drop_task_run [OF assms(6)])
qed

text \<open>
  While the first request is on its way to its backend, a second one arrives: the interference
  is a call of \<open>handler_admit\<close> before the strategy is asked.
\<close>

definition second_arrives :: "sync_point \<Rightarrow> app_state \<Rightarrow> app_state" where
  "second_arrives p a = (if p = Before_strategy 0 then snd (handler_admit a) else a)"

definition arrived_crowd :: "(sync_point \<times> app_state) list \<Rightarrow> nat \<Rightarrow> request_task multiset" where
  "arrived_crowd ps j = mset (map (\<lambda>(p, a). fst (handler_admit a)) (filter (\<lambda>(p, a). p = Before_strategy 0) (take j ps)))"

lemma arrived_crowd_makes: "crowd_makes sha api second_arrives ps (arrived_crowd ps)"
  unfolding crowd_makes_def
proof (intro allI impI)
  fix j assume j: "j < length ps"
  obtain p a where pa: "ps ! j = (p, a)" by fastforce
  have "(sys_step sha api)\<^sup>*\<^sup>* (a, arrived_crowd ps j) (second_arrives p a, arrived_crowd ps (Suc j))"
    using j pa arrival [of a "fst (handler_admit a)" "snd (handler_admit a)" sha api "arrived_crowd ps j"]
    by (auto simp: arrived_crowd_def second_arrives_def take_Suc_conv_app_nth)
  then show "case ps ! j of (p, a) \<Rightarrow> (sys_step sha api)\<^sup>*\<^sup>* (a, arrived_crowd ps j) (second_arrives p a, arrived_crowd ps (Suc j))"
    using pa by simp
qed

definition small_busy :: "usize \<Rightarrow> app_state" where
  "small_busy n =
     small_app\<lparr>shared := (shared small_app)\<lparr>controller := \<lparr>in_flight_count = n, max_in_flight = 4\<rparr>\<rparr>\<rparr>"

lemma small_arrivals:
  "handler_admit small_app = (Reading_body, small_busy 1)" "handler_admit (small_busy 1) = (Reading_body, small_busy 2)"
  "sys_ok sample_sha (small_busy 1, {#Reading_body#})"
proof -
  show adm: "handler_admit small_app = (Reading_body, small_busy 1)" "handler_admit (small_busy 1) = (Reading_body, small_busy 2)"
    by (simp_all add: handler_admit_def try_acquire_cases small_busy_def small_app_def new_controller_def)
  have "sys_ok sample_sha (small_app, {#})"
    using small_app_ok by (simp add: sys_ok_def counts_match_def)
      (simp add: small_app_def new_controller_def in_flight_def new_pool_def new_backend_def tiny_breaker_def new_breaker_def from_config_def)
  then show "sys_ok sample_sha (small_busy 1, {#Reading_body#})" using sys_step_ok [OF arrival [OF adm(1)]] by fastforce
qed

lemma small_scan: "scan_routable second_arrives (\<lambda>_. 0) (small_busy n) = ([0], small_busy n)"
proof -
  have b: "breaker_is_routable 0 tiny_breaker = (True, tiny_breaker)"
    by (simp add: tiny_breaker_def breaker_is_routable_def breaker_eval)
  have "check_breaker 0 0 (small_busy n) = (True, small_busy n)"
    by (simp add: check_breaker_def small_busy_def small_app_def new_pool_def new_backend_def b on_backend_def)
  moreover have "num_backends (shared (small_busy n)) = 1" "is_healthy (app_backend (small_busy n) 0)"
    "queue_depth (app_backend (small_busy n) 0) \<le> max_queue_depth (pool (shared (small_busy n)))"
    by (simp_all add: small_busy_def small_app_def new_pool_def new_backend_def is_healthy_def)
  ultimately show ?thesis by (simp add: scan_routable_def second_arrives_def Let_def)
qed

lemma small_select:
  "select_backend second_arrives small_env \<lparr>req_path = [], req_body = None\<rparr> (small_busy 1) = (Some (0, Normal), small_busy 2)"
proof -
  have "pick_candidate sample_env (\<lambda>b. b) \<lparr>req_path = [], req_body = None\<rparr> [0] (small_busy 2) = (Some 0, small_busy 2)"
    by (simp add: pick_candidate_def small_busy_def small_app_def least_connections_select_def new_pool_def new_backend_def)
  moreover have "begin_on 0 0 (small_busy 2) = (Some Normal, small_busy 2)"
    by (simp add: begin_on_def small_busy_def small_app_def new_pool_def new_backend_def tiny_breaker_begin on_backend_def)
  ultimately show ?thesis
    by (simp add: select_backend_def small_scan small_env_def select_loop.simps second_arrives_def small_arrivals)
qed

theorem handlers_refine_system_witness:
  "\<exists>acc a' U. (sys_step sample_sha prompt_api)\<^sup>*\<^sup>* (small_busy 1, {#Reading_body#}) (a', add_mset (Awaiting_backend acc []) U) \<and>
     in_flight (controller (shared a')) = 2 \<and> U \<noteq> {#}"
proof -
  let ?cr = "\<lparr>cr_method = [], cr_path = [], cr_path_and_query = None, cr_headers = []\<rparr>"
  obtain acc w where acc: "start_accounting 0 (strategy_name (small_busy 2)) (ewma_alpha (small_busy 2)) Normal 0 (shared (small_busy 2)) = (acc, w)"
    by fastforce
  define a' where "a' = (small_busy 2)\<lparr>shared := w\<rparr>"
  have route: "handler_route second_arrives small_env (\<lambda>_. None) 0 ?cr (Inr []) (small_busy 1) = (Awaiting_backend acc [], a')"
    using acc by (simp add: handler_route_def small_select second_arrives_def a'_def)
  have two: "in_flight (controller (shared a')) = 2"
    using acc by (auto simp: a'_def start_accounting_def frame_simps small_busy_def in_flight_def)
  have size: "size_kept second_arrives"
    by (simp add: size_kept_def second_arrives_def handler_admit_def split_def inc_rejected_def frame_simps split: option.split permit.split)
  have env: "\<forall>k. choice small_env k = choose_with sample_sha prompt_api (Fin (1 / 4)) \<and> identity_kept (seen small_env k)"
    by (simp add: small_env_def sample_env_def identity_kept_def)
  have poll: "poll_next (\<lambda>_. 0) (Pending :: unit poll) (new_accounted_stream 200 lone_guard) (shared (small_busy 1)) =
    (Pending, new_accounted_stream 200 lone_guard, shared (small_busy 1))"
    by (simp add: poll_next_def new_accounted_stream_def)
  obtain r u' b' where reply: "handler_reply (\<lambda>_. True) (\<lambda>_. 0) (Inl Connect) lone_guard small_app = ((r, u'), b')"
    by (metis prod.collapse)
  have "suspended Reading_body" by simp
  note refine = handlers_refine_system [OF size env route reply poll this, THEN conjunct1]
  obtain ps where "pass_run sample_sha prompt_api second_arrives (small_busy 1, Reading_body) ps (a', Awaiting_backend acc [])"
    and run: "\<And>C. crowd_makes sample_sha prompt_api second_arrives ps C \<Longrightarrow>
      (sys_step sample_sha prompt_api)\<^sup>*\<^sup>* (small_busy 1, add_mset Reading_body (C 0)) (a', add_mset (Awaiting_backend acc []) (C (length ps)))"
    using refine by blast
  let ?U = "arrived_crowd ps (length ps)"
  have "(sys_step sample_sha prompt_api)\<^sup>*\<^sup>* (small_busy 1, {#Reading_body#}) (a', add_mset (Awaiting_backend acc []) ?U)"
    using run [OF arrived_crowd_makes] by (simp add: arrived_crowd_def)
  moreover from sys_run_ok [OF this small_arrivals(3)] have "?U \<noteq> {#}"
    using two by (auto simp: sys_ok_def counts_match_def)
  ultimately show ?thesis using two by blast
qed

text \<open>
  C28. Requests end. In every reachable state each atomic operation a request can make lowers the
  work it has left, except a poll that finds the response stream still open, which keeps it. So
  when any one request is followed through any run of the system, whatever the others do between
  its operations, the number of its own operations other than such polls is at most the work it
  had, and that is at most \<open>5 n + 14\<close> for a request that has just arrived at \<open>n\<close> backends. And no
  request is ever stuck: it has an operation that lowers its work without its client going away.
\<close>

theorem requests_end:
  assumes "sys_reachable sha api c (a, add_mset t T)" "length (cfg_backends c) \<le> 2 ^ 32"
  shows "(\<forall>a' R. task_step sha api (a, t) (a', R) \<longrightarrow>
      (if stays_open t R then held (work (length (cfg_backends c))) R = work (length (cfg_backends c)) t
       else held (work (length (cfg_backends c))) R < work (length (cfg_backends c)) t)) \<and>
    (\<forall>a' U. (sys_step sha api)\<^sup>*\<^sup>* (a, add_mset t T) (a', U) \<longleftrightarrow>
      (\<exists>m T' R. followed sha api (a, T) t m (a', T') R \<and> U = R + T')) \<and>
    (\<forall>m s R. followed sha api (a, T) t m s R \<longrightarrow>
      m + held (work (length (cfg_backends c))) R \<le> work (length (cfg_backends c)) t) \<and>
    (\<forall>a0. handler_admit a0 = (t, a) \<longrightarrow> work (length (cfg_backends c)) t \<le> 5 * length (cfg_backends c) + 14) \<and>
    (\<exists>a' R. task_step sha api (a, t) (a', R) \<and> \<not> cancellation a t a' R \<and>
      held (work (length (cfg_backends c))) R < work (length (cfg_backends c)) t)"
proof (intro conjI)
  have ok: "sys_ok sha (a, add_mset t T)" by (rule sys_reachable_ok [OF assms])
  have n: "num_backends (shared a) = length (cfg_backends c)"
    using sys_reachable_fixed [OF assms(1)] by (auto simp: fixed_part_def dest: arg_cong [of _ _ length])
  have at: "task_at sha a t" using sys_ok_task_at [OF ok] by simp
  show "\<forall>a' R. task_step sha api (a, t) (a', R) \<longrightarrow>
      (if stays_open t R then held (work (length (cfg_backends c))) R = work (length (cfg_backends c)) t
       else held (work (length (cfg_backends c))) R < work (length (cfg_backends c)) t)"
    using task_step_work [OF _ at, of api] unfolding n by auto
  show "\<forall>a' U. (sys_step sha api)\<^sup>*\<^sup>* (a, add_mset t T) (a', U) \<longleftrightarrow>
      (\<exists>m T' R. followed sha api (a, T) t m (a', T') R \<and> U = R + T')"
    using followed_complete followed_run by blast
  show "\<forall>m s R. followed sha api (a, T) t m s R \<longrightarrow>
      m + held (work (length (cfg_backends c))) R \<le> work (length (cfg_backends c)) t"
    using followed_bound [OF _ ok] unfolding n by blast
  show "\<forall>a0. handler_admit a0 = (t, a) \<longrightarrow> work (length (cfg_backends c)) t \<le> 5 * length (cfg_backends c) + 14"
    using handler_admit_work by blast
  show "\<exists>a' R. task_step sha api (a, t) (a', R) \<and> \<not> cancellation a t a' R \<and>
      held (work (length (cfg_backends c))) R < work (length (cfg_backends c)) t"
    using task_can_progress [OF at] unfolding n .
qed

theorem requests_end_witness:
  "\<exists>a acc. sys_reachable sample_sha prompt_api demo_config (a, {#Awaiting_backend acc []#}) \<and>
     (\<exists>a' R. task_step sample_sha prompt_api (a, Awaiting_backend acc []) (a', R) \<and>
       \<not> cancellation a (Awaiting_backend acc []) a' R \<and> held (work 1) R < 8) \<and>
     (\<forall>m s R. followed sample_sha prompt_api (a, {#}) (Awaiting_backend acc []) m s R \<longrightarrow> m \<le> 8)"
proof -
  obtain a acc where r: "sys_reachable sample_sha prompt_api demo_config (a, {#Awaiting_backend acc []#})"
    using demo_served by blast
  have "(1 :: nat) \<le> 2 ^ 32" by simp
  note ends = requests_end [OF r, unfolded demo_config_ok(2), OF this]
  have "m \<le> 8" if "followed sample_sha prompt_api (a, {#}) (Awaiting_backend acc []) m s R" for m s R
  proof -
    have "m + held (work 1) R \<le> work 1 (Awaiting_backend acc [])" using ends that by blast
    then show ?thesis by simp
  qed
  moreover have "\<exists>a' R. task_step sample_sha prompt_api (a, Awaiting_backend acc []) (a', R) \<and>
       \<not> cancellation a (Awaiting_backend acc []) a' R \<and> held (work 1) R < 8"
    using ends by (simp del: One_nat_def)
  ultimately show ?thesis using r by blast
qed

text \<open>
  C30. A scrape reports the truth. With a limit below 2^63, the text that a scrape returns which
  nothing interrupts encodes gauges that equal the state of the running router at that moment: the
  number of slots held and, for each backend that is the last one configured with its URL, the
  number of guards on it, its health flag, and the state its breaker has at the reading, as 0, 1
  or 2. (Validation accepts the same URL twice; the gauges are labelled with the URL, so those of
  the earlier backend are overwritten.) The scrape changes no counter.
\<close>

theorem scrape_reports_truth:
  assumes "sys_reachable sha api c (a, T)" "length (cfg_backends c) \<le> 2 ^ 32" "i < num_backends (shared a)"
    and "\<forall>j. i < j \<and> j < num_backends (shared a) \<longrightarrow> url (app_backend a j) \<noteq> url (app_backend a i)"
    and "unat (bp_max_in_flight (cfg_backpressure c)) < 2 ^ 63"
    and "metrics_handler encode ts a = (text, a')"
  shows "text = encode (metric_log (shared a')) \<and>
    gauge_at (metric_log (shared a')) (''router_in_flight'', []) = Some (int (held permit_held T)) \<and>
    gauge_at (metric_log (shared a')) (''router_active_connections'', url (app_backend a i)) =
      Some (int (held (guard_on i) T)) \<and>
    gauge_at (metric_log (shared a')) (''router_backend_health'', url (app_backend a i)) =
      Some (of_bool (healthy (app_backend a i))) \<and>
    gauge_at (metric_log (shared a')) (''router_circuit_breaker_state'', url (app_backend a i)) =
      Some (case fst (breaker_state (ts i) (breaker (app_backend a i))) of Closed \<Rightarrow> 0 | HalfOpen \<Rightarrow> 1 | Open \<Rightarrow> 2) \<and>
    controller (shared a') = controller (shared a)"
proof -
  have a': "a' = snd (metrics_handler encode ts a)" "text = fst (metrics_handler encode ts a)" using assms(6) by simp_all
  note gauge = metrics_handler_gauge [OF assms(3,4), where ts = ts and encode = encode, folded a'(1)]
  have ok: "app_ok sha a" "counts_match a T"
    using sys_reachable_ok [OF assms(1,2)] by (simp_all add: sys_ok_def)
  have slots: "unat (in_flight (controller (shared a))) = held permit_held T"
    "unat (active_connections (app_backend a i)) = held (guard_on i) T"
    using ok(2) assms(3) by (simp_all add: counts_match_def)
  have "max_in_flight (controller (shared a)) = bp_max_in_flight (cfg_backpressure c)"
    using sys_reachable_fixed [OF assms(1)] by (simp add: fixed_part_def)
  then have "unat (in_flight (controller (shared a))) \<le> unat (bp_max_in_flight (cfg_backpressure c))"
    using ok(1) by (simp add: app_ok_def state_ok_def controller_ok_def in_flight_def word_le_nat_alt)
  moreover have "held (guard_on i) T \<le> held permit_held T" by (rule held_mono) (rule guard_le_permit)
  ultimately have small: "unat (in_flight (controller (shared a))) < 2 ^ 63"
    "unat (active_connections (app_backend a i)) < 2 ^ 63" using assms(5) slots by linarith+
  have "gauge_at (metric_log (shared a')) (''router_in_flight'', []) = Some (int (held permit_held T))"
    using as_i64_small [OF small(1)] slots(1) by (simp add: a'(1) metrics_handler_log gauge_at_append gauge_at_def map_filter_def)
  moreover have "gauge_at (metric_log (shared a')) (''router_active_connections'', url (app_backend a i)) =
      Some (int (held (guard_on i) T))"
    using gauge [OF export_calls_gauges(1)] as_i64_small [OF small(2)] slots(2) by simp
  moreover have "gauge_at (metric_log (shared a')) (''router_backend_health'', url (app_backend a i)) =
      Some (of_bool (healthy (app_backend a i)))"
    using gauge [OF export_calls_gauges(2)] by (simp add: is_healthy_def)
  moreover have "gauge_at (metric_log (shared a')) (''router_circuit_breaker_state'', url (app_backend a i)) =
      Some (case fst (breaker_state (ts i) (breaker (app_backend a i))) of Closed \<Rightarrow> 0 | HalfOpen \<Rightarrow> 1 | Open \<Rightarrow> 2)"
    using gauge [OF export_calls_gauges(3)]
    by (cases "fst (breaker_state (ts i) (breaker (app_backend a i)))") (simp_all add: as_i64_def)
  moreover have "text = encode (metric_log (shared a'))" "controller (shared a') = controller (shared a)"
    by (simp_all add: a' metrics_handler_def Let_def export_all frame_simps)
  ultimately show ?thesis by blast
qed

theorem scrape_reports_truth_witness:
  "\<exists>a acc. sys_reachable sample_sha prompt_api demo_config (a, {#Awaiting_backend acc []#}) \<and>
     gauge_at (metric_log (shared (snd (metrics_handler (\<lambda>_. []) (\<lambda>_. 0) a)))) (''router_in_flight'', []) = Some 1"
proof -
  obtain a acc where r: "sys_reachable sample_sha prompt_api demo_config (a, {#Awaiting_backend acc []#})"
    using demo_served by blast
  have n: "num_backends (shared a) = 1"
    using sys_reachable_fixed [OF r] demo_config_ok(2) by (auto simp: fixed_part_def dest: arg_cong [of _ _ length])
  have last: "\<forall>j. 0 < j \<and> j < num_backends (shared a) \<longrightarrow> url (app_backend a j) \<noteq> url (app_backend a 0)"
    unfolding n by auto
  have limit: "unat (bp_max_in_flight (cfg_backpressure demo_config)) < 2 ^ 63"
    by (simp add: demo_config_def read_config_def minimal_document_def read_backpressure_def the_default_def
        default_max_in_flight_def)
  have "length (cfg_backends demo_config) \<le> 2 ^ 32" "0 < num_backends (shared a)" using demo_config_ok(2) n by simp_all
  from scrape_reports_truth [OF r this last limit prod.collapse [symmetric], of "\<lambda>_. []" "\<lambda>_. 0"]
  have "gauge_at (metric_log (shared (snd (metrics_handler (\<lambda>_. []) (\<lambda>_. 0) a)))) (''router_in_flight'', []) =
      Some (int (held permit_held {#Awaiting_backend acc []#}))" by blast
  then show ?thesis using r by auto
qed

end
