(* ===== verification/Listen.thy ===== *)
theory Listen
  imports Config
begin

text \<open>
  The listening address (\<open>RouterConfig::listen_addr\<close> in router-core/src/config.rs): the host and
  the port, printed with a colon between them, go through the standard library's parser of
  socket addresses. A parser takes the rest of the text and gives a value with what is left,
  or nothing.

  The theory shows that a dotted-quad host is read back exactly, with its port, and that no
  other host is an address unless it begins with a bracket.
\<close>

section \<open>Characters and numbers\<close>

definition to_digit :: "nat \<Rightarrow> char \<Rightarrow> nat option" where
  "to_digit radix c =
     (let n = of_char c;
          d = (if 48 \<le> n \<and> n \<le> 57 then n - 48
               else if 97 \<le> n \<and> n \<le> 122 then n - 87
               else if 65 \<le> n \<and> n \<le> 90 then n - 55 else radix)
      in if d < radix then Some d else None)"

definition read_given_char :: "char \<Rightarrow> string \<Rightarrow> string option" where
  "read_given_char c s = (case s of x # r \<Rightarrow> if x = c then Some r else None | [] \<Rightarrow> None)"

text \<open>The number fits the target type when it is below \<open>bound\<close>.\<close>

definition read_number :: "nat \<Rightarrow> nat option \<Rightarrow> bool \<Rightarrow> nat \<Rightarrow> string \<Rightarrow> (nat \<times> string) option" where
  "read_number radix max_digits allow_zero_prefix bound s =
     (let ds = takeWhile (\<lambda>c. to_digit radix c \<noteq> None) s;
          n = foldl (\<lambda>r c. r * radix + the (to_digit radix c)) 0 ds
      in if ds = [] \<or> (case max_digits of Some m \<Rightarrow> m < length ds | None \<Rightarrow> False) \<or>
            (\<not> allow_zero_prefix \<and> hd ds = CHR ''0'' \<and> 1 < length ds) \<or> bound \<le> n
         then None else Some (n, drop (length ds) s))"

definition read_separator ::
  "char \<Rightarrow> nat \<Rightarrow> (string \<Rightarrow> ('a \<times> string) option) \<Rightarrow> string \<Rightarrow> ('a \<times> string) option" where
  "read_separator sep i p s =
     (if 0 < i then (case read_given_char sep s of Some r \<Rightarrow> p r | None \<Rightarrow> None) else p s)"

section \<open>Addresses\<close>

fun read_octets :: "nat \<Rightarrow> nat \<Rightarrow> string \<Rightarrow> (nat list \<times> string) option" where
  "read_octets i 0 s = Some ([], s)"
| "read_octets i (Suc k) s =
     (case read_separator (CHR ''.'') i (read_number 10 (Some 3) False 256) s of
        Some (x, r) \<Rightarrow>
          (case read_octets (Suc i) k r of Some (xs, r') \<Rightarrow> Some (x # xs, r') | None \<Rightarrow> None)
      | None \<Rightarrow> None)"

definition read_ipv4_addr :: "string \<Rightarrow> (nat list \<times> string) option" where
  "read_ipv4_addr s = read_octets 0 4 s"

text \<open>Up to \<open>limit\<close> groups, the last two possibly as a dotted quad.\<close>

fun read_groups :: "nat \<Rightarrow> nat \<Rightarrow> string \<Rightarrow> nat list \<times> bool \<times> string" where
  "read_groups limit 0 s = ([], False, s)"
| "read_groups limit (Suc left) s =
     (let i = limit - Suc left
      in case (if 1 \<le> left then read_separator (CHR '':'') i read_ipv4_addr s else None) of
           Some (q, r) \<Rightarrow> ([q ! 0 * 256 + q ! 1, q ! 2 * 256 + q ! 3], True, r)
         | None \<Rightarrow>
             (case read_separator (CHR '':'') i (read_number 16 (Some 4) True 65536) s of
                Some (g, r) \<Rightarrow> (case read_groups limit left r of (gs, v4, r') \<Rightarrow> (g # gs, v4, r'))
              | None \<Rightarrow> ([], False, s)))"

definition read_ipv6_addr :: "string \<Rightarrow> (nat list \<times> string) option" where
  "read_ipv6_addr s =
     (case read_groups 8 8 s of (front, front_ipv4, r) \<Rightarrow>
        if length front = 8 then Some (front, r)
        else if front_ipv4 then None
        else
          (case read_given_char (CHR '':'') r of
             None \<Rightarrow> None
           | Some r1 \<Rightarrow>
               (case read_given_char (CHR '':'') r1 of
                  None \<Rightarrow> None
                | Some r2 \<Rightarrow>
                    (let limit = 8 - (length front + 1)
                     in (case read_groups limit limit r2 of (back, _, r3) \<Rightarrow>
                           Some (front @ replicate (8 - length front - length back) 0 @ back, r3))))))"

datatype socket_addr = V4 "nat list" nat | V6 "nat list" nat nat

definition read_port :: "string \<Rightarrow> (nat \<times> string) option" where
  "read_port s =
     (case read_given_char (CHR '':'') s of Some r \<Rightarrow> read_number 10 None True 65536 r | None \<Rightarrow> None)"

definition read_socket_addr_v4 :: "string \<Rightarrow> (socket_addr \<times> string) option" where
  "read_socket_addr_v4 s =
     (case read_ipv4_addr s of
        Some (ip, r) \<Rightarrow> (case read_port r of Some (port, r') \<Rightarrow> Some (V4 ip port, r') | None \<Rightarrow> None)
      | None \<Rightarrow> None)"

definition read_scope_id :: "string \<Rightarrow> (nat \<times> string) option" where
  "read_scope_id s =
     (case read_given_char (CHR ''%'') s of
        Some r \<Rightarrow> read_number 10 None True (2 ^ 32) r | None \<Rightarrow> None)"

definition read_socket_addr_v6 :: "string \<Rightarrow> (socket_addr \<times> string) option" where
  "read_socket_addr_v6 s =
     (case read_given_char (CHR ''['') s of
        None \<Rightarrow> None
      | Some r \<Rightarrow>
          (case read_ipv6_addr r of
             None \<Rightarrow> None
           | Some (ip, r1) \<Rightarrow>
               (case the_default (0, r1) (read_scope_id r1) of (scope, r2) \<Rightarrow>
                  (case read_given_char (CHR '']'') r2 of
                     None \<Rightarrow> None
                   | Some r3 \<Rightarrow>
                       (case read_port r3 of Some (port, r4) \<Rightarrow> Some (V6 ip scope port, r4) | None \<Rightarrow> None)))))"

definition parse_socket_addr :: "string \<Rightarrow> socket_addr option" where
  "parse_socket_addr s =
     (case (case read_socket_addr_v4 s of Some x \<Rightarrow> Some x | None \<Rightarrow> read_socket_addr_v6 s) of
        Some (addr, r) \<Rightarrow> if r = [] then Some addr else None
      | None \<Rightarrow> None)"

definition listen_addr :: "router_config \<Rightarrow> socket_addr option" where
  "listen_addr c = parse_socket_addr (listen_addr_text c)"

section \<open>Printing and reading decimals\<close>

lemma zero_char: "char_of (48 :: nat) = CHR ''0''"
  by code_simp

lemma digit_char:
  assumes "d < 10"
  shows "to_digit 10 (char_of (48 + d)) = Some d" "char_of (48 + d) = CHR ''0'' \<longleftrightarrow> d = 0"
proof -
  have n: "of_char (char_of (48 + d) :: char) = 48 + d" using assms by simp
  show "to_digit 10 (char_of (48 + d)) = Some d" using assms by (simp add: to_digit_def n)
  show "char_of (48 + d) = CHR ''0'' \<longleftrightarrow> d = 0" using n zero_char by (auto dest: arg_cong [where f = "of_char :: char \<Rightarrow> nat"])
qed

lemma show_nat_read:
  "show_nat n \<noteq> [] \<and> (\<forall>c \<in> set (show_nat n). to_digit 10 c \<noteq> None) \<and>
   foldl (\<lambda>r c. r * 10 + the (to_digit 10 c)) 0 (show_nat n) = n \<and> (hd (show_nat n) = CHR ''0'' \<longleftrightarrow> n = 0)"
proof (induction n rule: show_nat.induct)
  case (1 n)
  then show ?case by (subst (1 2 3 4) show_nat.simps) (auto simp: digit_char)
qed

lemma show_nat_length: "n < 10 ^ Suc k \<Longrightarrow> length (show_nat n) \<le> Suc k"
proof (induction k arbitrary: n)
  case (Suc k)
  then show ?case by (subst show_nat.simps) (auto simp: less_mult_imp_div_less)
qed (simp add: show_nat.simps)

text \<open>What \<open>format!\<close> printed is read back, up to a character that is no digit.\<close>

definition stops :: "string \<Rightarrow> bool" where
  "stops s \<longleftrightarrow> s = [] \<or> to_digit 10 (hd s) = None"

lemma read_number_show:
  assumes "stops s" "n < bound" "case m of Some k \<Rightarrow> length (show_nat n) \<le> k | None \<Rightarrow> True"
  shows "read_number 10 m z bound (show_nat n @ s) = Some (n, s)"
proof -
  note sh = show_nat_read [of n]
  have "takeWhile (\<lambda>c. to_digit 10 c \<noteq> None) (show_nat n @ s) = show_nat n"
    using sh assms(1) by (cases s) (auto simp: stops_def takeWhile_append2)
  moreover have "\<not> (hd (show_nat n) = CHR ''0'' \<and> 1 < length (show_nat n))"
    using sh by (auto simp: show_nat.simps [of 0])
  moreover have "\<not> (case m of Some k \<Rightarrow> k < length (show_nat n) | None \<Rightarrow> False)"
    using assms(3) by (simp split: option.splits)
  ultimately show ?thesis using sh assms(2) by (simp add: read_number_def Let_def)
qed

lemma read_octet_show: "stops s \<Longrightarrow> n < 256 \<Longrightarrow> read_number 10 (Some 3) z 256 (show_nat n @ s) = Some (n, s)"
  using show_nat_length [of n 2] by (intro read_number_show) simp_all

definition show_ipv4 :: "nat \<Rightarrow> nat \<Rightarrow> nat \<Rightarrow> nat \<Rightarrow> string" where
  "show_ipv4 a b c d = show_nat a @ ''.'' @ show_nat b @ ''.'' @ show_nat c @ ''.'' @ show_nat d"

lemma read_ipv4_show:
  assumes "a < 256" "b < 256" "c < 256" "d < 256" "stops s"
  shows "read_ipv4_addr (show_ipv4 a b c d @ s) = Some ([a, b, c, d], s)"
proof -
  have dot: "stops (CHR ''.'' # r)" for r by (simp add: stops_def to_digit_def)
  have "read_octets 3 1 (''.'' @ show_nat d @ s) = Some ([d], s)"
    using read_octet_show [OF assms(5,4)] by (simp add: read_separator_def read_given_char_def)
  then have "read_octets 2 2 (''.'' @ show_nat c @ ''.'' @ show_nat d @ s) = Some ([c, d], s)"
    using read_octet_show [OF dot assms(3)] by (simp add: read_separator_def read_given_char_def numeral_2_eq_2 numeral_3_eq_3)
  then have "read_octets 1 3 (''.'' @ show_nat b @ ''.'' @ show_nat c @ ''.'' @ show_nat d @ s) = Some ([b, c, d], s)"
    using read_octet_show [OF dot assms(2)] by (simp add: read_separator_def read_given_char_def numeral_2_eq_2 numeral_3_eq_3)
  then show ?thesis using read_octet_show [OF dot assms(1)]
    by (simp add: read_ipv4_addr_def show_ipv4_def read_separator_def numeral_eq_Suc)
qed

lemma listen_addr_ipv4:
  assumes "listen_host (cfg_listen cf) = show_ipv4 a b c d" "a < 256" "b < 256" "c < 256" "d < 256"
  shows "listen_addr cf = Some (V4 [a, b, c, d] (unat (listen_port (cfg_listen cf))))"
proof -
  let ?p = "unat (listen_port (cfg_listen cf))"
  have "?p < 65536" using unsigned_less [of "listen_port (cfg_listen cf)", where ?'a = nat] by simp
  then have "read_number 10 None True 65536 (show_nat ?p @ []) = Some (?p, [])"
    by (intro read_number_show) (simp_all add: stops_def)
  moreover have "read_ipv4_addr (show_ipv4 a b c d @ '':'' @ show_nat ?p) = Some ([a, b, c, d], '':'' @ show_nat ?p)"
    using assms(2-5) by (intro read_ipv4_show) (simp_all add: stops_def to_digit_def)
  ultimately show ?thesis
    by (simp add: listen_addr_def listen_addr_text_def assms(1) parse_socket_addr_def read_socket_addr_v4_def
        read_port_def read_given_char_def)
qed

section \<open>Hosts that are no address\<close>

text \<open>A number without a superfluous zero is read from its own decimal text only.\<close>

lemma to_digit_Some: "to_digit 10 x = Some d \<Longrightarrow> d < 10 \<and> char_of (48 + d) = x"
  by (auto simp: to_digit_def Let_def split: if_splits)

lemma show_nat_value:
  assumes "ds \<noteq> []" "\<forall>c \<in> set ds. to_digit 10 c \<noteq> None" "hd ds \<noteq> CHR ''0'' \<or> length ds = 1"
  shows "show_nat (foldl (\<lambda>r c. r * 10 + the (to_digit 10 c)) 0 ds) = ds \<and>
    (hd ds \<noteq> CHR ''0'' \<longrightarrow> 0 < foldl (\<lambda>r c. r * 10 + the (to_digit 10 c)) 0 ds)"
  using assms
proof (induction ds rule: rev_induct)
  case (snoc x xs)
  obtain d where d: "to_digit 10 x = Some d" using snoc.prems(2) by auto
  note dx = to_digit_Some [OF d]
  show ?case
  proof (cases "xs = []")
    case True
    have "0 < d" if "x \<noteq> CHR ''0''" using that dx digit_char(2) [of d] by auto
    then show ?thesis using True d dx by (auto simp: show_nat.simps)
  next
    case False
    let ?v = "foldl (\<lambda>r c. r * 10 + the (to_digit 10 c)) 0 xs"
    have hd: "hd xs \<noteq> CHR ''0''" using snoc.prems(3) False by simp
    then have v: "show_nat ?v = xs" "0 < ?v" using snoc.IH [OF False] snoc.prems(2) by simp_all
    then have "show_nat (?v * 10 + d) = xs @ [x]" using dx by (subst show_nat.simps) simp
    then show ?thesis using v(2) d by simp
  qed
qed simp

lemma read_number_canonical:
  assumes "read_number 10 m False bound s = Some (n, r)"
  shows "s = show_nat n @ r \<and> n < bound"
proof -
  let ?ds = "takeWhile (\<lambda>c. to_digit 10 c \<noteq> None) s"
  have ok: "?ds \<noteq> []" "hd ?ds \<noteq> CHR ''0'' \<or> \<not> 1 < length ?ds" "n < bound"
    "n = foldl (\<lambda>r c. r * 10 + the (to_digit 10 c)) 0 ?ds" "r = drop (length ?ds) s"
    using assms by (auto simp: read_number_def Let_def split: if_splits)
  have "length ?ds = 1" if "\<not> 1 < length ?ds" using that ok(1) by (metis One_nat_def Suc_lessI length_greater_0_conv)
  then have "show_nat n = ?ds" unfolding ok(4) using ok(1,2) by (intro show_nat_value [THEN conjunct1]) (auto dest: set_takeWhileD)
  moreover have "s = ?ds @ r" unfolding ok(5) dropWhile_eq_drop [symmetric] by simp
  ultimately show ?thesis using ok(3) by simp
qed

lemma read_octets_canonical:
  assumes "read_octets (Suc i) (Suc k) s = Some (xs, r)"
  obtains x ys r' where "x < 256" "s = ''.'' @ show_nat x @ r'" "xs = x # ys" "read_octets (Suc (Suc i)) k r' = Some (ys, r)"
  using assms
  by (auto simp: read_separator_def read_given_char_def split: option.splits list.splits if_splits
      dest!: read_number_canonical)

lemma read_ipv4_canonical:
  assumes "read_ipv4_addr s = Some (ip, r)"
  shows "\<exists>a b c d. a < 256 \<and> b < 256 \<and> c < 256 \<and> d < 256 \<and> ip = [a, b, c, d] \<and> s = show_ipv4 a b c d @ r"
proof -
  have "read_octets 0 (Suc (Suc (Suc (Suc 0)))) s = Some (ip, r)"
    using assms unfolding read_ipv4_addr_def by (simp add: numeral_eq_Suc)
  then obtain a as r1 where a: "a < 256" "s = show_nat a @ r1" "ip = a # as"
    and 1: "read_octets (Suc 0) (Suc (Suc (Suc 0))) r1 = Some (as, r)"
    by (auto simp: read_separator_def simp del: read_octets.simps(2) simp: read_octets.simps(2) [of 0]
        split: option.splits dest!: read_number_canonical)
  obtain b bs r2 where b: "b < 256" "r1 = ''.'' @ show_nat b @ r2" "as = b # bs"
    and 2: "read_octets (Suc (Suc 0)) (Suc (Suc 0)) r2 = Some (bs, r)"
    using read_octets_canonical [OF 1] .
  obtain c cs r3 where c: "c < 256" "r2 = ''.'' @ show_nat c @ r3" "bs = c # cs"
    and 3: "read_octets (Suc (Suc (Suc 0))) (Suc 0) r3 = Some (cs, r)"
    using read_octets_canonical [OF 2] .
  obtain d ds r4 where d: "d < 256" "r3 = ''.'' @ show_nat d @ r4" "cs = d # ds" "ds = []" "r4 = r"
    by (rule read_octets_canonical [OF 3]) auto
  show ?thesis using a b c d by (auto simp: show_ipv4_def)
qed

lemma no_colon:
  "CHR '':'' \<notin> set (show_nat n)" "to_digit 10 (CHR '':'') = None"
  using show_nat_read [of n] by (auto simp: to_digit_def)

lemma last_colon:
  assumes "xs @ c # ys = xs' @ c # ys'" "c \<notin> set ys" "c \<notin> set ys'"
  shows "xs = xs'"
proof -
  have "rev ys @ c # rev xs = rev ys' @ c # rev xs'" using arg_cong [OF assms(1), of rev] by simp
  moreover have "takeWhile (\<lambda>x. x \<noteq> c) (rev zs @ c # us) = rev zs" if "c \<notin> set zs" for zs us
    using that by (subst takeWhile_append2) auto
  ultimately have "rev ys = rev ys'" using assms(2,3) by metis
  then show ?thesis using assms(1) by simp
qed

text \<open>Unless it begins with a bracket, a host is an address exactly if it is a dotted quad.\<close>

lemma listen_addr_no_quad:
  assumes "take 1 (listen_host (cfg_listen cf)) \<noteq> ''[''"
    and "\<nexists>a b c d. a < 256 \<and> b < 256 \<and> c < 256 \<and> d < 256 \<and> listen_host (cfg_listen cf) = show_ipv4 a b c d"
  shows "listen_addr cf = None"
proof -
  let ?h = "listen_host (cfg_listen cf)" and ?p = "show_nat (unat (listen_port (cfg_listen cf)))"
  have addr_text: "listen_addr_text cf = ?h @ CHR '':'' # ?p" by (simp add: listen_addr_text_def)
  have no: "read_socket_addr_v4 (?h @ CHR '':'' # ?p) \<noteq> Some (addr, [])" for addr
  proof
    assume "read_socket_addr_v4 (?h @ CHR '':'' # ?p) = Some (addr, [])"
    then obtain ip r n where ip: "read_ipv4_addr (?h @ CHR '':'' # ?p) = Some (ip, CHR '':'' # r)"
      and port: "read_number 10 None True 65536 r = Some (n, [])"
      by (auto simp: read_socket_addr_v4_def read_port_def read_given_char_def split: option.splits list.splits if_splits)
    obtain a b c d where q: "a < 256" "b < 256" "c < 256" "d < 256" "?h @ CHR '':'' # ?p = show_ipv4 a b c d @ CHR '':'' # r"
      using read_ipv4_canonical [OF ip] by blast
    have "\<forall>x \<in> set r. to_digit 10 x \<noteq> None"
    proof -
      have "drop (length (takeWhile (\<lambda>c. to_digit 10 c \<noteq> None) r)) r = []"
        using port by (auto simp: read_number_def Let_def split: if_splits)
      then have "takeWhile (\<lambda>c. to_digit 10 c \<noteq> None) r = r"
        by (metis append_Nil2 dropWhile_eq_drop takeWhile_dropWhile_id)
      then show ?thesis by (simp add: takeWhile_eq_all_conv)
    qed
    then have "CHR '':'' \<notin> set r" using no_colon(2) by blast
    then have "?h = show_ipv4 a b c d" using last_colon [OF q(5) no_colon(1)] by simp
    then show False using assms(2) q(1-4) by blast
  qed
  have "read_socket_addr_v6 (?h @ CHR '':'' # ?p) = None"
    using assms(1) by (cases ?h) (auto simp: read_socket_addr_v6_def read_given_char_def)
  then show ?thesis using no
    by (auto simp: listen_addr_def addr_text parse_socket_addr_def split: option.splits)
qed

end
