(* ===== verification/Entry.thy ===== *)
theory Entry
  imports System_Runs Listen
begin

text \<open>
  The entry point (router-core/src/main.rs and \<open>RouterConfig::from_file\<close>): read and check the
  configuration, find the listening address, build the application, bind, serve. Every \<open>?\<close> of
  \<open>main\<close> is a branch. The file system and the socket are arguments; \<open>axum::serve\<close> runs the
  router, so the last step hands over to the transition system of the theory System. The
  command line is the optional path; setting up the log has no effect on the rest.
\<close>

section \<open>Startup\<close>

datatype ('io, 'e) startup_error =
  Read_failed 'io
| Config_failed "'e config_error"
| Address_failed
| App_failed app_error
| Bind_failed 'io

definition default_config_path :: string where
  "default_config_path = ''config.yaml''"

definition from_file ::
  "(string \<Rightarrow> 'io + string) \<Rightarrow> (string \<Rightarrow> 'e + raw_config) \<Rightarrow> (string \<Rightarrow> bool) \<Rightarrow> string \<Rightarrow>
   ('io, 'e) startup_error + router_config" where
  "from_file read_to_string yaml_parse header_value_ok path =
     (case read_to_string path of
        Inl e \<Rightarrow> Inl (Read_failed e)
      | Inr contents \<Rightarrow>
          (case from_yaml yaml_parse header_value_ok contents of
             Inl e \<Rightarrow> Inl (Config_failed e)
           | Inr cfg \<Rightarrow> Inr cfg))"

text \<open>The services of the operating system and of the libraries that startup calls.\<close>

record ('io, 'e) platform =
  read_to_string :: "string \<Rightarrow> 'io + string"
  yaml_from_str :: "string \<Rightarrow> 'e + raw_config"
  header_value_ok :: "string \<Rightarrow> bool"
  sha256 :: "string \<Rightarrow> string"
  client_builds :: "duration \<Rightarrow> duration \<Rightarrow> bool"
  clock :: "nat \<Rightarrow> instant"
  bind :: "socket_addr \<Rightarrow> 'io option"

definition start_router ::
  "('io, 'e) platform \<Rightarrow> string option \<Rightarrow> ('io, 'e) startup_error + (socket_addr \<times> router_config \<times> app)" where
  "start_router pf config_arg =
     (case from_file (read_to_string pf) (yaml_from_str pf) (header_value_ok pf)
             (the_default default_config_path config_arg) of
        Inl e \<Rightarrow> Inl e
      | Inr config \<Rightarrow>
          (case listen_addr config of
             None \<Rightarrow> Inl Address_failed
           | Some addr \<Rightarrow>
               (case build_app (sha256 pf) (client_builds pf) (clock pf) config of
                  Inl e \<Rightarrow> Inl (App_failed e)
                | Inr ap \<Rightarrow>
                    (case bind pf addr of
                       Some e \<Rightarrow> Inl (Bind_failed e)
                     | None \<Rightarrow> Inr (addr, config, ap)))))"

section \<open>Properties\<close>

lemma from_file_valid:
  assumes "read path = Inr contents" "yaml contents = Inr r" "config_ok hv (read_config r)"
  shows "from_file read yaml hv path = Inr (read_config r)"
proof -
  have "validate hv (read_config r) = Inr ()" using assms(3) by (simp add: validate_ok)
  then show ?thesis using assms(1,2) by (simp add: from_file_def from_yaml_def)
qed

text \<open>
  C31. Startup serves what was configured. If the file is read and parsed, its configuration is
  valid, its host is a dotted quad, the client builds and the address is free, then the router
  serves on exactly that address and port, from an initial state of the transition system. An
  address in use is an error. So is every host that is no dotted quad and does not begin with the
  bracket of an IPv6 address, such as \<open>localhost\<close>, \<open>1and1.com\<close> or \<open>127.0.0.256\<close>: it is
  refused as an address, before anything was built or bound.
\<close>

theorem startup_serves:
  assumes "read_to_string pf (the_default default_config_path arg) = Inr contents" "yaml_from_str pf contents = Inr r"
    and "config_ok (header_value_ok pf) (read_config r)" "build_client (client_builds pf) (cfg_upstream (read_config r))"
  shows "(listen_host (cfg_listen (read_config r)) = show_ipv4 a b c d \<and> a < 256 \<and> b < 256 \<and> c < 256 \<and> d < 256 \<longrightarrow>
      (let addr = V4 [a, b, c, d] (unat (listen_port (cfg_listen (read_config r)))) in
       case bind pf addr of
         None \<Rightarrow> \<exists>ap. start_router pf arg = Inr (addr, read_config r, ap) \<and>
           sys_reachable (sha256 pf) (api :: 'v json_api) (read_config r) (app_start ap, {#})
       | Some e \<Rightarrow> start_router pf arg = Inl (Bind_failed e))) \<and>
    (take 1 (listen_host (cfg_listen (read_config r))) \<noteq> ''['' \<and>
     (\<nexists>i j k l. i < 256 \<and> j < 256 \<and> k < 256 \<and> l < 256 \<and>
        listen_host (cfg_listen (read_config r)) = show_ipv4 i j k l) \<longrightarrow>
      start_router pf arg = Inl Address_failed)"
proof -
  let ?c = "read_config r"
  note ff = from_file_valid [of "read_to_string pf", OF assms(1) _ assms(3), of "yaml_from_str pf", OF assms(2)]
  obtain ap where ap: "build_app (sha256 pf) (client_builds pf) (clock pf) ?c = Inr ap"
    using valid_config_builds [OF assms(3,4)] by blast
  have "start_router pf arg = (case bind pf (V4 [a, b, c, d] (unat (listen_port (cfg_listen ?c)))) of
      Some e \<Rightarrow> Inl (Bind_failed e) | None \<Rightarrow> Inr (V4 [a, b, c, d] (unat (listen_port (cfg_listen ?c))), ?c, ap))"
    if "listen_host (cfg_listen ?c) = show_ipv4 a b c d" "a < 256" "b < 256" "c < 256" "d < 256"
    using listen_addr_ipv4 [OF that] by (simp add: start_router_def ff ap)
  moreover have "start_router pf arg = Inl Address_failed"
    if "take 1 (listen_host (cfg_listen ?c)) \<noteq> ''[''"
      "\<nexists>i j k l. i < 256 \<and> j < 256 \<and> k < 256 \<and> l < 256 \<and> listen_host (cfg_listen ?c) = show_ipv4 i j k l"
    using listen_addr_no_quad [OF that] by (simp add: start_router_def ff)
  moreover have "sys_reachable (sha256 pf) api ?c (app_start ap, {#})" by (rule start [OF ap])
  ultimately show ?thesis by (auto simp: Let_def split: option.split)
qed

text \<open>A machine on which everything works, with a file that names one backend.\<close>

definition demo_platform :: "(unit, unit) platform" where
  "demo_platform =
     \<lparr>read_to_string = (\<lambda>path. if path = ''config.yaml'' then Inr ''...'' else Inl ()),
      yaml_from_str = (\<lambda>_. Inr (minimal_document [''http://a''])), header_value_ok = (\<lambda>_. True),
      sha256 = sample_sha, client_builds = (\<lambda>_ _. True), clock = (\<lambda>_. 0), bind = (\<lambda>_. None)\<rparr>"

theorem startup_serves_witness:
  "\<exists>ap. start_router demo_platform None = Inr (V4 [0, 0, 0, 0] 8080, demo_config, ap)"
proof -
  have host: "listen_host (cfg_listen demo_config) = show_ipv4 0 0 0 0"
    "unat (listen_port (cfg_listen demo_config)) = 8080"
    by (simp_all add: demo_config_def read_config_def minimal_document_def read_listen_def the_default_def
        default_host_def default_port_def show_ipv4_def show_nat.simps zero_char)
  show ?thesis
    using startup_serves [of demo_platform None "''...''" "minimal_document [''http://a'']" 0 0 0 0 prompt_api]
      demo_config_ok host
    by (auto simp: demo_platform_def demo_config_def [symmetric] the_default_def default_config_path_def)
qed

end
