(* ===== verification/Config_Tests.thy ===== *)
theory Config_Tests
  imports Test_Support Entry "HOL-Library.Sublist"
begin

text \<open>
  The texts of configuration errors (\<open>Display for ConfigError\<close> and the messages of
  \<open>RouterConfig::validate\<close>), and the unit tests of config.rs and app.rs, run on the model. Each
  test passes. A test keeps the YAML text it is given in the code; what serde_yaml makes of that
  text is a hypothesis of the lemma, as the document with the keys that the text has.
\<close>

section \<open>Messages\<close>

fun join_comma :: "string list \<Rightarrow> string" where
  "join_comma [] = ''''"
| "join_comma [s] = s"
| "join_comma (s # t # ts) = s @ '', '' @ join_comma (t # ts)"

definition quoted :: "string \<Rightarrow> string" where
  "quoted s = [CHR 0x27] @ s @ [CHR 0x27]"

text \<open>
  \<open>Display\<close> of a floating-point number and \<open>Debug\<close> of a string, which only decorate messages,
  are the arguments \<open>show_f64\<close> and \<open>debug_str\<close>.
\<close>

fun invalid_message :: "(f64 \<Rightarrow> string) \<Rightarrow> (string \<Rightarrow> string) \<Rightarrow> invalid_config \<Rightarrow> string" where
  "invalid_message show_f64 debug_str (Alpha_out_of_range alpha) =
     ''routing.latency_aware.alpha must be in (0, 1], got '' @ show_f64 alpha"
| "invalid_message show_f64 debug_str (Failure_rate_out_of_range rate) =
     ''circuit_breaker.failure_rate_threshold must be in (0, 1], got '' @ show_f64 rate"
| "invalid_message show_f64 debug_str (Unknown_strategy_name name) =
     ''routing.strategy must be one of '' @ join_comma STRATEGY_NAMES @ '', got '' @ debug_str name"
| "invalid_message show_f64 debug_str Interval_zero = ''health_check.interval_secs must be >= 1''"
| "invalid_message show_f64 debug_str (Window_out_of_range w) =
     ''circuit_breaker.window_secs must be in 1..='' @ show_nat (unat MAX_WINDOW_SECS) @ '', got '' @ show_nat (unat w)"
| "invalid_message show_f64 debug_str Min_requests_zero = ''circuit_breaker.min_requests must be >= 1''"
| "invalid_message show_f64 debug_str Max_in_flight_zero = ''backpressure.max_in_flight must be >= 1''"
| "invalid_message show_f64 debug_str (Metrics_path_collides path) =
     ''metrics.path must start with '' @ quoted ''/'' @ '' and not collide with a router route, got '' @
     debug_str path"
| "invalid_message show_f64 debug_str (Metrics_path_not_literal path) =
     ''metrics.path must be a literal path without '' @ quoted '':'' @ '', '' @ quoted ''*'' @ '', '' @ quoted ''{'' @
     '' or '' @ quoted ''}'' @ '', got '' @ debug_str path"
| "invalid_message show_f64 debug_str Connect_timeout_zero = ''upstream.connect_timeout_secs must be >= 1''"
| "invalid_message show_f64 debug_str Read_timeout_zero = ''upstream.read_timeout_secs must be >= 1''"
| "invalid_message show_f64 debug_str Backends_empty = ''backends must not be empty''"
| "invalid_message show_f64 debug_str (Backend_weight_zero u) =
     ''backend '' @ u @ '' has weight 0: set weight >= 1; to drain a backend remove it from the list''"
| "invalid_message show_f64 debug_str (Backend_url_bad u) =
     ''backend url '' @ debug_str u @ '' must start with http:// or https:// and contain no control characters''"

fun config_error_text ::
  "(f64 \<Rightarrow> string) \<Rightarrow> (string \<Rightarrow> string) \<Rightarrow> ('e \<Rightarrow> string) \<Rightarrow> 'e config_error \<Rightarrow> string" where
  "config_error_text show_f64 debug_str show_parse (Parse e) = ''invalid config syntax: '' @ show_parse e"
| "config_error_text show_f64 debug_str show_parse (Invalid msg) = ''invalid config: '' @ invalid_message show_f64 debug_str msg"

section \<open>The surroundings of a test\<close>

record 'e text_env =
  tx_yaml :: "string \<Rightarrow> 'e + raw_config"
  tx_header_ok :: "string \<Rightarrow> bool"
  tx_show_f64 :: "f64 \<Rightarrow> string"
  tx_debug_str :: "string \<Rightarrow> string"
  tx_show_parse :: "'e \<Rightarrow> string"

definition test_yaml :: "'e text_env \<Rightarrow> string \<Rightarrow> 'e config_error + router_config" where
  "test_yaml env = from_yaml (tx_yaml env) (tx_header_ok env)"

definition error_text :: "'e text_env \<Rightarrow> 'e config_error \<Rightarrow> string" where
  "error_text env = config_error_text (tx_show_f64 env) (tx_debug_str env) (tx_show_parse env)"

text \<open>\<open>unwrap\<close> and then a check; \<open>unwrap_err\<close> and \<open>contains\<close>.\<close>

definition accepted :: "'e text_env \<Rightarrow> string \<Rightarrow> (router_config \<Rightarrow> bool) \<Rightarrow> bool" where
  "accepted env doc check = (case test_yaml env doc of Inl _ \<Rightarrow> False | Inr cfg \<Rightarrow> check cfg)"

definition rejected :: "'e text_env \<Rightarrow> string \<Rightarrow> string \<Rightarrow> bool" where
  "rejected env doc needle =
     (case test_yaml env doc of Inl err \<Rightarrow> sublist needle (error_text env err) | Inr _ \<Rightarrow> False)"

definition doc_of :: "string list \<Rightarrow> string" where
  "doc_of ls = concat (map (\<lambda>l. l @ [CHR 0x0A]) ls)"

definition ONE_BACKEND :: string where
  "ONE_BACKEND = [CHR 0x0A] @ ''  - url: \"http://a:8000\"''"

definition yaml_with :: "string \<Rightarrow> string \<Rightarrow> string" where
  "yaml_with alpha backend_list =
     doc_of [''listen: {}'', ''routing:'', ''  latency_aware:'', ''    alpha: '' @ alpha, ''backends: '' @ backend_list]"

definition with_extra :: "string \<Rightarrow> string" where
  "with_extra extra = doc_of [''listen: {}'', ''routing: {}'', ''backends:'' @ ONE_BACKEND] @ extra"

definition rejects :: "'e text_env \<Rightarrow> string \<Rightarrow> string \<Rightarrow> bool" where
  "rejects env extra needle = rejected env (with_extra extra) needle"

section \<open>The tests\<close>

definition minimal_yaml_uses_defaults :: "'e text_env \<Rightarrow> bool" where
  "minimal_yaml_uses_defaults env =
     accepted env (doc_of [''listen: {}'', ''routing: {}'', ''backends:'', ''  - url: \"http://a:8000\"''])
       (\<lambda>cfg. listen_port (cfg_listen cfg) = 8080 \<and> routing_strategy (cfg_routing cfg) = ''round_robin'' \<and>
          la_alpha (routing_latency_aware (cfg_routing cfg)) = to_f64 (3 / 10) \<and>
          bc_weight (cfg_backends cfg ! 0) = 1 \<and> cbc_min_requests (cfg_circuit_breaker cfg) = 5)"

definition listen_section_is_optional :: "'e text_env \<Rightarrow> bool" where
  "listen_section_is_optional env =
     accepted env (doc_of [''routing: {}'', ''backends:'', ''  - url: \"http://a:8000\"''])
       (\<lambda>cfg. listen_host (cfg_listen cfg) = ''0.0.0.0'' \<and> listen_port (cfg_listen cfg) = 8080 \<and>
          listen_addr cfg \<noteq> None \<and> listen_addr cfg = parse_socket_addr ''0.0.0.0:8080'')"

definition unknown_keys_are_rejected :: "'e text_env \<Rightarrow> bool" where
  "unknown_keys_are_rejected env =
     rejected env (doc_of [''listen: {}'', ''routing: {}'', ''backends: []'', ''backpresure: {max_in_flight: 1}''])
       ''unknown field''"

definition latency_aware_alpha_is_configurable :: "'e text_env \<Rightarrow> bool" where
  "latency_aware_alpha_is_configurable env =
     accepted env (doc_of [''listen: {}'', ''routing:'', ''  strategy: latency_aware'', ''  latency_aware:'',
         ''    alpha: 0.5'', ''backends:'', ''  - url: \"http://a:8000\"''])
       (\<lambda>cfg. la_alpha (routing_latency_aware (cfg_routing cfg)) = to_f64 (1 / 2))"

definition rejects_out_of_range_alpha :: "'e text_env \<Rightarrow> bool" where
  "rejects_out_of_range_alpha env =
     list_all (\<lambda>alpha. rejected env (yaml_with alpha ONE_BACKEND) ''alpha'') [''0'', ''1.5'', ''.nan'']"

definition rejects_empty_backends :: "'e text_env \<Rightarrow> bool" where
  "rejects_empty_backends env = rejected env (yaml_with ''0.3'' ''[]'') ''backends''"

definition rejects_backend_url_with_newline :: "'e text_env \<Rightarrow> bool" where
  "rejects_backend_url_with_newline env =
     rejected env (yaml_with ''0.3'' ([CHR 0x0A] @ ''  - url: \"http://a:8000'' @ [CHR 0x5C] @ ''nx\"'')) ''url''"

definition rejects_out_of_range_failure_rate_threshold :: "'e text_env \<Rightarrow> bool" where
  "rejects_out_of_range_failure_rate_threshold env =
     list_all (\<lambda>rate. rejected env
         (doc_of [''listen: {}'', ''routing: {}'', ''circuit_breaker:'', ''  failure_rate_threshold: '' @ rate,
            ''backends:'' @ ONE_BACKEND])
         ''failure_rate_threshold'')
       [''0'', ''1.5'']"

definition rejects_zero_health_interval :: "'e text_env \<Rightarrow> bool" where
  "rejects_zero_health_interval env = rejects env (doc_of [''health_check:'', ''  interval_secs: 0'']) ''interval_secs''"

definition rejects_out_of_range_window_secs :: "'e text_env \<Rightarrow> bool" where
  "rejects_out_of_range_window_secs env =
     list_all (\<lambda>w. rejects env (doc_of [''circuit_breaker:'', ''  window_secs: '' @ w]) ''window_secs'') [''0'', ''3601'']"

definition accepts_window_secs_at_the_bounds :: "'e text_env \<Rightarrow> bool" where
  "accepts_window_secs_at_the_bounds env =
     list_all (\<lambda>w. accepted env
         (doc_of [''routing: {}'', ''backends:'' @ ONE_BACKEND, ''circuit_breaker:'', ''  window_secs: '' @ show_nat (unat w)])
         (\<lambda>_. True))
       [1, MAX_WINDOW_SECS]"

definition rejects_zero_min_requests :: "'e text_env \<Rightarrow> bool" where
  "rejects_zero_min_requests env = rejects env (doc_of [''circuit_breaker:'', ''  min_requests: 0'']) ''min_requests''"

definition rejects_zero_max_in_flight :: "'e text_env \<Rightarrow> bool" where
  "rejects_zero_max_in_flight env = rejects env (doc_of [''backpressure:'', ''  max_in_flight: 0'']) ''max_in_flight''"

definition bad_metrics_paths :: "string list" where
  "bad_metrics_paths =
     [''metrics'', ''/health'', ''/v1/completions'', ''/v1/chat/completions'', ''/metrics/{id}'', ''/metrics/}'',
      ''/metrics/*rest'', ''/metrics/:v1'']"

definition rejects_bad_metrics_path :: "'e text_env \<Rightarrow> bool" where
  "rejects_bad_metrics_path env =
     list_all (\<lambda>p. rejects env (doc_of [''metrics:'', ''  path: \"'' @ p @ ''\"'']) ''metrics.path'') bad_metrics_paths"

definition upstream_timeouts_default_and_are_configurable :: "'e text_env \<Rightarrow> bool" where
  "upstream_timeouts_default_and_are_configurable env \<longleftrightarrow>
     accepted env (doc_of [''routing: {}'', ''backends:'' @ ONE_BACKEND])
       (\<lambda>cfg. connect_timeout_secs (cfg_upstream cfg) = 10 \<and> read_timeout_secs (cfg_upstream cfg) = 120) \<and>
     accepted env (doc_of [''routing: {}'', ''backends:'' @ ONE_BACKEND, ''upstream:'', ''  read_timeout_secs: 30''])
       (\<lambda>cfg. connect_timeout_secs (cfg_upstream cfg) = 10 \<and> read_timeout_secs (cfg_upstream cfg) = 30)"

definition rejects_zero_upstream_timeouts :: "'e text_env \<Rightarrow> bool" where
  "rejects_zero_upstream_timeouts env \<longleftrightarrow>
     rejects env (doc_of [''upstream:'', ''  connect_timeout_secs: 0'']) ''connect_timeout_secs'' \<and>
     rejects env (doc_of [''upstream:'', ''  read_timeout_secs: 0'']) ''read_timeout_secs'' \<and>
     rejects env (doc_of [''upstream:'', ''  total_timeout_secs: 5'']) ''unknown field''"

definition backend_url_trailing_slashes_are_trimmed :: "'e text_env \<Rightarrow> bool" where
  "backend_url_trailing_slashes_are_trimmed env =
     accepted env (doc_of [''routing: {}'', ''backends:'', ''  - url: \"http://b:8000/\"'', ''  - url: \"http://c:8000//\"''])
       (\<lambda>cfg. normalized_url (cfg_backends cfg ! 0) = ''http://b:8000'' \<and>
          normalized_url (cfg_backends cfg ! 1) = ''http://c:8000'')"

definition rejects_zero_weight :: "'e text_env \<Rightarrow> bool" where
  "rejects_zero_weight env =
     rejected env (doc_of [''listen: {}'', ''routing: {}'', ''backends:'', ''  - url: \"http://a:8000\"'', ''    weight: 0''])
       ''weight >= 1''"

definition rejects_unknown_strategy :: "'e text_env \<Rightarrow> bool" where
  "rejects_unknown_strategy env =
     (case test_yaml env (doc_of [''listen: {}'', ''routing:'', ''  strategy: roundrobin'', ''backends:'', ''  - url: \"http://a:8000\"'']) of
        Inr _ \<Rightarrow> False
      | Inl e \<Rightarrow>
          let err = error_text env e in sublist ''\"roundrobin\"'' err \<and> sublist ''least_load'' err)"

text \<open>The configuration files of the repository, read from the directory of the crate.\<close>

definition shipped_config_files_parse :: "'e text_env \<Rightarrow> (string \<Rightarrow> 'io + string) \<Rightarrow> string \<Rightarrow> bool" where
  "shipped_config_files_parse env read_file manifest_dir =
     list_all (\<lambda>rel. case from_file read_file (tx_yaml env) (tx_header_ok env) (manifest_dir @ ''/'' @ rel) of
         Inl _ \<Rightarrow> False | Inr _ \<Rightarrow> True)
       [''../config.example.yaml'', ''../deploy/router-config.yaml'', ''../deploy/router-config-gpu.yaml'']"

text \<open>app.rs\<close>

definition backend_urls_are_normalised_without_trailing_slash :: "'e text_env \<Rightarrow> instant \<Rightarrow> bool" where
  "backend_urls_are_normalised_without_trailing_slash env now =
     accepted env (doc_of [''routing: {}'', ''backends:'', ''  - url: \"http://b:8000/\"'', ''  - url: \"http://c:8000\"''])
       (\<lambda>cfg. let bs = build_backends (\<lambda>_. now) cfg in url (bs ! 0) = ''http://b:8000'' \<and> url (bs ! 1) = ''http://c:8000'')"

definition upstream_client_builds_from_config :: "'e text_env \<Rightarrow> (duration \<Rightarrow> duration \<Rightarrow> bool) \<Rightarrow> bool" where
  "upstream_client_builds_from_config env builds =
     accepted env (doc_of [''routing: {}'', ''backends:'', ''  - url: \"http://b:8000\"''])
       (\<lambda>cfg. build_client builds (cfg_upstream cfg))"

section \<open>The tests pass\<close>

text \<open>The document with one backend, and nothing else but an empty \<open>listen\<close> section.\<close>

definition one_backend_doc :: raw_config where
  "one_backend_doc = (minimal_document [''http://a:8000''])\<lparr>raw_listen := Some (None, None)\<rparr>"

lemma accepted_doc:
  assumes "tx_yaml env doc = Inr r" "config_ok (tx_header_ok env) (read_config r)"
  shows "accepted env doc check = check (read_config r)"
  using assms by (simp add: accepted_def test_yaml_def from_yaml_def validate_ok [symmetric])

lemma rejected_doc:
  assumes "tx_yaml env doc = Inr r"
  shows "rejected env doc needle =
    (case validate (tx_header_ok env) (read_config r) of
       Inl m \<Rightarrow> sublist needle (''invalid config: '' @ invalid_message (tx_show_f64 env) (tx_debug_str env) m)
     | Inr _ \<Rightarrow> False)"
  using assms by (simp add: rejected_def test_yaml_def from_yaml_def error_text_def Let_def split: sum.split)

lemma rejected_parse:
  assumes "tx_yaml env doc = Inl e" "sublist needle (tx_show_parse env e)"
  shows "rejected env doc needle"
  using assms by (simp add: rejected_def test_yaml_def from_yaml_def error_text_def sublist_Cons_right)

lemmas read_doc = one_backend_doc_def minimal_document_def read_config_def read_listen_def read_routing_def
  read_backend_def read_health_check_def read_circuit_breaker_def read_backpressure_def read_metrics_def
  read_upstream_def the_default_def default_host_def default_port_def default_strategy_def default_weight_def
  default_interval_secs_def default_min_requests_def default_window_secs_def default_max_in_flight_def
  default_metrics_path_def default_connect_timeout_secs_def default_read_timeout_secs_def

lemmas judge_doc = config_ok_def backend_config_ok_def default_alpha_value default_rate_value STRATEGY_NAMES_def
  ROUTER_ROUTES_def

lemmas reject_doc = rejected_doc validate_def not_in_unit_iff default_alpha_value default_rate_value STRATEGY_NAMES_def
  ROUTER_ROUTES_def starts_with_def MAX_WINDOW_SECS_def quoted_def sublist_Cons_right

lemma minimal_yaml_uses_defaults_passes:
  assumes "tx_yaml env (doc_of [''listen: {}'', ''routing: {}'', ''backends:'', ''  - url: \"http://a:8000\"'']) = Inr one_backend_doc"
    and "tx_header_ok env ''http://a:8000''"
  shows "minimal_yaml_uses_defaults env"
  using assms(2) unfolding minimal_yaml_uses_defaults_def
  by (subst accepted_doc [OF assms(1)]) (simp_all add: read_doc judge_doc, simp add: default_ewma_alpha_def)

lemma listen_section_is_optional_passes:
  assumes "tx_yaml env (doc_of [''routing: {}'', ''backends:'', ''  - url: \"http://a:8000\"'']) = Inr (minimal_document [''http://a:8000''])"
    and "tx_header_ok env ''http://a:8000''"
  shows "listen_section_is_optional env"
proof -
  let ?cfg = "read_config (minimal_document [''http://a:8000''])"
  have chars: "char_of (48 :: nat) = CHR ''0''" "char_of (56 :: nat) = CHR ''8''" by (simp_all add: char_of_def bit_iff_odd)
  then have zero: "show_ipv4 0 0 0 0 = ''0.0.0.0''" by (simp add: show_ipv4_def show_nat.simps)
  have printed: "listen_addr_text ?cfg = ''0.0.0.0:8080''"
    using chars by (simp add: read_doc listen_addr_text_def show_nat.simps)
  have "listen_addr ?cfg = Some (V4 [0, 0, 0, 0] (unat (listen_port (cfg_listen ?cfg))))"
    by (rule listen_addr_ipv4) (simp_all add: zero read_doc)
  then have "listen_addr ?cfg \<noteq> None" "listen_addr ?cfg = parse_socket_addr ''0.0.0.0:8080''"
    by (simp_all add: listen_addr_def [of ?cfg] printed)
  with assms(2) show ?thesis unfolding listen_section_is_optional_def
    by (subst accepted_doc [OF assms(1)]) (simp_all add: read_doc judge_doc del: not_None_eq)
qed

lemma unknown_keys_are_rejected_passes:
  assumes "tx_yaml env (doc_of [''listen: {}'', ''routing: {}'', ''backends: []'', ''backpresure: {max_in_flight: 1}'']) = Inl e"
    and "sublist ''unknown field'' (tx_show_parse env e)"
  shows "unknown_keys_are_rejected env"
  unfolding unknown_keys_are_rejected_def using assms by (rule rejected_parse)

definition with_alpha :: "f64 \<Rightarrow> raw_config \<Rightarrow> raw_config" where
  "with_alpha alpha r = r\<lparr>raw_routing_section := (raw_routing_section r)\<lparr>raw_latency_aware := Some (Some alpha)\<rparr>\<rparr>"

definition with_strategy :: "string \<Rightarrow> raw_config \<Rightarrow> raw_config" where
  "with_strategy name r = r\<lparr>raw_routing_section := (raw_routing_section r)\<lparr>raw_strategy := Some name\<rparr>\<rparr>"

lemma latency_aware_alpha_is_configurable_passes:
  assumes "tx_yaml env (doc_of [''listen: {}'', ''routing:'', ''  strategy: latency_aware'', ''  latency_aware:'',
      ''    alpha: 0.5'', ''backends:'', ''  - url: \"http://a:8000\"'']) =
      Inr (with_alpha (to_f64 (1 / 2)) (with_strategy ''latency_aware'' one_backend_doc))"
    and "tx_header_ok env ''http://a:8000''"
  shows "latency_aware_alpha_is_configurable env"
proof -
  have "to_f64 (1 / 2) = Fin (1 / 2)" using default_rate_value by (simp add: default_failure_rate_def)
  with assms(2) show ?thesis unfolding latency_aware_alpha_is_configurable_def
    by (subst accepted_doc [OF assms(1)]) (simp_all add: with_alpha_def with_strategy_def read_doc judge_doc)
qed

lemma rejects_out_of_range_alpha_passes:
  assumes "\<forall>(alpha, x) \<in> set [(''0'', Fin 0), (''1.5'', Fin (3 / 2)), (''.nan'', NaN)].
    tx_yaml env (yaml_with alpha ONE_BACKEND) = Inr (with_alpha x one_backend_doc)"
  shows "rejects_out_of_range_alpha env"
  using assms
  by (simp add: rejects_out_of_range_alpha_def with_alpha_def read_doc reject_doc Let_def unit_interval_def)

lemma rejects_backend_url_with_newline_passes:
  assumes "tx_yaml env (yaml_with ''0.3'' ([CHR 0x0A] @ ''  - url: \"http://a:8000'' @ [CHR 0x5C] @ ''nx\"'')) =
      Inr (with_alpha default_ewma_alpha (one_backend_doc\<lparr>raw_backends := [(''http://a:8000'' @ [CHR 0x0A] @ ''x'', None)]\<rparr>))"
    and "\<not> tx_header_ok env (''http://a:8000'' @ [CHR 0x0A] @ ''x'')"
  shows "rejects_backend_url_with_newline env"
  using assms(2) unfolding rejects_backend_url_with_newline_def rejected_doc [OF assms(1)]
  by (simp add: with_alpha_def read_doc reject_doc Let_def)

lemma rejects_empty_backends_passes:
  assumes "tx_yaml env (yaml_with ''0.3'' ''[]'') = Inr (with_alpha default_ewma_alpha (one_backend_doc\<lparr>raw_backends := []\<rparr>))"
  shows "rejects_empty_backends env"
  unfolding rejects_empty_backends_def rejected_doc [OF assms]
  by (simp add: with_alpha_def read_doc reject_doc Let_def)

definition with_breaker :: "f64 option \<Rightarrow> u64 option \<Rightarrow> u64 option \<Rightarrow> raw_config \<Rightarrow> raw_config" where
  "with_breaker rate min_req w r = r\<lparr>raw_circuit_breaker := Some (rate, min_req, w, None)\<rparr>"

lemma rejects_out_of_range_failure_rate_threshold_passes:
  assumes "\<forall>(rate, x) \<in> set [(''0'', Fin 0), (''1.5'', Fin (3 / 2))].
    tx_yaml env (doc_of [''listen: {}'', ''routing: {}'', ''circuit_breaker:'', ''  failure_rate_threshold: '' @ rate,
      ''backends:'' @ ONE_BACKEND]) = Inr (with_breaker (Some x) None None one_backend_doc)"
  shows "rejects_out_of_range_failure_rate_threshold env"
  using assms
  by (simp add: rejects_out_of_range_failure_rate_threshold_def with_breaker_def read_doc reject_doc Let_def)

lemma rejects_zero_health_interval_passes:
  assumes "tx_yaml env (with_extra (doc_of [''health_check:'', ''  interval_secs: 0''])) = Inr (one_backend_doc\<lparr>raw_health_check := Some (Some 0, None, None)\<rparr>)"
  shows "rejects_zero_health_interval env"
  unfolding rejects_zero_health_interval_def rejects_def rejected_doc [OF assms]
  by (simp add: read_doc reject_doc Let_def)

lemma rejects_out_of_range_window_secs_passes:
  assumes "\<forall>(w, x) \<in> set [(''0'', 0), (''3601'', 3601)].
    tx_yaml env (with_extra (doc_of [''circuit_breaker:'', ''  window_secs: '' @ w])) =
      Inr (with_breaker None None (Some x) one_backend_doc)"
  shows "rejects_out_of_range_window_secs env"
  using assms
  by (simp add: rejects_out_of_range_window_secs_def rejects_def with_breaker_def read_doc reject_doc Let_def
      word_le_nat_alt)

lemma accepts_window_secs_at_the_bounds_passes:
  assumes "\<forall>w \<in> set [1, MAX_WINDOW_SECS].
    tx_yaml env (doc_of [''routing: {}'', ''backends:'' @ ONE_BACKEND, ''circuit_breaker:'',
      ''  window_secs: '' @ show_nat (unat w)]) =
      Inr (with_breaker None None (Some w) (minimal_document [''http://a:8000'']))"
    and "tx_header_ok env ''http://a:8000''"
  shows "accepts_window_secs_at_the_bounds env"
proof -
  have "config_ok (tx_header_ok env) (read_config (with_breaker None None (Some w) (minimal_document [''http://a:8000''])))"
    if "w \<in> set [1, MAX_WINDOW_SECS]" for w
    using that assms(2) by (auto simp: with_breaker_def read_doc judge_doc MAX_WINDOW_SECS_def)
  with assms(1) show ?thesis
    by (simp add: accepts_window_secs_at_the_bounds_def accepted_doc del: unsigned_1)
qed

lemma rejects_zero_min_requests_passes:
  assumes "tx_yaml env (with_extra (doc_of [''circuit_breaker:'', ''  min_requests: 0''])) = Inr (one_backend_doc\<lparr>raw_circuit_breaker := Some (None, Some 0, None, None)\<rparr>)"
  shows "rejects_zero_min_requests env"
  unfolding rejects_zero_min_requests_def rejects_def rejected_doc [OF assms]
  by (simp add: read_doc reject_doc Let_def)

lemma rejects_zero_max_in_flight_passes:
  assumes "tx_yaml env (with_extra (doc_of [''backpressure:'', ''  max_in_flight: 0''])) = Inr (one_backend_doc\<lparr>raw_backpressure := Some (Some 0, None)\<rparr>)"
  shows "rejects_zero_max_in_flight env"
  unfolding rejects_zero_max_in_flight_def rejects_def rejected_doc [OF assms]
  by (simp add: read_doc reject_doc Let_def)

lemma rejects_bad_metrics_path_passes:
  assumes "\<forall>p \<in> set bad_metrics_paths.
    tx_yaml env (with_extra (doc_of [''metrics:'', ''  path: \"'' @ p @ ''\"''])) =
      Inr (one_backend_doc\<lparr>raw_metrics := Some (None, Some p)\<rparr>)"
  shows "rejects_bad_metrics_path env"
proof -
  have "rejects env (doc_of [''metrics:'', ''  path: \"'' @ p @ ''\"'']) ''metrics.path''" if "p \<in> set bad_metrics_paths" for p
  proof -
    have "tx_yaml env (with_extra (doc_of [''metrics:'', ''  path: \"'' @ p @ ''\"''])) =
      Inr (one_backend_doc\<lparr>raw_metrics := Some (None, Some p)\<rparr>)" using assms that by blast
    then show ?thesis using that unfolding rejects_def bad_metrics_paths_def
      by (auto simp: rejected_doc read_doc validate_def not_in_unit_iff default_alpha_value default_rate_value
          STRATEGY_NAMES_def ROUTER_ROUTES_def starts_with_def MAX_WINDOW_SECS_def sublist_Cons_right)
  qed
  then show ?thesis by (simp add: rejects_bad_metrics_path_def list_all_iff)
qed

lemma upstream_timeouts_default_and_are_configurable_passes:
  assumes "tx_yaml env (doc_of [''routing: {}'', ''backends:'' @ ONE_BACKEND]) = Inr (minimal_document [''http://a:8000''])"
    and "tx_yaml env (doc_of [''routing: {}'', ''backends:'' @ ONE_BACKEND, ''upstream:'', ''  read_timeout_secs: 30'']) =
      Inr ((minimal_document [''http://a:8000''])\<lparr>raw_upstream := Some (None, Some 30)\<rparr>)"
    and "tx_header_ok env ''http://a:8000''"
  shows "upstream_timeouts_default_and_are_configurable env"
  using assms(3) unfolding upstream_timeouts_default_and_are_configurable_def
  by (subst accepted_doc [OF assms(1)], simp add: read_doc judge_doc, subst accepted_doc [OF assms(2)])
    (simp_all add: read_doc judge_doc)

lemma rejects_zero_upstream_timeouts_passes:
  assumes "tx_yaml env (with_extra (doc_of [''upstream:'', ''  connect_timeout_secs: 0''])) =
      Inr (one_backend_doc\<lparr>raw_upstream := Some (Some 0, None)\<rparr>)"
    and "tx_yaml env (with_extra (doc_of [''upstream:'', ''  read_timeout_secs: 0''])) =
      Inr (one_backend_doc\<lparr>raw_upstream := Some (None, Some 0)\<rparr>)"
    and "tx_yaml env (with_extra (doc_of [''upstream:'', ''  total_timeout_secs: 5''])) = Inl e"
    and "sublist ''unknown field'' (tx_show_parse env e)"
  shows "rejects_zero_upstream_timeouts env"
  using rejected_parse [OF assms(3,4)]
  unfolding rejects_zero_upstream_timeouts_def rejects_def rejected_doc [OF assms(1)] rejected_doc [OF assms(2)]
  by (simp add: read_doc reject_doc Let_def)

lemma backend_url_trailing_slashes_are_trimmed_passes:
  assumes "tx_yaml env (doc_of [''routing: {}'', ''backends:'', ''  - url: \"http://b:8000/\"'', ''  - url: \"http://c:8000//\"'']) =
      Inr (minimal_document [''http://b:8000/'', ''http://c:8000//''])"
    and "tx_header_ok env ''http://b:8000/''" "tx_header_ok env ''http://c:8000//''"
  shows "backend_url_trailing_slashes_are_trimmed env"
  using assms(2,3) unfolding backend_url_trailing_slashes_are_trimmed_def
  by (subst accepted_doc [OF assms(1)])
    (simp_all add: read_doc judge_doc normalized_url_def trim_end_slashes_def)

lemma rejects_zero_weight_passes:
  assumes "tx_yaml env (doc_of [''listen: {}'', ''routing: {}'', ''backends:'', ''  - url: \"http://a:8000\"'', ''    weight: 0'']) =
      Inr (one_backend_doc\<lparr>raw_backends := [(''http://a:8000'', Some 0)]\<rparr>)"
  shows "rejects_zero_weight env"
  unfolding rejects_zero_weight_def rejected_doc [OF assms]
  by (simp add: read_doc reject_doc Let_def)

lemma rejects_unknown_strategy_passes:
  assumes "tx_yaml env (doc_of [''listen: {}'', ''routing:'', ''  strategy: roundrobin'', ''backends:'', ''  - url: \"http://a:8000\"'']) =
      Inr (with_strategy ''roundrobin'' one_backend_doc)"
    and "tx_debug_str env ''roundrobin'' = ''\"roundrobin\"''"
  shows "rejects_unknown_strategy env"
proof -
  have "validate (tx_header_ok env) (read_config (with_strategy ''roundrobin'' one_backend_doc)) =
      Inl (Unknown_strategy_name ''roundrobin'')"
    by (simp add: with_strategy_def read_doc reject_doc Let_def)
  then have "test_yaml env (doc_of [''listen: {}'', ''routing:'', ''  strategy: roundrobin'', ''backends:'', ''  - url: \"http://a:8000\"'']) =
      Inl (Invalid (Unknown_strategy_name ''roundrobin''))"
    using assms(1) by (simp add: test_yaml_def from_yaml_def)
  then show ?thesis
    by (simp add: rejects_unknown_strategy_def error_text_def assms(2) STRATEGY_NAMES_def sublist_Cons_right)
qed

text \<open>The three shipped files, by the keys they have.\<close>

definition shipped_doc :: "string list \<Rightarrow> f64 option option \<Rightarrow> (u64 option \<times> u64 option) option \<Rightarrow> raw_config" where
  "shipped_doc urls alpha timeouts =
     \<lparr>raw_listen = Some (Some ''0.0.0.0'', Some 8080),
      raw_routing_section =
        \<lparr>raw_strategy = Some ''latency_aware'', raw_prefix_cache = Some (Some 256), raw_latency_aware = alpha\<rparr>,
      raw_backends = map (\<lambda>u. (u, Some 1)) urls, raw_health_check = Some (Some 5, Some 3, Some 2),
      raw_circuit_breaker = Some (Some (to_f64 (1 / 2)), Some 5, Some 60, Some 30),
      raw_backpressure = Some (Some 1000, Some 50), raw_metrics = Some (Some True, Some ''/metrics''),
      raw_upstream = timeouts\<rparr>"

definition vllm_urls :: "string list" where
  "vllm_urls = [''http://vllm-1:8000'', ''http://vllm-2:8000'', ''http://vllm-3:8000'']"

definition mock_urls :: "string list" where
  "mock_urls = [''http://mock-1:8000'', ''http://mock-2:8000'', ''http://mock-3:8000'']"

lemma shipped_config_files_parse_passes:
  assumes "\<forall>(rel, r) \<in> set
      [(''../config.example.yaml'', shipped_doc vllm_urls (Some (Some (to_f64 (3 / 10)))) (Some (Some 10, Some 120))),
       (''../deploy/router-config.yaml'', shipped_doc mock_urls None None),
       (''../deploy/router-config-gpu.yaml'', shipped_doc vllm_urls None None)].
      \<exists>contents. read_file (manifest_dir @ ''/'' @ rel) = Inr contents \<and> tx_yaml env contents = Inr r"
    and "\<forall>u \<in> set (vllm_urls @ mock_urls). tx_header_ok env u"
  shows "shipped_config_files_parse env read_file manifest_dir"
proof -
  have half: "to_f64 (1 / 2) = Fin (1 / 2)" using default_rate_value by (simp add: default_failure_rate_def)
  have ok: "validate (tx_header_ok env) (read_config (shipped_doc urls alpha timeouts)) = Inr ()"
    if "urls \<in> {vllm_urls, mock_urls}" "alpha \<in> {None, Some (Some (to_f64 (3 / 10)))}"
      "timeouts \<in> {None, Some (Some 10, Some 120)}" for urls alpha timeouts
    using that assms(2) default_alpha_value unfolding validate_ok
    by (auto simp: shipped_doc_def vllm_urls_def mock_urls_def read_doc judge_doc half default_ewma_alpha_def)
  have "case from_file read_file (tx_yaml env) (tx_header_ok env) (manifest_dir @ ''/'' @ rel) of Inl _ \<Rightarrow> False | Inr _ \<Rightarrow> True"
    if "read_file (manifest_dir @ ''/'' @ rel) = Inr contents" "tx_yaml env contents = Inr (shipped_doc urls alpha timeouts)"
      "urls \<in> {vllm_urls, mock_urls}" "alpha \<in> {None, Some (Some (to_f64 (3 / 10)))}"
      "timeouts \<in> {None, Some (Some 10, Some 120)}" for rel contents urls alpha timeouts
    using ok [OF that(3-5)] that(1,2) by (simp add: from_file_def from_yaml_def)
  with assms(1) show ?thesis by (auto simp: shipped_config_files_parse_def)
qed

text \<open>app.rs\<close>

lemma backend_urls_are_normalised_without_trailing_slash_passes:
  assumes "tx_yaml env (doc_of [''routing: {}'', ''backends:'', ''  - url: \"http://b:8000/\"'', ''  - url: \"http://c:8000\"'']) =
      Inr (minimal_document [''http://b:8000/'', ''http://c:8000''])"
    and "tx_header_ok env ''http://b:8000/''" "tx_header_ok env ''http://c:8000''"
  shows "backend_urls_are_normalised_without_trailing_slash env now"
  using assms(2,3) unfolding backend_urls_are_normalised_without_trailing_slash_def
  by (subst accepted_doc [OF assms(1)])
    (simp_all add: read_doc judge_doc normalized_url_def trim_end_slashes_def build_backends_nth new_backend_def Let_def)

lemma upstream_client_builds_from_config_passes:
  assumes "tx_yaml env (doc_of [''routing: {}'', ''backends:'', ''  - url: \"http://b:8000\"'']) = Inr (minimal_document [''http://b:8000''])"
    and "tx_header_ok env ''http://b:8000''" "builds (from_secs 10) (from_secs 120)"
  shows "upstream_client_builds_from_config env builds"
  using assms(2,3) unfolding upstream_client_builds_from_config_def
  by (subst accepted_doc [OF assms(1)]) (simp_all add: read_doc judge_doc build_client_def)

end
