(* ===== verification/Pool_Tests.thy ===== *)
theory Pool_Tests
  imports Test_Support
begin

text \<open>The unit tests of backend.rs and backpressure.rs, run on the model. Each of them passes.\<close>

section \<open>The pool\<close>

definition plain_backend :: "instant \<Rightarrow> nat \<Rightarrow> backend" where
  "plain_backend now i = new_backend i (''http://b'' @ show_nat i) 1 (default_breaker now)"

definition routable_ids :: "instant \<Rightarrow> backend_pool \<Rightarrow> nat list" where
  "routable_ids now p = map (\<lambda>i. backend_id (backends p ! i)) (fst (routable (\<lambda>_. now) p))"

definition routable_excludes_unhealthy_and_open_circuit :: "instant \<Rightarrow> bool" where
  "routable_excludes_unhealthy_and_open_circuit now =
     (let b0 = plain_backend now 0;
          b1 = mark_unhealthy (plain_backend now 1);
          open_breaker = record_failure now Normal (new_breaker (Fin (1 / 2)) 1 60 30 now);
          b2 = new_backend 2 ''http://b2'' 1 open_breaker
      in routable_ids now (new_pool [b0, b1, b2] 50) = [0])"

definition routable_excludes_backends_over_queue_depth_limit :: "instant \<Rightarrow> bool" where
  "routable_excludes_backends_over_queue_depth_limit now =
     (let b0 = plain_backend now 0;
          b1 = (plain_backend now 1)\<lparr>queue_depth := 51\<rparr>
      in routable_ids now (new_pool [b0, b1] 50) = [0])"

definition queue_limit_is_soft_when_every_backend_is_over_it :: "instant \<Rightarrow> bool" where
  "queue_limit_is_soft_when_every_backend_is_over_it now =
     (let b0 = (plain_backend now 0)\<lparr>queue_depth := 60\<rparr>;
          b1 = (plain_backend now 1)\<lparr>queue_depth := 70\<rparr>
      in routable_ids now (new_pool [b0, b1] 50) = [0, 1])"

definition ewma_first_sample_is_taken_as_is :: "instant \<Rightarrow> bool" where
  "ewma_first_sample_is_taken_as_is now =
     (let b1 = update_ewma_latency 1000 (to_f64 (3 / 10)) (plain_backend now 0);
          b2 = update_ewma_latency 2000 (to_f64 (1 / 2)) b1
      in ewma_latency_us b1 = 1000 \<and> ewma_latency_us b2 = 1500)"

lemma upt_small: "[0..<2] = [0, 1]" "[0..<3] = [0, 1, 2 :: nat]"
  by (simp_all add: upt_rec)

lemmas pool_eval = routable_ids_def routable_list available_at_def within_queue_limit_def new_pool_def
  plain_backend_def new_backend_def default_breaker_eq fresh_breaker upt_small

text \<open>The breaker that one failure opens, on the abstract breaker.\<close>

lemma opened_at_once:
  assumes "od \<noteq> 0"
  shows "fst (breaker_is_routable now (record_failure now Normal (new_breaker (Fin (1 / 2)) 1 60 od now))) = False"
proof -
  have "passes [Call (Record_failure Normal), Expect Is_routable (Flag False)] now (new_breaker (Fin (1 / 2)) 1 60 od now)"
    using assms by (simp add: to_spec, simp add: spec_eval unat_eq_0)
  then show ?thesis by (simp add: passes.simps split_def)
qed

lemma first_latency: "next_latency l a 0 = l"
  by (simp add: next_latency_def)

text \<open>The mean of two whole numbers needs no rounding.\<close>

lemma ewma_mean: "next_latency 2000 (to_f64 (1 / 2)) 1000 = 1500"
proof -
  have half: "to_f64 (1 / 2) = Fin (1 / 2)" using default_rate_value by (simp add: default_failure_rate_def)
  have whole: "rnd (numeral n) = numeral n" if "numeral n \<le> (2 ^ 53 :: nat)" for n
    using b64.exact [OF representable_of_nat [OF that]] by simp
  have one_half: "rnd (1 / 2) = 1 / 2" by (rule b64.exact [OF representable_half])
  have "ewma_exact (1 / 2) (of_nat 2000) (of_nat 1000) = 1500"
    by (simp add: ewma_exact_def whole one_half)
  then show ?thesis
    using ewma_f64 [of "1 / 2" 2000 1000] by (simp add: next_latency_def half f64_of_u64_def)
qed

lemma ewma_first_sample_is_taken_as_is_passes: "ewma_first_sample_is_taken_as_is now"
  by (simp add: ewma_first_sample_is_taken_as_is_def update_ewma_latency_def plain_backend_def new_backend_def
      ewma_mean first_latency)

lemma routable_excludes_unhealthy_and_open_circuit_passes: "routable_excludes_unhealthy_and_open_circuit now"
  by (simp add: routable_excludes_unhealthy_and_open_circuit_def pool_eval mark_unhealthy_def opened_at_once)

lemma routable_excludes_backends_over_queue_depth_limit_passes: "routable_excludes_backends_over_queue_depth_limit now"
  by (simp add: routable_excludes_backends_over_queue_depth_limit_def pool_eval)

lemma queue_limit_is_soft_when_every_backend_is_over_it_passes: "queue_limit_is_soft_when_every_backend_is_over_it now"
  by (simp add: queue_limit_is_soft_when_every_backend_is_over_it_def pool_eval)

section \<open>Admission control\<close>

definition rejects_when_full :: bool where
  "rejects_when_full =
     (let (a, bp1) = try_acquire (new_controller 2);
          (b, bp2) = try_acquire bp1
      in a \<noteq> None \<and> b \<noteq> None \<and> fst (try_acquire bp2) = None)"

definition dropping_permit_frees_slot :: bool where
  "dropping_permit_frees_slot =
     (let (a, bp1) = try_acquire (new_controller 1);
          (b, bp2) = try_acquire bp1;
          bp3 = drop_permit bp2
      in a \<noteq> None \<and> b = None \<and> fst (try_acquire bp3) \<noteq> None)"

definition tracks_in_flight :: bool where
  "tracks_in_flight =
     (let bp0 = new_controller 10;
          (a, bp1) = try_acquire bp0;
          (b, bp2) = try_acquire bp1;
          bp3 = drop_permit bp2
      in in_flight bp0 = 0 \<and> a \<noteq> None \<and> b \<noteq> None \<and> in_flight bp2 = 2 \<and> in_flight bp3 = 1)"

lemmas controller_eval = try_acquire_cases drop_permit_cases new_controller_def in_flight_def

lemma rejects_when_full_passes: rejects_when_full
  by (simp add: rejects_when_full_def controller_eval)

lemma dropping_permit_frees_slot_passes: dropping_permit_frees_slot
  by (simp add: dropping_permit_frees_slot_def controller_eval)

lemma tracks_in_flight_passes: tracks_in_flight
  by (simp add: tracks_in_flight_def controller_eval)

end
