(* ===== verification/Accounting_Tests.thy ===== *)
theory Accounting_Tests
  imports Pool_Tests
begin

text \<open>
  The unit tests of accounting.rs and of server.rs, run on the model. Each of them passes. What a
  test looks for in the encoded metrics is looked for in the calls on the families: a counter
  with a status label occurs in the text once it has been incremented.

  A test runs at an instant that is at least a second after the clock's origin, because some of
  them subtract from it; the breaker's test clock is the instant handed to the breaker.
\<close>

section \<open>Fixtures\<close>

definition fixture_of :: "circuit_breaker \<Rightarrow> router_state" where
  "fixture_of cb =
     \<lparr>pool = new_pool [new_backend 0 ''http://b0'' 1 cb] 0, controller = new_controller 4, metric_log = []\<rparr>"

definition fixture :: "instant \<Rightarrow> router_state" where
  "fixture now = fixture_of (new_breaker (Fin (1 / 2)) 1 60 30 now)"

definition probe_fixture :: "instant \<Rightarrow> router_state" where
  "probe_fixture now = fixture_of (new_breaker (Fin (1 / 2)) 1 60 1 now)"

text \<open>\<open>start\<close>: the slot is taken (a full controller would be a panic), then the guard made.\<close>

definition start_with :: "admission \<Rightarrow> instant \<Rightarrow> router_state \<Rightarrow> (request_accounting \<times> router_state) option" where
  "start_with adm now f =
     (case try_acquire (controller f) of
        (None, _) \<Rightarrow> None
      | (Some _, c) \<Rightarrow> Some (start_accounting 0 ''test'' (to_f64 (3 / 10)) adm now (f\<lparr>controller := c\<rparr>)))"

definition test_start :: "instant \<Rightarrow> router_state \<Rightarrow> (request_accounting \<times> router_state) option" where
  "test_start = start_with Normal"

text \<open>What the tests read: a label of the request counter, a state, the two counters.\<close>

definition counted :: "string \<Rightarrow> router_state \<Rightarrow> bool" where
  "counted st f \<longleftrightarrow> list_ex (\<lambda>m. case m of Requests_total_inc l \<Rightarrow> label_status l = st | _ \<Rightarrow> False) (metric_log f)"

definition breaker_reads :: "instant \<Rightarrow> router_state \<Rightarrow> circuit_state" where
  "breaker_reads now f = fst (breaker_state now (breaker (backend_at f 0)))"

definition connections :: "router_state \<Rightarrow> usize" where
  "connections f = active_connections (backend_at f 0)"

definition slots_held :: "router_state \<Rightarrow> usize" where
  "slots_held f = in_flight (controller f)"

definition ewma :: "router_state \<Rightarrow> u64" where
  "ewma f = ewma_latency_us (backend_at f 0)"

section \<open>Guards\<close>

definition completed_2xx_records_success_latency_and_releases_permit :: "instant \<Rightarrow> bool" where
  "completed_2xx_records_success_latency_and_releases_permit now =
     (case test_start now (fixture now) of
        None \<Rightarrow> False
      | Some (acc, f) \<Rightarrow>
          let acc' = acc\<lparr>acc_started := now - 5000000\<rparr>;
              f' = finish (\<lambda>_. now) (Completed 200) acc' f
          in connections f = 1 \<and> slots_held f = 1 \<and> connections f' = 0 \<and> slots_held f' = 0 \<and>
             0 < ewma f' \<and> breaker_reads now f' = Closed \<and> counted ''200'' f')"

definition completed_5xx_is_a_backend_failure :: "instant \<Rightarrow> bool" where
  "completed_5xx_is_a_backend_failure now =
     (case test_start now (fixture now) of
        None \<Rightarrow> False
      | Some (acc, f) \<Rightarrow>
          let f' = finish (\<lambda>_. now) (Completed 502) acc f
          in breaker_reads now f' = Open \<and> counted ''502'' f' \<and> ewma f' = 0)"

definition completed_4xx_is_not_a_backend_failure :: "instant \<Rightarrow> bool" where
  "completed_4xx_is_not_a_backend_failure now =
     (case test_start now (fixture now) of
        None \<Rightarrow> False
      | Some (acc, f) \<Rightarrow>
          let f' = finish (\<lambda>_. now) (Completed 400) acc f
          in breaker_reads now f' = Closed \<and> counted ''400'' f')"

definition transport_error_is_a_backend_failure_with_its_own_label :: "instant \<Rightarrow> bool" where
  "transport_error_is_a_backend_failure_with_its_own_label now =
     (case test_start now (fixture now) of
        None \<Rightarrow> False
      | Some (acc, f) \<Rightarrow>
          let f' = finish (\<lambda>_. now) TransportError acc f
          in breaker_reads now f' = Open \<and> slots_held f' = 0 \<and> counted ''transport_error'' f' \<and> \<not> counted ''502'' f')"

definition dropped_without_verdict_is_a_client_disconnect :: "instant \<Rightarrow> bool" where
  "dropped_without_verdict_is_a_client_disconnect now =
     (case test_start now (fixture now) of
        None \<Rightarrow> False
      | Some (acc, f) \<Rightarrow>
          let f' = drop_accounting (\<lambda>_. now) acc f
          in connections f' = 0 \<and> breaker_reads now f' = Closed \<and> ewma f' = 0 \<and> counted ''client_disconnect'' f')"

definition ewma_uses_time_to_first_byte :: "instant \<Rightarrow> bool" where
  "ewma_uses_time_to_first_byte now =
     (case test_start now (fixture now) of
        None \<Rightarrow> False
      | Some (acc, f) \<Rightarrow>
          let acc' = acc\<lparr>acc_started := now - 50000000\<rparr>;
              acc'' = mark_headers_received_at (acc_started acc' + 10000000) acc';
              f' = finish (\<lambda>_. now) (Completed 200) acc'' f
          in 9000 \<le> ewma f' \<and> ewma f' \<le> 11000)"

section \<open>Streams\<close>

text \<open>\<open>stream.next()\<close> on a stream that is ready: one poll with what the inner stream yields.\<close>

definition stream_next :: "instant \<Rightarrow> 'e poll \<Rightarrow> accounted_stream \<times> router_state \<Rightarrow> 'e poll \<times> accounted_stream \<times> router_state" where
  "stream_next now polled sf = poll_next (\<lambda>_. now) polled (fst sf) (snd sf)"

definition sse_line :: "string \<Rightarrow> string" where
  "sse_line s = ''data: '' @ s @ [CHR 0x0A, CHR 0x0A]"

definition stream_finishes_accounting_at_end_of_body :: "instant \<Rightarrow> bool" where
  "stream_finishes_accounting_at_end_of_body now =
     (case test_start now (fixture now) of
        None \<Rightarrow> False
      | Some (acc, f) \<Rightarrow>
          let (first, sf1) = stream_next now (Ready_chunk (sse_line ''a'') :: unit poll) (new_accounted_stream 200 acc, f);
              (second, sf2) = stream_next now (Ready_chunk (sse_line ''[DONE]'') :: unit poll) sf1;
              (third, sf3) = stream_next now (Ready_none :: unit poll) sf2;
              f' = snd sf3
          in first = Ready_chunk (sse_line ''a'') \<and> connections (snd sf1) = 1 \<and> second = Ready_chunk (sse_line ''[DONE]'') \<and>
             third = Ready_none \<and> connections f' = 0 \<and> slots_held f' = 0 \<and> counted ''200'' f')"

definition stream_error_records_failure_and_releases_permit :: "'e \<Rightarrow> instant \<Rightarrow> bool" where
  "stream_error_records_failure_and_releases_permit err now =
     (case test_start now (fixture now) of
        None \<Rightarrow> False
      | Some (acc, f) \<Rightarrow>
          let (first, sf1) = stream_next now (Ready_chunk ''a'' :: 'e poll) (new_accounted_stream 200 acc, f);
              (second, sf2) = stream_next now (Ready_err err) sf1;
              (third, sf3) = stream_next now (Ready_none :: 'e poll) sf2;
              f' = snd sf3
          in first = Ready_chunk ''a'' \<and> second = Ready_err err \<and> third = Ready_none \<and>
             breaker_reads now f' = Open \<and> slots_held f' = 0 \<and> counted ''stream_error'' f')"

definition dropping_stream_midway_is_a_client_disconnect :: "instant \<Rightarrow> bool" where
  "dropping_stream_midway_is_a_client_disconnect now =
     (case test_start now (fixture now) of
        None \<Rightarrow> False
      | Some (acc, f) \<Rightarrow>
          let (first, sf1) = stream_next now (Ready_chunk ''a'' :: unit poll) (new_accounted_stream 200 acc, f);
              f' = drop_stream (\<lambda>_. now) (fst sf1) (snd sf1)
          in first = Ready_chunk ''a'' \<and> connections f' = 0 \<and> breaker_reads now f' = Closed \<and>
             counted ''client_disconnect'' f' \<and> slots_held f' = 0)"

definition close_right_after_done_counts_as_completed :: "instant \<Rightarrow> bool" where
  "close_right_after_done_counts_as_completed now =
     (case test_start now (fixture now) of
        None \<Rightarrow> False
      | Some (acc, f) \<Rightarrow>
          let (first, sf1) = stream_next now (Ready_chunk (sse_line ''a'') :: unit poll) (new_accounted_stream 200 acc, f);
              (second, sf2) = stream_next now (Ready_chunk (sse_line ''[DONE]'') :: unit poll) sf1;
              f' = drop_stream (\<lambda>_. now) (fst sf2) (snd sf2)
          in first = Ready_chunk (sse_line ''a'') \<and> second = Ready_chunk (sse_line ''[DONE]'') \<and>
             slots_held f' = 0 \<and> counted ''200'' f' \<and> \<not> counted ''client_disconnect'' f')"

section \<open>Probes\<close>

text \<open>
  The breaker reads the system clock plus the time it was advanced by, the guard only the
  system clock.
\<close>

definition on_breaker :: "(circuit_breaker \<Rightarrow> 'a \<times> circuit_breaker) \<Rightarrow> router_state \<Rightarrow> 'a \<times> router_state" where
  "on_breaker call f =
     (case call (breaker (backend_at f 0)) of (r, cb) \<Rightarrow> (r, on_backend 0 (\<lambda>b. b\<lparr>breaker := cb\<rparr>) f))"

definition clocks :: "instant \<Rightarrow> instant \<Rightarrow> nat \<Rightarrow> instant" where
  "clocks now ahead k = (if k = 2 then ahead else now)"

definition probe_disconnect_hands_the_probe_back :: "instant \<Rightarrow> bool" where
  "probe_disconnect_hands_the_probe_back now =
     (let ahead = now + from_secs 2;
          (_, f1) = on_breaker (\<lambda>cb. ((), record_failure now Normal cb)) (probe_fixture now);
          (adm, f2) = on_breaker (try_begin ahead) f1
      in adm = Some Probe \<and>
         (case start_with (the adm) now f2 of
            None \<Rightarrow> False
          | Some (acc, f3) \<Rightarrow>
              let f4 = drop_accounting (clocks now ahead) acc f3;
                  (adm', f5) = on_breaker (try_begin ahead) f4
              in adm' = Some Probe \<and> breaker_reads ahead f5 = HalfOpen))"

definition probe_resolves_on_2xx_headers_before_the_body_ends :: "instant \<Rightarrow> bool" where
  "probe_resolves_on_2xx_headers_before_the_body_ends now =
     (let ahead = now + from_secs 2;
          (_, f1) = on_breaker (\<lambda>cb. ((), record_failure now Normal cb)) (probe_fixture now);
          (st, f2) = on_breaker (breaker_state now) f1;
          (adm, f3) = on_breaker (try_begin ahead) f2
      in st = Open \<and> adm = Some Probe \<and>
         (case start_with (the adm) now f3 of
            None \<Rightarrow> False
          | Some (acc, f4) \<Rightarrow>
              let (routable1, f5) = on_breaker (breaker_is_routable ahead) f4;
                  (acc', f6) = resolve_probe_on_headers ahead 200 acc f5;
                  (st1, f7) = on_breaker (breaker_state ahead) f6;
                  (routable2, f8) = on_breaker (breaker_is_routable ahead) f7;
                  f9 = finish (clocks now ahead) ClientDisconnect acc' f8;
                  (st2, f10) = on_breaker (breaker_state ahead) f9;
                  (routable3, f11) = on_breaker (breaker_is_routable ahead) f10
              in \<not> routable1 \<and> st1 = Closed \<and> routable2 \<and> st2 = Closed \<and> routable3))"

definition probe_with_5xx_headers_waits_for_the_final_verdict :: "instant \<Rightarrow> bool" where
  "probe_with_5xx_headers_waits_for_the_final_verdict now =
     (let ahead = now + from_secs 2;
          (_, f1) = on_breaker (\<lambda>cb. ((), record_failure now Normal cb)) (probe_fixture now);
          (adm, f2) = on_breaker (try_begin ahead) f1
      in adm \<noteq> None \<and>
         (case start_with (the adm) now f2 of
            None \<Rightarrow> False
          | Some (acc, f3) \<Rightarrow>
              let (acc', f4) = resolve_probe_on_headers ahead 502 acc f3;
                  (st1, f5) = on_breaker (breaker_state ahead) f4;
                  f6 = finish (clocks now ahead) (Completed 502) acc' f5
              in st1 = HalfOpen \<and> breaker_reads ahead f6 = Open))"

section \<open>The verdict of a failed forward\<close>

text \<open>The helper \<open>accounting\<close> of server.rs.\<close>

definition accounting_fixture :: "instant \<Rightarrow> (request_accounting \<times> router_state) option" where
  "accounting_fixture now = test_start now (fixture_of (default_breaker now)\<lparr>controller := new_controller 1\<rparr>)"

definition connect_failure_is_a_transport_error :: "instant \<Rightarrow> bool" where
  "connect_failure_is_a_transport_error now =
     (case accounting_fixture now of
        None \<Rightarrow> False
      | Some (acc, f) \<Rightarrow>
          (case finish_forward_error (\<lambda>_. now) Connect acc f of (st, f') \<Rightarrow> st = 502 \<and> counted ''transport_error'' f'))"

definition body_failure_after_headers_is_a_stream_error :: "instant \<Rightarrow> bool" where
  "body_failure_after_headers_is_a_stream_error now =
     (case accounting_fixture now of
        None \<Rightarrow> False
      | Some (acc, f) \<Rightarrow>
          (case finish_forward_error (\<lambda>_. now) (Body (now - 1000000)) acc f of (st, f') \<Rightarrow>
             st = 502 \<and> counted ''stream_error'' f' \<and> \<not> counted ''transport_error'' f'))"

section \<open>The tests pass\<close>

lemma drop_results:
  assumes "num_backends f = 1" "acc_backend acc = 0"
  shows "connections (drop_accounting ts acc f) = connections f - 1"
    "slots_held (drop_accounting ts acc f) = in_flight (drop_permit (controller f))"
    "counted st (drop_accounting ts acc f) \<longleftrightarrow> counted st f \<or> status_label (acc_outcome acc) = st"
    "ewma (drop_accounting ts acc f) =
      (case acc_outcome acc of
         Completed st \<Rightarrow>
           if is_success st
           then next_latency (of_nat (as_micros (the_default (ts 1) (headers_at acc) - acc_started acc)))
             (acc_ewma_alpha acc) (ewma f)
           else ewma f
       | _ \<Rightarrow> ewma f)"
    "breaker (backend_at (drop_accounting ts acc f) 0) = judge_breaker (ts 2) acc (breaker (backend_at f 0))"
    "num_backends (drop_accounting ts acc f) = 1"
proof -
  have "acc_backend acc < num_backends f" using assms by simp
  note eff = drop_accounting_backends [OF this] drop_accounting_log [OF this]
  show "connections (drop_accounting ts acc f) = connections f - 1"
    "slots_held (drop_accounting ts acc f) = in_flight (drop_permit (controller f))"
    "counted st (drop_accounting ts acc f) \<longleftrightarrow> counted st f \<or> status_label (acc_outcome acc) = st"
    "ewma (drop_accounting ts acc f) =
      (case acc_outcome acc of
         Completed st \<Rightarrow>
           if is_success st
           then next_latency (of_nat (as_micros (the_default (ts 1) (headers_at acc) - acc_started acc)))
             (acc_ewma_alpha acc) (ewma f)
           else ewma f
       | _ \<Rightarrow> ewma f)"
    "breaker (backend_at (drop_accounting ts acc f) 0) = judge_breaker (ts 2) acc (breaker (backend_at f 0))"
    "num_backends (drop_accounting ts acc f) = 1"
    using eff assms
    by (simp_all add: connections_def slots_held_def counted_def ewma_def frame_simps record_request_end_def
        apply_verdict_breaker judge_breaker_def apply_verdict_ewma update_ewma_latency_def split: outcome.split)
qed

text \<open>The breaker of the fixtures, on the abstract breaker.\<close>

lemma brittle_verdicts:
  assumes "od \<noteq> 0"
  shows "fst (breaker_state now (record_failure now Normal (new_breaker (Fin (1 / 2)) 1 60 od now))) = Open"
    "fst (breaker_state now (record_success now Normal (new_breaker (Fin (1 / 2)) 1 60 od now))) = Closed"
proof -
  have "passes [Call (Record_failure Normal), Expect Read_state (State Open)] now (new_breaker (Fin (1 / 2)) 1 60 od now)"
    using assms by (simp add: to_spec, simp add: spec_eval unat_eq_0)
  then show "fst (breaker_state now (record_failure now Normal (new_breaker (Fin (1 / 2)) 1 60 od now))) = Open"
    by (simp add: passes.simps split_def)
  have "passes [Call (Record_success Normal), Expect Read_state (State Closed)] now (new_breaker (Fin (1 / 2)) 1 60 od now)"
    by (simp add: to_spec, simp add: spec_eval)
  then show "fst (breaker_state now (record_success now Normal (new_breaker (Fin (1 / 2)) 1 60 od now))) = Closed"
    by (simp add: passes.simps split_def)
qed

text \<open>Where a test begins.\<close>

definition guard0 :: "admission \<Rightarrow> instant \<Rightarrow> request_accounting" where
  "guard0 adm now =
     \<lparr>acc_backend = 0, acc_strategy_name = ''test'', acc_ewma_alpha = to_f64 (3 / 10), acc_started = now,
      headers_at = None, acc_outcome = ClientDisconnect, acc_admission = adm\<rparr>"

definition busy :: "circuit_breaker \<Rightarrow> router_state" where
  "busy cb = snd (start_accounting 0 ''test'' (to_f64 (3 / 10)) Normal 0
     ((fixture_of cb)\<lparr>controller := snd (try_acquire (new_controller 4))\<rparr>))"

lemma started: "test_start now (fixture_of cb) = Some (guard0 Normal now, busy cb)"
  by (simp add: test_start_def start_with_def fixture_of_def guard0_def busy_def start_accounting_def
      controller_eval)

lemma busy_reads:
  "num_backends (busy cb) = 1" "connections (busy cb) = 1" "slots_held (busy cb) = 1"
  "in_flight (drop_permit (controller (busy cb))) = 0"
  "breaker (backend_at (busy cb) 0) = cb" "ewma (busy cb) = 0" "counted st (busy cb) = False"
  by (simp_all add: busy_def start_accounting_def fixture_of_def new_pool_def new_backend_def on_backend_def
      record_request_start_def controller_eval connections_def slots_held_def ewma_def counted_def)

lemma guard0_fields [simp]:
  "acc_backend (guard0 adm now) = 0" "acc_outcome (guard0 adm now) = ClientDisconnect"
  "acc_admission (guard0 adm now) = adm" "headers_at (guard0 adm now) = None" "acc_started (guard0 adm now) = now"
  by (simp_all add: guard0_def)

lemma digit_chars: "char_of (48 :: nat) = CHR ''0''" "char_of (50 :: nat) = CHR ''2''" "char_of (52 :: nat) = CHR ''4''" "char_of (53 :: nat) = CHR ''5''"
  by (simp_all add: char_of_def bit_iff_odd)

lemmas guard_eval = fixture_def started busy_reads drop_results finish_def breaker_reads_def brittle_verdicts
  judge_breaker_def is_server_error_def is_success_def show_nat.simps abandon_def fresh_breaker first_latency
  as_micros_def the_default_def digit_chars

lemma completed_2xx_records_success_latency_and_releases_permit_passes:
  "5000000 \<le> now \<Longrightarrow> completed_2xx_records_success_latency_and_releases_permit now"
  by (simp add: completed_2xx_records_success_latency_and_releases_permit_def guard_eval)

lemma completed_5xx_is_a_backend_failure_passes: "completed_5xx_is_a_backend_failure now"
  by (simp add: completed_5xx_is_a_backend_failure_def guard_eval)

lemma completed_4xx_is_not_a_backend_failure_passes: "completed_4xx_is_not_a_backend_failure now"
  by (simp add: completed_4xx_is_not_a_backend_failure_def guard_eval)

lemma transport_error_is_a_backend_failure_with_its_own_label_passes:
  "transport_error_is_a_backend_failure_with_its_own_label now"
  by (simp add: transport_error_is_a_backend_failure_with_its_own_label_def guard_eval)

lemma dropped_without_verdict_is_a_client_disconnect_passes: "dropped_without_verdict_is_a_client_disconnect now"
  by (simp add: dropped_without_verdict_is_a_client_disconnect_def guard_eval)

lemma ewma_uses_time_to_first_byte_passes: "50000000 \<le> now \<Longrightarrow> ewma_uses_time_to_first_byte now"
  by (simp add: ewma_uses_time_to_first_byte_def guard_eval mark_headers_received_at_def word_le_nat_alt)

lemma chunks_done: "contains_done (sse_line ''[DONE]'')" "\<not> contains_done (sse_line ''a'')"
  by (simp_all add: contains_done_iff SSE_DONE_def sse_line_def sublist_Cons_right)

lemmas stream_eval = guard_eval stream_next_def poll_next_def new_accounted_stream_def drop_stream_def chunks_done

lemma stream_finishes_accounting_at_end_of_body_passes: "stream_finishes_accounting_at_end_of_body now"
  by (simp add: stream_finishes_accounting_at_end_of_body_def stream_eval)

lemma stream_error_records_failure_and_releases_permit_passes: "stream_error_records_failure_and_releases_permit err now"
  by (simp add: stream_error_records_failure_and_releases_permit_def stream_eval)

lemma dropping_stream_midway_is_a_client_disconnect_passes: "dropping_stream_midway_is_a_client_disconnect now"
  by (simp add: dropping_stream_midway_is_a_client_disconnect_def stream_eval contains_done_iff SSE_DONE_def
      sublist_Cons_right)

lemma close_right_after_done_counts_as_completed_passes: "close_right_after_done_counts_as_completed now"
  by (simp add: close_right_after_done_counts_as_completed_def stream_eval)

text \<open>The breaker's part of a probe test is a script of calls.\<close>

lemma on_breaker_results:
  assumes "num_backends f = 1"
  shows "fst (on_breaker call f) = fst (call (breaker (backend_at f 0)))"
    "breaker (backend_at (snd (on_breaker call f)) 0) = snd (call (breaker (backend_at f 0)))"
    "controller (snd (on_breaker call f)) = controller f" "num_backends (snd (on_breaker call f)) = 1"
  using assms by (simp_all add: on_breaker_def split_def frame_simps)

lemma start_with_results:
  assumes "num_backends f = 1" "controller f = new_controller 4"
  shows "\<exists>f'. start_with adm now f = Some (guard0 adm now, f') \<and> num_backends f' = 1 \<and>
    breaker (backend_at f' 0) = breaker (backend_at f 0)"
  using assms
  by (simp add: start_with_def start_accounting_def controller_eval guard0_def frame_simps record_request_start_def
      on_backend_def)

lemma probe_fixture_reads:
  "num_backends (probe_fixture now) = 1" "controller (probe_fixture now) = new_controller 4"
  "breaker (backend_at (probe_fixture now) 0) = new_breaker (Fin (1 / 2)) 1 60 1 now"
  by (simp_all add: probe_fixture_def fixture_of_def new_pool_def new_backend_def)

lemma probe_disconnect_hands_the_probe_back_passes: "probe_disconnect_hands_the_probe_back now"
proof -
  let ?cb = "new_breaker (Fin (1 / 2)) 1 60 1 now"
  have script: "passes [Call (Record_failure Normal), Advance (from_secs 2), Expect Try_begin (Granted (Some Probe)),
      Call (Abandon Probe), Expect Try_begin (Granted (Some Probe)), Expect Read_state (State HalfOpen)] now ?cb"
    by (simp add: to_spec, simp add: spec_eval)
  define f2 where "f2 = snd (on_breaker (try_begin (now + from_secs 2))
    (snd (on_breaker (\<lambda>cb. ((), record_failure now Normal cb)) (probe_fixture now))))"
  have f2: "num_backends f2 = 1" "controller f2 = new_controller 4"
    "breaker (backend_at f2 0) = snd (try_begin (now + from_secs 2) (record_failure now Normal ?cb))"
    by (simp_all add: f2_def on_breaker_results probe_fixture_reads)
  obtain f3 where f3: "start_with Probe now f2 = Some (guard0 Probe now, f3)" "num_backends f3 = 1"
    "breaker (backend_at f3 0) = breaker (backend_at f2 0)"
    using start_with_results [OF f2(1,2)] by blast
  show ?thesis using script f3(1)
    by (simp add: probe_disconnect_hands_the_probe_back_def passes.simps split_def Let_def on_breaker_results
        probe_fixture_reads drop_results f3 f2 f2_def [symmetric] judge_breaker_def clocks_def breaker_reads_def)
qed

lemma abandon_normal: "abandon Normal cb = cb"
  by (simp add: abandon_def)

lemma probe_resolves_on_2xx_headers_before_the_body_ends_passes: "probe_resolves_on_2xx_headers_before_the_body_ends now"
proof -
  let ?cb = "new_breaker (Fin (1 / 2)) 1 60 1 now" and ?ahead = "now + from_secs 2"
  have script: "passes [Call (Record_failure Normal), Expect Read_state (State Open), Advance (from_secs 2),
      Expect Try_begin (Granted (Some Probe)), Expect Is_routable (Flag False), Call (Record_success Probe),
      Expect Read_state (State Closed), Expect Is_routable (Flag True), Expect Read_state (State Closed),
      Expect Is_routable (Flag True)] now ?cb"
    by (simp add: to_spec, simp add: spec_eval)
  define f2 where "f2 = snd (on_breaker (breaker_state now)
    (snd (on_breaker (\<lambda>cb. ((), record_failure now Normal cb)) (probe_fixture now))))"
  define f3 where "f3 = snd (on_breaker (try_begin ?ahead) f2)"
  have f2: "num_backends f2 = 1" "breaker (backend_at f2 0) = snd (breaker_state now (record_failure now Normal ?cb))"
    by (simp_all add: f2_def on_breaker_results probe_fixture_reads)
  have f3: "num_backends f3 = 1" "controller f3 = new_controller 4"
    "breaker (backend_at f3 0) = snd (try_begin ?ahead (breaker (backend_at f2 0)))"
    by (simp_all add: f3_def f2_def on_breaker_results probe_fixture_reads)
  obtain f4 where f4: "start_with Probe now f3 = Some (guard0 Probe now, f4)" "num_backends f4 = 1"
    "breaker (backend_at f4 0) = breaker (backend_at f3 0)"
    using start_with_results [OF f3(1,2)] by blast
  have resolve: "resolve_probe_on_headers ?ahead 200 (guard0 Probe now) f =
      ((guard0 Probe now)\<lparr>acc_admission := Normal\<rparr>,
       on_backend 0 (\<lambda>b. b\<lparr>breaker := record_success ?ahead Probe (breaker b)\<rparr>) f)" for f
    by (simp add: resolve_probe_on_headers_def is_success_def)
  show ?thesis using script f4(1)
    by (simp add: probe_resolves_on_2xx_headers_before_the_body_ends_def passes.simps split_def Let_def
        on_breaker_results probe_fixture_reads drop_results finish_def f4 f3 f2 f2_def [symmetric] f3_def [symmetric]
        resolve judge_breaker_def abandon_normal frame_simps)
qed

lemma probe_with_5xx_headers_waits_for_the_final_verdict_passes: "probe_with_5xx_headers_waits_for_the_final_verdict now"
proof -
  let ?cb = "new_breaker (Fin (1 / 2)) 1 60 1 now" and ?ahead = "now + from_secs 2"
  have script: "passes [Call (Record_failure Normal), Advance (from_secs 2), Expect Try_begin (Granted (Some Probe)),
      Expect Read_state (State HalfOpen), Call (Record_failure Probe), Expect Read_state (State Open)] now ?cb"
    by (simp add: to_spec, simp add: spec_eval)
  define f2 where "f2 = snd (on_breaker (try_begin ?ahead)
    (snd (on_breaker (\<lambda>cb. ((), record_failure now Normal cb)) (probe_fixture now))))"
  have f2: "num_backends f2 = 1" "controller f2 = new_controller 4"
    "breaker (backend_at f2 0) = snd (try_begin ?ahead (record_failure now Normal ?cb))"
    by (simp_all add: f2_def on_breaker_results probe_fixture_reads)
  obtain f3 where f3: "start_with Probe now f2 = Some (guard0 Probe now, f3)" "num_backends f3 = 1"
    "breaker (backend_at f3 0) = breaker (backend_at f2 0)"
    using start_with_results [OF f2(1,2)] by blast
  have resolve: "resolve_probe_on_headers ?ahead 502 (guard0 Probe now) f = (guard0 Probe now, f)" for f
    by (simp add: resolve_probe_on_headers_def is_success_def)
  show ?thesis using script f3(1)
    by (simp add: probe_with_5xx_headers_waits_for_the_final_verdict_def passes.simps split_def Let_def
        on_breaker_results probe_fixture_reads drop_results finish_def f3 f2 f2_def [symmetric]
        resolve judge_breaker_def is_server_error_def clocks_def breaker_reads_def)
qed

text \<open>server.rs\<close>

lemma one_slot_started:
  "\<exists>f. accounting_fixture now = Some (guard0 Normal now, f) \<and> num_backends f = 1 \<and> \<not> counted st f"
  by (simp add: accounting_fixture_def test_start_def start_with_def start_accounting_def fixture_of_def new_pool_def
      controller_eval guard0_def counted_def on_backend_def)

lemma connect_failure_is_a_transport_error_passes: "connect_failure_is_a_transport_error now"
proof -
  obtain f where "accounting_fixture now = Some (guard0 Normal now, f)" "num_backends f = 1"
    using one_slot_started by blast
  then show ?thesis
    by (simp add: connect_failure_is_a_transport_error_def finish_forward_error_def forward_error_status_def finish_def
        drop_results)
qed

lemma body_failure_after_headers_is_a_stream_error_passes: "body_failure_after_headers_is_a_stream_error now"
proof -
  obtain f where "accounting_fixture now = Some (guard0 Normal now, f)" "num_backends f = 1"
    "\<not> counted ''transport_error'' f"
    using one_slot_started by blast
  then show ?thesis
    by (simp add: body_failure_after_headers_is_a_stream_error_def finish_forward_error_def forward_error_status_def
        finish_def drop_results mark_headers_received_at_def)
qed

end
