(* ===== verification/Latency_Shares.thy ===== *)
theory Latency_Shares
  imports Latency_Aware
begin

text \<open>
  How much of the traffic latency-aware routing gives to each backend. Every step of
  \<open>LatencyAware::select\<close> rounds: the weights, their sum, the scaled draw and each subtraction. The
  theory bounds what the roundings add up to, and so shows that the draws that select a backend
  are, but for a margin of a few units in the 50th binary place at both ends, those in its exact
  share of the unit interval.
\<close>

section \<open>Exact shares\<close>

fun f64_value :: "f64 \<Rightarrow> rat" where
  "f64_value (Fin q) = q"
| "f64_value _ = 0"

definition exact_weights :: "backend list \<Rightarrow> rat list" where
  "exact_weights bs =
     map (\<lambda>(b, l). of_nat (shares b) / f64_value l) (zip bs (effective_latencies (map ewma_latency_us bs)))"

definition share_before :: "backend list \<Rightarrow> nat \<Rightarrow> rat" where
  "share_before bs k = sum_list (take k (exact_weights bs)) / sum_list (exact_weights bs)"

text \<open>What the roundings can shift the ends of a share by, for \<open>n\<close> backends.\<close>

definition rounding_margin :: "nat \<Rightarrow> rat" where
  "rounding_margin n = of_nat (4 * n + 1) / 2 ^ 51"

section \<open>One rounding\<close>

definition unit_error :: "rat \<Rightarrow> rat" where
  "unit_error M = M / 2 ^ 52"

lemma rnd_within:
  assumes "\<bar>y\<bar> \<le> M" "1 / 2 ^ 100 \<le> M"
  shows "\<bar>rnd y - y\<bar> \<le> unit_error M"
proof -
  have small: "half_subnormal \<le> 1 / 2 ^ 160"
  proof -
    have "half_subnormal \<le> 2 powi (- 160)" unfolding half_subnormal_def by (simp add: powi_le_iff)
    then show ?thesis by (simp add: power_int_minus inverse_eq_divide)
  qed
  have abs: "\<bar>rnd y - y\<bar> = \<bar>rnd \<bar>y\<bar> - \<bar>y\<bar>\<bar>" using rnd_minus [of y] by (auto simp: abs_if)
  have "\<bar>rnd \<bar>y\<bar> - \<bar>y\<bar>\<bar> \<le> \<bar>y\<bar> / 2 ^ 53 + half_subnormal" by (rule rnd_error) simp
  also have "\<dots> \<le> M / 2 ^ 53 + 1 / 2 ^ 160" using assms(1) small by (intro add_mono divide_right_mono) simp_all
  also have "\<dots> \<le> M / 2 ^ 52" using assms(2) by simp
  finally show ?thesis by (simp add: abs unit_error_def)
qed

lemma sub_f64_Fin: "\<bar>p - w\<bar> \<le> 2 ^ 100 \<Longrightarrow> sub_f64 (Fin p) (Fin w) = Fin (rnd (p - w))"
  and add_f64_Fin: "\<bar>p + w\<bar> \<le> 2 ^ 100 \<Longrightarrow> add_f64 (Fin p) (Fin w) = Fin (rnd (p + w))"
  and mul_f64_Fin: "\<bar>p * w\<bar> \<le> 2 ^ 100 \<Longrightarrow> mul_f64 (Fin p) (Fin w) = Fin (rnd (p * w))"
proof -
  have "(2 :: rat) ^ 100 \<le> safe_bound" unfolding safe_bound_def by (rule power_increasing) simp_all
  then have "\<bar>x\<bar> \<le> 2 ^ 100 \<Longrightarrow> to_f64 x = Fin (rnd x)" for x
    by (intro to_f64_small) linarith
  then show "\<bar>p - w\<bar> \<le> 2 ^ 100 \<Longrightarrow> sub_f64 (Fin p) (Fin w) = Fin (rnd (p - w))"
    "\<bar>p + w\<bar> \<le> 2 ^ 100 \<Longrightarrow> add_f64 (Fin p) (Fin w) = Fin (rnd (p + w))"
    "\<bar>p * w\<bar> \<le> 2 ^ 100 \<Longrightarrow> mul_f64 (Fin p) (Fin w) = Fin (rnd (p * w))"
    by (simp_all add: sub_f64_def)
qed

section \<open>Errors add up\<close>

abbreviation rounded :: "rat list \<Rightarrow> f64 list" where
  "rounded Ws \<equiv> map (\<lambda>W. Fin (rnd W)) Ws"

text \<open>\<open>tot\<close> is the exact sum of all weights, and twice that bounds every number that occurs.\<close>

lemma sum_error:
  assumes "\<forall>W \<in> set Ws. 0 \<le> W" "0 \<le> c" "c + sum_list Ws \<le> tot" "\<bar>s - c\<bar> \<le> e" "0 \<le> s"
    and "e + 2 * of_nat (length Ws) * unit_error (2 * tot) \<le> tot / 2" "1 / 2 ^ 100 \<le> tot" "tot \<le> 2 ^ 64"
  shows "\<exists>t. foldl add_f64 (Fin s) (rounded Ws) = Fin t \<and> 0 \<le> t \<and>
    \<bar>t - (c + sum_list Ws)\<bar> \<le> e + 2 * of_nat (length Ws) * unit_error (2 * tot)"
  using assms(1-6)
proof (induction Ws arbitrary: s c e)
  case Nil
  then show ?case by simp
next
  case (Cons W Ws)
  let ?u = "unit_error (2 * tot)"
  have W: "0 \<le> W" and rest: "\<forall>V \<in> set Ws. 0 \<le> V" and pos: "0 \<le> sum_list Ws"
    using Cons.prems(1) by (auto intro: sum_list_nonneg)
  have le: "W \<le> tot" "c + W \<le> tot" using Cons.prems(2,3) W pos by simp_all
  have u: "0 \<le> ?u" "?u \<le> tot / 4" using assms(7) by (simp_all add: unit_error_def)
  have w: "\<bar>rnd W - W\<bar> \<le> ?u" "0 \<le> rnd W"
    using rnd_within [of W "2 * tot"] W le assms(7) rnd_nonneg by simp_all
  have "0 \<le> of_nat (length Ws) * ?u" using u(1) by simp
  moreover have "2 * of_nat (length (W # Ws)) * ?u = 2 * ?u + 2 * (of_nat (length Ws) * ?u)" by (simp add: algebra_simps)
  ultimately have e: "e \<le> tot / 2" "0 \<le> e" using Cons.prems(4,6) u by linarith+
  have sw: "0 \<le> s + rnd W" "s + rnd W \<le> 2 * tot" using Cons.prems(4,5) w e le u by linarith+
  then have "\<bar>rnd (s + rnd W) - (s + rnd W)\<bar> \<le> ?u" using assms(7) by (intro rnd_within) linarith+
  then have "\<bar>rnd (s + rnd W) - (c + W)\<bar> \<le> e + 2 * ?u" using w(1) Cons.prems(4) by linarith
  moreover have "e + 2 * ?u + 2 * of_nat (length Ws) * ?u \<le> tot / 2"
    using Cons.prems(6) by (simp add: algebra_simps)
  ultimately obtain t where "foldl add_f64 (Fin (rnd (s + rnd W))) (rounded Ws) = Fin t" "0 \<le> t"
    "\<bar>t - (c + W + sum_list Ws)\<bar> \<le> e + 2 * ?u + 2 * of_nat (length Ws) * ?u"
    using Cons.IH [of "c + W" "rnd (s + rnd W)" "e + 2 * ?u"] rest Cons.prems(2,3) W sw rnd_nonneg
    by (auto simp: add.assoc)
  moreover have "add_f64 (Fin s) (Fin (rnd W)) = Fin (rnd (s + rnd W))"
    using sw assms(8) by (intro add_f64_Fin) simp
  ultimately show ?case by (intro exI [of _ t]) (simp add: algebra_simps)
qed

text \<open>
  The position at which the subtractions stop, against the exact sums of the weights around it.
  \<open>y\<close> is the exact value of what is left of the pick.
\<close>

lemma pick_located:
  assumes "\<forall>W \<in> set Ws. 0 \<le> W" "length bs = length Ws" "Ws \<noteq> []" "sum_list Ws \<le> tot" "y \<le> tot"
    and "\<bar>p - y\<bar> \<le> e" "0 \<le> p" "e + 2 * of_nat (length Ws) * unit_error (2 * tot) \<le> d" "d \<le> tot / 2"
    and "y \<le> sum_list Ws + d" "1 / 2 ^ 100 \<le> tot" "tot \<le> 2 ^ 64"
  shows "\<exists>k < length Ws. position_id (Fin p) (zip bs (rounded Ws)) (backend_id (last bs)) = backend_id (bs ! k) \<and>
    sum_list (take k Ws) - d \<le> y \<and> y \<le> sum_list (take (Suc k) Ws) + d"
  using assms(1-10)
proof (induction Ws arbitrary: bs p y e)
  case (Cons W Ws)
  let ?u = "unit_error (2 * tot)"
  obtain b bs' where bs: "bs = b # bs'" "length bs' = length Ws" using Cons.prems(2) by (cases bs) auto
  have W: "0 \<le> W" and rest: "\<forall>V \<in> set Ws. 0 \<le> V" and pos: "0 \<le> sum_list Ws"
    using Cons.prems(1) by (auto intro: sum_list_nonneg)
  have le: "W \<le> tot" "sum_list Ws \<le> tot" using Cons.prems(4) W pos by simp_all
  have u: "0 \<le> ?u" "?u \<le> tot / 4" using assms(11) by (simp_all add: unit_error_def)
  have w: "\<bar>rnd W - W\<bar> \<le> ?u" "0 \<le> rnd W"
    using rnd_within [of W "2 * tot"] W le assms(11) rnd_nonneg by simp_all
  have "0 \<le> of_nat (length Ws) * ?u" using u(1) by simp
  moreover have "2 * of_nat (length (W # Ws)) * ?u = 2 * ?u + 2 * (of_nat (length Ws) * ?u)" by (simp add: algebra_simps)
  ultimately have e: "e + 2 * ?u \<le> d" "0 \<le> e" using Cons.prems(6,8) u by linarith+
  have low: "- d \<le> y" using Cons.prems(6,7) e u by linarith
  have pw: "\<bar>p - rnd W\<bar> \<le> 2 * tot" using Cons.prems(5-9) w e le u W by linarith
  have "\<bar>rnd (p - rnd W) - (p - rnd W)\<bar> \<le> ?u" using pw assms(11) by (intro rnd_within) linarith+
  then have near: "\<bar>rnd (p - rnd W) - (y - W)\<bar> \<le> e + 2 * ?u" using w(1) Cons.prems(6) by linarith
  have sub: "sub_f64 (Fin p) (Fin (rnd W)) = Fin (rnd (p - rnd W))"
    using pw assms(12) by (intro sub_f64_Fin) simp
  show ?case
  proof (cases "rnd (p - rnd W) \<le> 0 \<or> Ws = []")
    case True
    then have "y \<le> W + d" using near e Cons.prems(10) by auto
    moreover have "position_id (Fin p) (zip bs (rounded (W # Ws))) (backend_id (last bs)) = backend_id b"
      using True bs by (auto simp: position_id_def sub)
    ultimately show ?thesis using low by (intro exI [of _ 0]) (simp add: bs)
  next
    case False
    then have "\<exists>k < length Ws. position_id (Fin (rnd (p - rnd W))) (zip bs' (rounded Ws)) (backend_id (last bs')) =
        backend_id (bs' ! k) \<and> sum_list (take k Ws) - d \<le> y - W \<and> y - W \<le> sum_list (take (Suc k) Ws) + d"
      using Cons.prems bs(2) rest near le W
      by (intro Cons.IH [of bs' "y - W" "rnd (p - rnd W)" "e + 2 * ?u"]) (simp_all add: algebra_simps)
    then obtain k where "k < length Ws" "position_id (Fin (rnd (p - rnd W))) (zip bs' (rounded Ws)) (backend_id (last bs')) =
        backend_id (bs' ! k)" "sum_list (take k Ws) - d \<le> y - W" "y - W \<le> sum_list (take (Suc k) Ws) + d" by blast
    then show ?thesis using False bs by (intro exI [of _ "Suc k"]) (auto simp: position_id_def sub)
  qed
qed simp

section \<open>The weights of the code\<close>

lemma effective_values:
  assumes "l \<in> set (effective_latencies raw)"
  shows "\<exists>q. l = Fin q \<and> 1 \<le> q \<and> q \<le> 2 ^ 64"
proof -
  have sampled: "\<exists>q. f64_of_u64 x = Fin q \<and> q \<le> 2 ^ 64" for x
  proof -
    have "(of_nat (unat x) :: rat) \<le> 2 ^ 64"
      using unat_lt_2p64 [of x] by (intro of_nat_le_pow) (simp del: unat_lt_2p64)
    then show ?thesis using f64_of_u64_rnd [of x] b64.upper [OF representable_pow] by blast
  qed
  have "\<exists>q. median_latency (sampled_latencies raw) = Fin q \<and> q \<le> 2 ^ 64"
  proof (cases "sampled_latencies raw = []")
    case False
    then show ?thesis using median_mem [OF False] sampled by auto
  qed (simp add: median_latency_def)
  then have "\<exists>q. l = Fin q \<and> q \<le> 2 ^ 64" using assms sampled by (auto simp: effective_latencies_def split: if_splits)
  with effective_ge_1 [OF assms] show ?thesis by auto
qed

lemma share_weights_rounded:
  "share_weights bs = rounded (exact_weights bs)"
  "W \<in> set (exact_weights bs) \<Longrightarrow> 1 / 2 ^ 64 \<le> W \<and> W \<le> 2 ^ 32"
proof -
  have one: "div_f64 (f64_of_nat (unat (max (weight b) 1))) l = Fin (rnd (of_nat (shares b) / f64_value l)) \<and>
      1 / 2 ^ 64 \<le> of_nat (shares b) / f64_value l \<and> of_nat (shares b) / f64_value l \<le> 2 ^ 32"
    if mem: "(b, l) \<in> set (zip bs (effective_latencies (map ewma_latency_us bs)))" for b l
  proof -
    obtain q where q: "l = Fin q" "1 \<le> q" "q \<le> 2 ^ 64" using effective_values [OF set_zip_rightD [OF mem]] by blast
    have s: "unat (max (weight b) 1) = shares b" by (simp add: shares_def max_def word_le_nat_alt)
    have "1 \<le> shares b" "shares b \<le> 2 ^ 32" using shares_bounds [of b] by simp_all
    then have r: "1 \<le> (of_nat (shares b) :: rat)" "of_nat (shares b) \<le> (2 ^ 32 :: rat)"
      using of_nat_le_pow of_nat_mono [of 1 "shares b"] by simp_all
    have "1 / 2 ^ 64 \<le> of_nat (shares b) / q" using r(1) q by (intro frac_le) simp_all
    moreover have "of_nat (shares b) / q \<le> 2 ^ 32 / 1" using r q by (intro frac_le) simp_all
    moreover have "f64_of_nat (shares b) = Fin (of_nat (shares b))"
      using \<open>shares b \<le> 2 ^ 32\<close> by (intro f64_of_nat_exact) simp
    moreover have "to_f64 (of_nat (shares b) / q) = Fin (rnd (of_nat (shares b) / q))"
    proof -
      have "(2 :: rat) ^ 32 \<le> safe_bound" unfolding safe_bound_def by (rule power_increasing) simp_all
      moreover have "0 \<le> of_nat (shares b) / q" using q by simp
      ultimately show ?thesis using \<open>of_nat (shares b) / q \<le> 2 ^ 32 / 1\<close> by (intro to_f64_small) linarith
    qed
    ultimately show ?thesis using q by (simp add: s)
  qed
  show "share_weights bs = rounded (exact_weights bs)"
    unfolding exact_weights_def map_map comp_def using one by (intro map_cong refl) auto
  show "1 / 2 ^ 64 \<le> W \<and> W \<le> 2 ^ 32" if "W \<in> set (exact_weights bs)"
    using that one by (auto simp: exact_weights_def)
qed

section \<open>When the draw decides\<close>

lemma fold_min_f64:
  assumes "\<forall>l \<in> set ls. \<exists>q. l = Fin q \<and> 1 \<le> q" "1 \<le> m"
  shows "\<exists>r. fold (\<lambda>x m. min_f64 m x) ls (Fin m) = Fin r \<and> 1 \<le> r \<and> r \<le> m \<and> (\<forall>q. Fin q \<in> set ls \<longrightarrow> r \<le> q)"
  using assms
proof (induction ls arbitrary: m)
  case (Cons l ls)
  obtain q where q: "l = Fin q" "1 \<le> q" using Cons.prems(1) by auto
  then have "min_f64 (Fin m) l = Fin (min m q)" by (simp add: min_f64_def min_def)
  moreover have "1 \<le> min m q" using q(2) Cons.prems(2) by simp
  ultimately show ?case using Cons.IH [of "min m q"] Cons.prems(1) q by auto
qed simp

lemma fold_max_f64:
  assumes "\<forall>l \<in> set ls. \<exists>q. l = Fin q \<and> 1 \<le> q"
  shows "\<exists>r. fold (\<lambda>x m. max_f64 m x) ls (Fin m) = Fin r \<and> m \<le> r \<and> (\<forall>q. Fin q \<in> set ls \<longrightarrow> q \<le> r)"
  using assms
proof (induction ls arbitrary: m)
  case (Cons l ls)
  obtain q where q: "l = Fin q" using Cons.prems by auto
  then have "max_f64 (Fin m) l = Fin (max m q)" by (simp add: max_f64_def max_def)
  then show ?case using Cons.IH [of "max m q"] Cons.prems q by auto
qed simp

lemma f64_limits: "\<exists>M. f64_MAX = Fin M \<and> f64_MIN = Fin (- M) \<and> 1 \<le> M"
proof -
  have "1 * 1 \<le> (2 ^ 53 - 1) * (2 ^ 971 :: rat)" by (intro mult_mono one_le_power) simp_all
  then have "1 \<le> (2 ^ 53 - 1) * (2 ^ 971 :: rat)" unfolding mult_1 .
  then show ?thesis unfolding f64_MAX_def f64_MIN_def neg_f64.simps by blast
qed

lemma sampled_effective:
  assumes "b \<in> set bs" "0 < unat (ewma_latency_us b)"
  shows "Fin (rnd (of_nat (unat (ewma_latency_us b)))) \<in> set (effective_latencies (map ewma_latency_us bs))"
proof -
  have "f64_of_u64 (ewma_latency_us b) \<in> set (effective_latencies (map ewma_latency_us bs))"
    unfolding effective_latencies_def map_map set_map using assms
    by (intro image_eqI [where x = b]) (simp_all add: word_less_nat_alt)
  then show ?thesis unfolding f64_of_u64_rnd .
qed

lemma gap_survives:
  fixes m :: rat
  assumes "rm - m \<le> m / 2 ^ 52" "Lb - lb \<le> lb / 2 ^ 52" "- (Lc - lc) \<le> lc / 2 ^ 52"
    and "m \<le> mn * (111 / 100)" "mn \<le> Lb" "Lc \<le> mx" "1 \<le> lb" "6 * lb \<le> 5 * lc"
  shows "rm < mx"
  using assms by simp

text \<open>A gap of a fifth between two sampled latencies is enough, in spite of the roundings.\<close>

lemma not_flat:
  assumes "b \<in> set bs" "c \<in> set bs" "ewma_latency_us b \<noteq> 0"
    and "6 * unat (ewma_latency_us b) \<le> 5 * unat (ewma_latency_us c)"
  defines "ls \<equiv> effective_latencies (map ewma_latency_us bs)"
  shows "\<not> le_f64 (fold (\<lambda>x m. max_f64 m x) ls f64_MIN) (mul_f64 (fold (\<lambda>x m. min_f64 m x) ls f64_MAX) FLAT_RATIO)"
proof -
  let ?lb = "of_nat (unat (ewma_latency_us b)) :: rat" and ?lc = "of_nat (unat (ewma_latency_us c)) :: rat" and ?r = "rnd (11 / 10)"
  have pos: "0 < unat (ewma_latency_us b)" using assms(3) by (simp add: unat_gt_0)
  then have "0 < unat (ewma_latency_us c)" using assms(4) by linarith
  with pos have mem: "Fin (rnd ?lb) \<in> set ls" "Fin (rnd ?lc) \<in> set ls"
    unfolding ls_def using assms(1,2) sampled_effective by blast+
  have "unat (ewma_latency_us b) \<le> 2 ^ 64" using unat_lt_2p64 [of "ewma_latency_us b"] by (simp del: unat_lt_2p64)
  then have le: "?lb \<le> 2 ^ 64" by (rule of_nat_le_pow)
  have num: "1 \<le> ?lb" "6 * ?lb \<le> 5 * ?lc"
    using pos of_nat_mono [of 1 "unat (ewma_latency_us b)"] of_nat_mono [OF assms(4), where ?'a = rat] by auto
  have ge1: "\<forall>l \<in> set ls. \<exists>q. l = Fin q \<and> 1 \<le> q" using effective_ge_1 by (auto simp: ls_def)
  obtain M where M: "f64_MAX = Fin M" "f64_MIN = Fin (- M)" "1 \<le> M" using f64_limits by blast
  obtain mn where mn: "fold (\<lambda>x m. min_f64 m x) ls f64_MAX = Fin mn" "1 \<le> mn" "mn \<le> rnd ?lb"
    using fold_min_f64 [OF ge1 M(3)] mem(1) M(1) by auto
  obtain mx where mx: "fold (\<lambda>x m. max_f64 m x) ls f64_MIN = Fin mx" "rnd ?lc \<le> mx"
    using fold_max_f64 [OF ge1, of "- M"] mem(2) M(2) by auto
  have near: "\<bar>rnd ?lb - ?lb\<bar> \<le> ?lb / 2 ^ 52" "\<bar>rnd ?lc - ?lc\<bar> \<le> ?lc / 2 ^ 52" "\<bar>?r - 11 / 10\<bar> \<le> (11 / 10) / 2 ^ 52"
    using num rnd_within [of ?lb ?lb] rnd_within [of ?lc ?lc] rnd_within [of "11 / 10" "11 / 10"]
    by (simp_all add: unit_error_def)
  have r: "FLAT_RATIO = Fin ?r" "1 \<le> ?r" using flat_ratio_value by blast+
  have "?r \<le> 111 / 100" using abs_le_D1 [OF near(3)] by simp
  then have m: "mn * ?r \<le> mn * (111 / 100)" using mn(2) by (intro mult_left_mono) simp_all
  have m1: "1 \<le> mn * ?r" using mn(2) r(2) mult_mono [of 1 mn 1 ?r] by simp
  then have "\<bar>rnd (mn * ?r) - mn * ?r\<bar> \<le> mn * ?r / 2 ^ 52"
    using rnd_within [of "mn * ?r" "mn * ?r"] by (simp add: unit_error_def)
  note bounds = abs_le_D1 [OF this] abs_le_D1 [OF near(1)] abs_le_D2 [OF near(2)]
  have "rnd (mn * ?r) < mx" by (rule gap_survives [OF bounds m mn(3) mx(2) num])
  moreover have "\<bar>mn * ?r\<bar> \<le> 2 ^ 100" using bounds(2) m m1 mn(3) le by simp
  then have "mul_f64 (Fin mn) (Fin ?r) = Fin (rnd (mn * ?r))" by (rule mul_f64_Fin)
  ultimately show ?thesis by (simp only: mn(1) mx(1) r(1) le_f64.simps not_le)
qed

section \<open>Properties\<close>

lemma sum_list_between:
  fixes Ws :: "rat list"
  assumes "\<forall>W \<in> set Ws. lo \<le> W \<and> W \<le> hi"
  shows "of_nat (length Ws) * lo \<le> sum_list Ws \<and> sum_list Ws \<le> of_nat (length Ws) * hi"
  using assms by (induction Ws) (auto simp: algebra_simps)

lemma share_total:
  assumes "length bs \<le> 2 ^ 32" "k < length bs"
  shows "1 / 2 ^ 100 \<le> sum_list (exact_weights bs) \<and> sum_list (exact_weights bs) \<le> 2 ^ 64"
proof -
  have len: "length (exact_weights bs) = length bs" by (simp add: exact_weights_def effective_latencies_def)
  have "of_nat 1 \<le> (of_nat (length bs) :: rat)" "of_nat (length bs) \<le> (2 ^ 32 :: rat)"
    using assms by (intro of_nat_mono of_nat_le_pow; simp)+
  moreover have "of_nat (length bs) * (1 / 2 ^ 64) \<le> sum_list (exact_weights bs)"
    "sum_list (exact_weights bs) \<le> of_nat (length bs) * 2 ^ 32"
    using sum_list_between [of "exact_weights bs" "1 / 2 ^ 64" "2 ^ 32"] share_weights_rounded(2) [of _ bs] len by auto
  ultimately show ?thesis by simp
qed

text \<open>
  Every draw selects a backend in whose share it lies, up to the margin.
\<close>

lemma draw_located:
  assumes "length bs \<le> 2 ^ 32" "b \<in> set bs" "c \<in> set bs" "ewma_latency_us b \<noteq> 0"
    and "6 * unat (ewma_latency_us b) \<le> 5 * unat (ewma_latency_us c)" "0 \<le> x" "x \<le> 1"
  shows "\<exists>k < length bs. fst (latency_aware_select (Fin x) req bs s) = Some (backend_id (bs ! k)) \<and>
    share_before bs k - rounding_margin (length bs) \<le> x \<and> x \<le> share_before bs (Suc k) + rounding_margin (length bs)"
proof -
  let ?Ws = "exact_weights bs" and ?n = "length bs"
  define tot where "tot = sum_list ?Ws"
  let ?u = "unit_error (2 * tot)" and ?m = "rounding_margin ?n"
  have bs: "bs \<noteq> []" using assms(2) by auto
  have len: "length ?Ws = ?n" by (simp add: exact_weights_def effective_latencies_def)
  have W: "\<forall>W \<in> set ?Ws. 0 \<le> W" using share_weights_rounded(2) [of _ bs] by (force intro: order_trans [rotated])
  have n: "of_nat ?n \<le> (2 ^ 32 :: rat)" using assms(1) by (rule of_nat_le_pow)
  have tot: "1 / 2 ^ 100 \<le> tot" "tot \<le> 2 ^ 64"
    using share_total [of bs 0] assms(1) bs unfolding tot_def by simp_all
  have cu: "of_nat (4 * ?n + 1) * ?u = tot * ?m" by (simp add: unit_error_def rounding_margin_def)
  have "?m \<le> 1 / 2" using n by (simp add: rounding_margin_def)
  then have small: "tot * ?m \<le> tot * (1 / 2)" using tot(1) by (intro mult_left_mono) simp_all
  have "2 * of_nat ?n * ?u \<le> of_nat (4 * ?n + 1) * ?u" using tot(1) by (intro mult_right_mono) (simp_all add: unit_error_def)
  then have err: "0 + 2 * of_nat (length ?Ws) * ?u \<le> tot / 2" using small cu len by simp
  obtain T where T: "foldl add_f64 (Fin 0) (rounded ?Ws) = Fin T" "0 \<le> T" "\<bar>T - tot\<bar> \<le> 2 * of_nat ?n * ?u"
    using sum_error [OF W _ _ _ _ err tot, of 0 0] len by (auto simp: tot_def)
  have xT: "0 \<le> x * T" "x * T \<le> T" "\<bar>x * T - x * tot\<bar> \<le> \<bar>T - tot\<bar>"
    using assms(6,7) T(2) mult_right_mono [of x 1 T] mult_right_mono [of x 1 "\<bar>T - tot\<bar>"]
    by (simp_all add: abs_mult flip: right_diff_distrib)
  have T2: "T \<le> 2 * tot" using T(3) err len tot(1) by simp
  let ?p = "rnd (x * T)"
  have p: "mul_f64 (Fin x) (Fin T) = Fin ?p" using xT(1,2) T2 tot(2) by (intro mul_f64_Fin) simp
  have "\<bar>?p - x * T\<bar> \<le> ?u" using xT T2 tot(1) by (intro rnd_within) linarith+
  then have near: "\<bar>?p - x * tot\<bar> \<le> ?u + 2 * of_nat ?n * ?u" using xT(3) T(3) by linarith
  have xt: "x * tot \<le> tot" using assms(7) tot(1) mult_right_mono [of x 1 tot] by simp
  have m0: "0 \<le> tot * ?m" using tot(1) by (simp add: rounding_margin_def)
  have "\<exists>k < length ?Ws. position_id (Fin ?p) (zip bs (rounded ?Ws)) (backend_id (last bs)) = backend_id (bs ! k) \<and>
      sum_list (take k ?Ws) - tot * ?m \<le> x * tot \<and> x * tot \<le> sum_list (take (Suc k) ?Ws) + tot * ?m"
  proof (rule pick_located [OF W, where tot = tot and e = "?u + 2 * of_nat ?n * ?u"])
    show "?u + 2 * of_nat ?n * ?u + 2 * of_nat (length ?Ws) * ?u \<le> tot * ?m"
      using cu by (simp add: algebra_simps len)
    show "0 \<le> ?p" using xT(1) by (rule rnd_nonneg)
    show "?Ws \<noteq> []" using len bs by (metis length_0_conv)
    show "x * tot \<le> sum_list ?Ws + tot * ?m" using xt m0 by (simp add: tot_def)
  qed (use len near xt tot small in \<open>simp_all add: tot_def\<close>)
  then obtain k where k: "k < ?n" "position_id (Fin ?p) (zip bs (rounded ?Ws)) (backend_id (last bs)) = backend_id (bs ! k)"
    "sum_list (take k ?Ws) - tot * ?m \<le> x * tot" "x * tot \<le> sum_list (take (Suc k) ?Ws) + tot * ?m"
    unfolding len by blast
  have "(share_before bs k - ?m) * tot \<le> x * tot" "x * tot \<le> (share_before bs (Suc k) + ?m) * tot"
    using k(3,4) tot(1) by (simp_all add: share_before_def tot_def [symmetric] algebra_simps)
  then have "share_before bs k - ?m \<le> x" "x \<le> share_before bs (Suc k) + ?m"
    using tot(1) mult_le_cancel_right_pos [of tot] by force+
  moreover have "fst (latency_aware_select (Fin x) req bs s) = Some (backend_id (bs ! k))"
    using not_flat [OF assms(2-5)] T(1) p k(2) bs
    by (auto simp: latency_aware_select_def share_weights_rounded(1) position_id_def split: option.splits)
  ultimately show ?thesis using k(1) by blast
qed

section \<open>Counting the choices of many draws\<close>

text \<open>The choices of one strategy over a row of draws.\<close>

fun latency_picks :: "f64 list \<Rightarrow> 'v incoming_request \<Rightarrow> backend list \<Rightarrow> latency_aware \<Rightarrow> nat option list" where
  "latency_picks [] r bs s = []"
| "latency_picks (draw # draws) r bs s =
     (case latency_aware_select draw r bs s of (i, s') \<Rightarrow> i # latency_picks draws r bs s')"

text \<open>
  How far a list of draws is from a uniform distribution on the unit interval (the distance of
  Kolmogorov and Smirnov).
\<close>

definition drawn_upto :: "rat \<Rightarrow> rat list \<Rightarrow> nat" where
  "drawn_upto x ds = length (filter (\<lambda>d. d \<le> x) ds)"

definition evenly_drawn :: "rat \<Rightarrow> rat list \<Rightarrow> bool" where
  "evenly_drawn e ds \<longleftrightarrow>
     (\<forall>x. 0 \<le> x \<and> x \<le> 1 \<longrightarrow> \<bar>of_nat (drawn_upto x ds) - x * of_nat (length ds)\<bar> \<le> e * of_nat (length ds))"

definition exact_share :: "backend list \<Rightarrow> nat \<Rightarrow> rat" where
  "exact_share bs k = share_before bs (Suc k) - share_before bs k"

lemma length_filter_mono: "(\<And>x. x \<in> set xs \<Longrightarrow> P x \<Longrightarrow> Q x) \<Longrightarrow> length (filter P xs) \<le> length (filter Q xs)"
  by (induction xs) auto

lemma length_filter_split:
  assumes "\<And>x. x \<in> set xs \<Longrightarrow> P x \<Longrightarrow> Q x \<or> R x"
  shows "length (filter P xs) \<le> length (filter Q xs) + length (filter R xs)"
  using assms
proof (induction xs)
  case (Cons x xs)
  then have "length (filter P xs) \<le> length (filter Q xs) + length (filter R xs)" by simp
  then show ?case using Cons.prems [of x] by auto
qed simp

lemma length_filter_disjoint:
  assumes "\<And>x. x \<in> set xs \<Longrightarrow> (P x \<longrightarrow> R x \<and> \<not> Q x) \<and> (Q x \<longrightarrow> R x)"
  shows "length (filter P xs) + length (filter Q xs) \<le> length (filter R xs)"
  using assms
proof (induction xs)
  case (Cons x xs)
  then have "length (filter P xs) + length (filter Q xs) \<le> length (filter R xs)" by simp
  then show ?case using Cons.prems [of x] by auto
qed simp

lemma count_list_map: "count_list (map f xs) y = length (filter (\<lambda>x. f x = y) xs)"
  by (induction xs) auto

lemma even_upto:
  assumes "evenly_drawn e ds" "\<forall>d \<in> set ds. 0 \<le> d \<and> d \<le> 1"
  shows "0 \<le> y \<Longrightarrow> of_nat (length (filter (\<lambda>d. d \<le> y) ds)) \<le> (y + e) * of_nat (length ds)"
    and "y \<le> 1 \<Longrightarrow> (y - e) * of_nat (length ds) \<le> of_nat (length (filter (\<lambda>d. d < y) ds))"
proof -
  let ?n = "of_nat (length ds) :: rat"
  have at: "\<bar>of_nat (length (filter (\<lambda>d. d \<le> x) ds)) - x * ?n\<bar> \<le> e * ?n" if "0 \<le> x" "x \<le> 1" for x
    using assms(1) that unfolding evenly_drawn_def drawn_upto_def by blast
  have e: "0 \<le> e * ?n" using at [of 1] by linarith
  show "of_nat (length (filter (\<lambda>d. d \<le> y) ds)) \<le> (y + e) * ?n" if "0 \<le> y"
  proof (cases "y \<le> 1")
    case True
    then show ?thesis using at [OF that] by (simp add: algebra_simps)
  next
    case False
    have "of_nat (length (filter (\<lambda>d. d \<le> y) ds)) \<le> 1 * ?n" by simp
    also have "\<dots> \<le> y * ?n" using False by (intro mult_right_mono) simp_all
    finally show ?thesis using e by (simp add: algebra_simps)
  qed
  show "(y - e) * ?n \<le> of_nat (length (filter (\<lambda>d. d < y) ds))" if "y \<le> 1"
  proof (cases "0 < y")
    case True
    show ?thesis
    proof (rule field_le_epsilon)
      fix g :: rat
      assume g: "0 < g"
      define x where "x = max 0 (y - g / (?n + 1))"
      have n1: "0 < ?n + 1" by (simp add: add_nonneg_pos)
      have x: "0 \<le> x" "x < y" using True g n1 by (auto simp: x_def)
      have "g / (?n + 1) * ?n \<le> g" using g n1 by (simp add: field_simps)
      moreover have "(y - g / (?n + 1)) * ?n \<le> x * ?n" by (intro mult_right_mono) (simp_all add: x_def)
      moreover have "(x - e) * ?n \<le> of_nat (length (filter (\<lambda>d. d \<le> x) ds))"
        using at [of x] x that by (simp add: algebra_simps)
      moreover have "length (filter (\<lambda>d. d \<le> x) ds) \<le> length (filter (\<lambda>d. d < y) ds)"
        using x by (intro length_filter_mono) simp
      then have "of_nat (length (filter (\<lambda>d. d \<le> x) ds)) \<le> (of_nat (length (filter (\<lambda>d. d < y) ds)) :: rat)" by simp
      ultimately show "(y - e) * ?n \<le> of_nat (length (filter (\<lambda>d. d < y) ds)) + g"
        by (simp add: algebra_simps)
    qed
  next
    case False
    then have "y * ?n \<le> 0" by (simp add: mult_nonpos_nonneg)
    then show ?thesis using e by (simp add: left_diff_distrib)
  qed
qed

lemma share_before_mono:
  assumes "j \<le> k"
  shows "share_before bs j \<le> share_before bs k"
proof -
  let ?Ws = "exact_weights bs"
  have W: "\<forall>W \<in> set ?Ws. 0 \<le> W" using share_weights_rounded(2) [of _ bs] by (force intro: order_trans [rotated])
  then have "0 \<le> sum_list (take (k - j) (drop j ?Ws))"
    by (intro sum_list_nonneg) (auto dest: in_set_takeD in_set_dropD)
  then have "sum_list (take j ?Ws) \<le> sum_list (take k ?Ws)"
    using take_add [of j "k - j" ?Ws] assms by simp
  then show ?thesis using W unfolding share_before_def by (intro divide_right_mono sum_list_nonneg) auto
qed

lemma share_before_bounds: "0 \<le> share_before bs k" "share_before bs k \<le> 1"
proof -
  show "0 \<le> share_before bs k" using share_before_mono [of 0 k bs] by (simp add: share_before_def)
  have "share_before bs k \<le> share_before bs (max k (length (exact_weights bs)))" by (rule share_before_mono) simp
  also have "\<dots> \<le> 1" by (simp add: share_before_def)
  finally show "share_before bs k \<le> 1" .
qed

lemma latency_picks_by_draw:
  assumes "b \<in> set bs" "c \<in> set bs" "ewma_latency_us b \<noteq> 0"
    and "6 * unat (ewma_latency_us b) \<le> 5 * unat (ewma_latency_us c)"
  shows "latency_picks draws r bs s = map (\<lambda>draw. fst (latency_aware_select draw r bs s)) draws"
proof -
  have "snd (latency_aware_select draw r bs s) = s" for draw
    using not_flat [OF assms] assms(1) by (auto simp: latency_aware_select_def Let_def)
  then show ?thesis by (induction draws) (simp_all add: split_def)
qed

lemma shares_within:
  assumes "length bs \<le> 2 ^ 32" "distinct (map backend_id bs)" "b \<in> set bs" "c \<in> set bs" "ewma_latency_us b \<noteq> 0"
    and "6 * unat (ewma_latency_us b) \<le> 5 * unat (ewma_latency_us c)" "k < length bs"
    and "\<forall>d \<in> set ds. 0 \<le> d \<and> d \<le> 1" "evenly_drawn e ds"
  shows "\<bar>of_nat (count_list (latency_picks (map Fin ds) req bs s) (Some (backend_id (bs ! k)))) -
      exact_share bs k * of_nat (length ds)\<bar> \<le> (2 * e + 2 * rounding_margin (length bs)) * of_nat (length ds)"
proof -
  let ?m = "rounding_margin (length bs)" and ?a = "share_before bs k" and ?b = "share_before bs (Suc k)" and ?n = "of_nat (length ds) :: rat"
  let ?picked = "\<lambda>d. fst (latency_aware_select (Fin d) req bs s) = Some (backend_id (bs ! k))"
  let ?hits = "\<lambda>P. of_nat (length (filter P ds)) :: rat"
  have m: "0 \<le> ?m" by (simp add: rounding_margin_def)
  have located: "\<exists>j < length bs. fst (latency_aware_select (Fin d) req bs s) = Some (backend_id (bs ! j)) \<and>
      share_before bs j - ?m \<le> d \<and> d \<le> share_before bs (Suc j) + ?m" if "d \<in> set ds" for d
    using draw_located [OF assms(1,3-6)] assms(8) that by blast
  have inside: "?a - ?m \<le> d \<and> d \<le> ?b + ?m" if d: "d \<in> set ds" and p: "?picked d" for d
  proof -
    obtain j where j: "j < length bs" "backend_id (bs ! j) = backend_id (bs ! k)"
      "share_before bs j - ?m \<le> d" "d \<le> share_before bs (Suc j) + ?m"
      using located [OF d] p by auto
    have "j = k" using assms(2,7) j(1,2) by (auto simp: distinct_conv_nth)
    then show ?thesis using j by simp
  qed
  have picked: "?picked d" if d: "d \<in> set ds" and "?a + ?m < d" "d < ?b - ?m" for d
  proof -
    obtain j where j: "j < length bs" "fst (latency_aware_select (Fin d) req bs s) = Some (backend_id (bs ! j))"
      "share_before bs j - ?m \<le> d" "d \<le> share_before bs (Suc j) + ?m"
      using located [OF d] by auto
    have "\<not> Suc j \<le> k" "\<not> Suc k \<le> j"
      using share_before_mono [of "Suc j" k bs] share_before_mono [of "Suc k" j bs] j(3,4) that(2,3) by linarith+
    then show ?thesis using j(2) by (simp add: le_antisym not_less_eq_eq)
  qed
  have "length (filter ?picked ds) + length (filter (\<lambda>d. d < ?a - ?m) ds) \<le> length (filter (\<lambda>d. d \<le> ?b + ?m) ds)"
    using inside share_before_mono [of k "Suc k" bs] m by (intro length_filter_disjoint) force
  then have "?hits ?picked + ?hits (\<lambda>d. d < ?a - ?m) \<le> ?hits (\<lambda>d. d \<le> ?b + ?m)"
    by (metis of_nat_add of_nat_mono)
  then have up: "?hits ?picked \<le> (?b + ?m + e) * ?n - (?a - ?m - e) * ?n"
    using even_upto(1) [OF assms(9,8), of "?b + ?m"] even_upto(2) [OF assms(9,8), of "?a - ?m"]
      share_before_bounds [of bs k] share_before_bounds [of bs "Suc k"] m by linarith
  have "length (filter (\<lambda>d. d < ?b - ?m) ds) \<le> length (filter (\<lambda>d. d \<le> ?a + ?m) ds) + length (filter ?picked ds)"
    using picked by (intro length_filter_split) force
  then have "?hits (\<lambda>d. d < ?b - ?m) \<le> ?hits (\<lambda>d. d \<le> ?a + ?m) + ?hits ?picked"
    by (metis of_nat_add of_nat_mono)
  then have low: "(?b - ?m - e) * ?n - (?a + ?m + e) * ?n \<le> ?hits ?picked"
    using even_upto(1) [OF assms(9,8), of "?a + ?m"] even_upto(2) [OF assms(9,8), of "?b - ?m"]
      share_before_bounds [of bs k] share_before_bounds [of bs "Suc k"] m by linarith
  have "\<bar>?hits ?picked - exact_share bs k * ?n\<bar> \<le> (2 * e + 2 * ?m) * ?n"
    using up low by (simp add: exact_share_def abs_le_iff algebra_simps)
  then show ?thesis
    by (simp add: latency_picks_by_draw [OF assms(3-6)] map_map comp_def count_list_map)
qed

text \<open>
  C39. Traffic follows weight over latency. Let the latencies of two sampled backends differ by a
  fifth at least. Then the number of times that a backend is selected in a row of draws from the unit
  interval is its exact share (its weight over its latency, as a fraction of the sum of these)
  of the number of draws, up to twice the distance of the draws from a uniform distribution and
  twice a margin of (4 n + 1) / 2^51 for n backends, which is all that the rounded arithmetic of
  the weights, of their sum and of the subtractions can add up to.
\<close>

theorem traffic_shares:
  assumes "length bs \<le> 2 ^ 32" "distinct (map backend_id bs)" "b \<in> set bs" "c \<in> set bs" "ewma_latency_us b \<noteq> 0"
    and "6 * unat (ewma_latency_us b) \<le> 5 * unat (ewma_latency_us c)" "k < length bs"
    and "\<forall>d \<in> set ds. 0 \<le> d \<and> d \<le> 1" "evenly_drawn e ds"
  shows "\<bar>of_nat (count_list (latency_picks (map Fin ds) req bs s) (Some (backend_id (bs ! k)))) -
      exact_share bs k * of_nat (length ds)\<bar> \<le> (2 * e + 2 * rounding_margin (length bs)) * of_nat (length ds)"
  using assms by (rule shares_within)

definition uneven_backends :: "backend list" where
  "uneven_backends =
     [(new_backend 0 ''a'' 1 tiny_breaker)\<lparr>ewma_latency_us := 100\<rparr>,
      (new_backend 1 ''b'' 1 tiny_breaker)\<lparr>ewma_latency_us := 300\<rparr>]"

lemma uneven_shares: "share_before uneven_backends 0 = 0" "share_before uneven_backends 1 = 3 / 4"
proof -
  have "effective_latencies (map ewma_latency_us uneven_backends) = [Fin 100, Fin 300]"
    using f64_of_nat_exact [of 100] f64_of_nat_exact [of 300]
    by (simp add: uneven_backends_def effective_latencies_def f64_of_u64_def word_less_nat_alt)
  then have "exact_weights uneven_backends = [1 / 100, 1 / 300]"
    by (simp add: exact_weights_def) (simp add: uneven_backends_def shares_def new_backend_def)
  then show "share_before uneven_backends 0 = 0" "share_before uneven_backends 1 = 3 / 4"
    by (simp_all add: share_before_def)
qed


lemma evenly_drawn_quarters: "evenly_drawn (1 / 4) [1 / 4, 3 / 4]"
  by (auto simp: evenly_drawn_def drawn_upto_def abs_if)

theorem traffic_shares_witness:
  "\<bar>of_nat (count_list (latency_picks [Fin (1 / 4), Fin (3 / 4)] \<lparr>req_path = [], req_body = None :: unit option\<rparr>
      uneven_backends new_latency_aware) (Some 0)) - 3 / 2\<bar> \<le> (1 + 9 / 2 ^ 49 :: rat)"
proof -
  have "length uneven_backends = 2" "backend_id (uneven_backends ! 0) = 0"
    "ewma_latency_us (uneven_backends ! 0) = 100" "ewma_latency_us (uneven_backends ! 1) = 300"
    "distinct (map backend_id uneven_backends)"
    by (simp_all add: uneven_backends_def new_backend_def)
  moreover from this(1) have "uneven_backends ! 0 \<in> set uneven_backends" "uneven_backends ! 1 \<in> set uneven_backends"
    by simp_all
  moreover have share: "exact_share uneven_backends 0 = 3 / 4" using uneven_shares by (simp add: exact_share_def)
  ultimately show ?thesis
    using traffic_shares [of uneven_backends "uneven_backends ! 0" "uneven_backends ! 1" 0 "[1 / 4, 3 / 4]" "1 / 4"]
      evenly_drawn_quarters by (simp add: share rounding_margin_def del: latency_picks.simps)
qed

end
