(* ===== verification/Routing_Tests.thy ===== *)
theory Routing_Tests
  imports Test_Support Latency_Shares
begin

text \<open>
  The unit tests of routing/, run on the model. Each of them passes, for every digest function
  and whatever the random draws are. The tests that count how many of thousands of SHA-256 keys
  or of random draws fall where are in Spread_Tests.
\<close>

section \<open>A row of choices\<close>

fun strategy_picks :: "('s \<Rightarrow> nat option \<times> 's) \<Rightarrow> nat \<Rightarrow> 's \<Rightarrow> nat option list" where
  "strategy_picks sel 0 s = []"
| "strategy_picks sel (Suc n) s = (case sel s of (i, s') \<Rightarrow> i # strategy_picks sel n s')"

lemma strategy_picks_stateless:
  assumes "snd (sel s) = s"
  shows "strategy_picks sel n s = replicate n (fst (sel s))"
  using assms by (induction n) (simp_all add: split_def)

lemma strategy_picks_round_robin: "strategy_picks (round_robin_select r bs) n s = round_robin_picks n r bs s"
  by (induction n arbitrary: s) (simp_all add: split_def)

declare strategy_picks.simps [simp del]

section \<open>routing/mod.rs\<close>

definition every_listed_strategy_name_can_be_created :: "(string \<Rightarrow> string) \<Rightarrow> bool" where
  "every_listed_strategy_name_can_be_created sha256 =
     list_all (\<lambda>name. case create_strategy sha256 name 256 3 of Inl _ \<Rightarrow> False | Inr _ \<Rightarrow> True) STRATEGY_NAMES"

lemma every_listed_strategy_name_can_be_created_passes: "every_listed_strategy_name_can_be_created sha256"
  by (simp add: every_listed_strategy_name_can_be_created_def STRATEGY_NAMES_def create_strategy_def)

section \<open>routing/round_robin.rs\<close>

definition cycles_through_backends :: "instant \<Rightarrow> bool" where
  "cycles_through_backends now =
     (strategy_picks (round_robin_select (test_req :: unit incoming_request) (test_backends now 3)) 9 new_round_robin =
      map Some [0, 1, 2, 0, 1, 2, 0, 1, 2])"

definition weights_change_the_share :: "instant \<Rightarrow> bool" where
  "weights_change_the_share now =
     (let b = test_backends now 2;
          b' = [new_backend 0 (url (b ! 0)) 1 (default_breaker now), new_backend 1 (url (b ! 1)) 3 (default_breaker now)];
          ids = strategy_picks (round_robin_select (test_req :: unit incoming_request) b') 8 new_round_robin
      in None \<notin> set ids \<and> count_list ids (Some 0) = 2 \<and> count_list ids (Some 1) = 6)"

definition returns_none_when_nothing_routable :: bool where
  "returns_none_when_nothing_routable =
     (fst (round_robin_select (test_req :: unit incoming_request) [] new_round_robin) = None)"

lemma slots_test_backends: "slots (test_backends now n) = [0..<n]"
  by (induction n) (simp_all add: test_backends_def slots_def shares_def new_backend_def)

lemma upt_numerals: "[0..<2] = [0, 1]" "[0..<3] = [0, 1, 2 :: nat]" "[0..<6] = [0, 1, 2, 3, 4, 5 :: nat]"
  "[0..<8] = [0, 1, 2, 3, 4, 5, 6, 7 :: nat]" "[0..<9] = [0, 1, 2, 3, 4, 5, 6, 7, 8 :: nat]"
  by (simp_all add: upt_rec)

lemma cycles_through_backends_passes: "cycles_through_backends now"
proof -
  have "length (test_backends now 3) = 3" by (simp add: test_backends_def)
  then have "test_backends now 3 \<noteq> []" "length (test_backends now 3) \<le> 2 ^ 32" by auto
  then show ?thesis
    by (simp add: cycles_through_backends_def strategy_picks_round_robin round_robin_picks_nth slots_test_backends
        new_round_robin_def upt_numerals)
qed

lemma weights_change_the_share_passes: "weights_change_the_share now"
  by (simp add: weights_change_the_share_def strategy_picks_round_robin round_robin_picks_nth new_round_robin_def
      slots_def shares_def new_backend_def upt_numerals replicate_small)

lemma returns_none_when_nothing_routable_passes: returns_none_when_nothing_routable
  by (simp add: returns_none_when_nothing_routable_def rr.sel_empty)

section \<open>routing/least_connections.rs and routing/least_load.rs\<close>

definition picks_backend_with_fewest_connections :: "instant \<Rightarrow> bool" where
  "picks_backend_with_fewest_connections now =
     (let b = test_backends now 3;
          b' = [(b ! 0)\<lparr>active_connections := 5\<rparr>, (b ! 1)\<lparr>active_connections := 2\<rparr>, (b ! 2)\<lparr>active_connections := 8\<rparr>]
      in fst (least_connections_select (test_req :: unit incoming_request) b' LeastConnections) = Some 1)"

definition queue_depth_counts_as_load :: "instant \<Rightarrow> bool" where
  "queue_depth_counts_as_load now =
     (let b = test_backends now 2;
          b' = [(b ! 0)\<lparr>active_connections := 2, queue_depth := 10\<rparr>, (b ! 1)\<lparr>active_connections := 5\<rparr>]
      in fst (least_load_select (test_req :: unit incoming_request) b' LeastLoad) = Some 1)"

definition ties_go_to_the_first :: "instant \<Rightarrow> bool" where
  "ties_go_to_the_first now =
     (fst (least_load_select (test_req :: unit incoming_request) (test_backends now 3) LeastLoad) = Some 0)"

lemmas load_eval = test_backends_def upt_numerals new_backend_def least_connections_select_def least_load_select_def
  load_of_def

lemma picks_backend_with_fewest_connections_passes: "picks_backend_with_fewest_connections now"
  by (simp add: picks_backend_with_fewest_connections_def load_eval)

lemma queue_depth_counts_as_load_passes: "queue_depth_counts_as_load now"
  by (simp add: queue_depth_counts_as_load_def load_eval)

lemma ties_go_to_the_first_passes: "ties_go_to_the_first now"
  by (simp add: ties_go_to_the_first_def load_eval)

section \<open>routing/latency_aware.rs\<close>

definition weighted :: "instant \<Rightarrow> nat \<Rightarrow> u32 \<Rightarrow> backend" where
  "weighted now i w = new_backend i (''http://b'' @ show_nat i) w (default_breaker now)"

definition flat_latencies_round_robin_instead_of_pinning_first :: "(nat \<Rightarrow> f64) \<Rightarrow> instant \<Rightarrow> bool" where
  "flat_latencies_round_robin_instead_of_pinning_first draws now =
     (latency_picks (map draws [0..<6]) (test_req :: unit incoming_request) (test_backends now 3) new_latency_aware =
      map Some [0, 1, 2, 0, 1, 2])"

definition flat_latencies_respect_weights :: "(nat \<Rightarrow> f64) \<Rightarrow> instant \<Rightarrow> bool" where
  "flat_latencies_respect_weights draws now =
     (let b = [weighted now 0 3, weighted now 1 1];
          ids = latency_picks (map draws [0..<8]) (test_req :: unit incoming_request) b new_latency_aware
      in None \<notin> set ids \<and> count_list ids (Some 0) = 6 \<and> count_list ids (Some 1) = 2)"

lemma latency_picks_level:
  assumes "bs \<noteq> []" "length bs \<le> 2 ^ 32" "ewma_latency_us ` set bs \<subseteq> {0, l}"
  shows "latency_picks draws r bs s = round_robin_picks (length draws) r bs \<lparr>counter = fallback_counter s\<rparr>"
proof (induction draws arbitrary: s)
  case (Cons draw draws)
  show ?case using assms(1,2) Cons
    by (simp add: flat_choice [OF assms(1,3)] round_robin_select_def total_weight_eq_0)
qed simp

lemma latency_picks_flat:
  assumes "bs \<noteq> []" "length bs \<le> 2 ^ 32" "ewma_latency_us ` set bs \<subseteq> {0}"
  shows "latency_picks draws r bs s = round_robin_picks (length draws) r bs \<lparr>counter = fallback_counter s\<rparr>"
  using latency_picks_level [OF assms(1,2), of 0] assms(3) by simp

declare latency_picks.simps [simp del] round_robin_picks.simps [simp del]

lemma flat_latencies_round_robin_instead_of_pinning_first_passes:
  "flat_latencies_round_robin_instead_of_pinning_first draws now"
proof -
  have "length (test_backends now 3) = 3" "ewma_latency_us ` set (test_backends now 3) \<subseteq> {0}"
    by (auto simp: test_backends_def new_backend_def)
  moreover from this(1) have "test_backends now 3 \<noteq> []" by auto
  ultimately show ?thesis
    by (simp add: flat_latencies_round_robin_instead_of_pinning_first_def latency_picks_flat round_robin_picks_nth
        slots_test_backends new_latency_aware_def upt_numerals)
qed

lemma flat_latencies_respect_weights_passes: "flat_latencies_respect_weights draws now"
  by (simp add: flat_latencies_respect_weights_def latency_picks_flat round_robin_picks_nth new_latency_aware_def
      weighted_def slots_def shares_def new_backend_def upt_numerals replicate_small)

section \<open>routing/ring.rs\<close>

definition same_key_same_backend :: "(string \<Rightarrow> string) \<Rightarrow> bool" where
  "same_key_same_backend sha256 =
     (let r = new_ring sha256 5 DEFAULT_VNODES;
          k = hash_key sha256 ''hello''
      in lookup r k (\<lambda>_. True) = lookup r k (\<lambda>_. True))"

definition empty_ring_or_nothing_routable_gives_none :: "(string \<Rightarrow> string) \<Rightarrow> bool" where
  "empty_ring_or_nothing_routable_gives_none sha256 \<longleftrightarrow>
     lookup (new_ring sha256 0 DEFAULT_VNODES) 1 (\<lambda>_. True) = None \<and>
     lookup (new_ring sha256 3 DEFAULT_VNODES) 1 (\<lambda>_. False) = None"

lemma same_key_same_backend_passes: "same_key_same_backend sha256"
  by (simp add: same_key_same_backend_def)

lemma empty_ring_or_nothing_routable_gives_none_passes: "empty_ring_or_nothing_routable_gives_none sha256"
  by (simp add: empty_ring_or_nothing_routable_gives_none_def lookup_None) (simp add: new_ring_def)

section \<open>routing/prefix_cache.rs\<close>

text \<open>
  The JSON values of the tests, with the accessors of \<open>serde_json::Value\<close>: \<open>get\<close> of a key is \<open>None\<close> on
  anything but an object that has it, \<open>as_str\<close> and \<open>as_array\<close> on anything but a string and an array.
\<close>

datatype json =
  J_null
| J_string code_points
| J_array "json list"
| J_object "(string \<times> json) list"

fun get_key :: "json \<Rightarrow> string \<Rightarrow> json option" where
  "get_key (J_object entries) k = map_of entries k"
| "get_key _ k = None"

fun string_of :: "json \<Rightarrow> code_points option" where
  "string_of (J_string s) = Some s"
| "string_of _ = None"

fun array_of :: "json \<Rightarrow> json list option" where
  "array_of (J_array xs) = Some xs"
| "array_of _ = None"

definition serde_json :: "json json_api" where
  "serde_json = \<lparr>json_get = get_key, as_str = string_of, as_array = array_of\<rparr>"

abbreviation chars :: "string \<Rightarrow> code_points" where
  "chars \<equiv> map of_char"

definition chat :: "(string \<times> json) list \<Rightarrow> json" where
  "chat messages =
     J_object [(''messages'',
       J_array (map (\<lambda>(role, content). J_object [(''role'', J_string (chars role)), (''content'', content)]) messages))]"

definition same_prefix_routes_to_same_backend :: "(string \<Rightarrow> string) \<Rightarrow> instant \<Rightarrow> bool" where
  "same_prefix_routes_to_same_backend sha256 now =
     (let strategy = new_prefix_cache sha256 256 3;
          b = test_backends now 3;
          body = chat [(''user'', J_string (chars ''Hello, how are you doing today?''))];
          r = \<lparr>req_path = ''/v1/chat/completions'', req_body = Some body\<rparr>;
          picks = strategy_picks (prefix_cache_select sha256 serde_json r b) 11 strategy
      in hd picks \<noteq> None \<and> list_all (\<lambda>i. i = hd picks) picks)"

definition prefix_truncation_is_char_safe :: "(string \<Rightarrow> string) \<Rightarrow> bool" where
  "prefix_truncation_is_char_safe sha256 =
     (let body = J_object [(''prompt'', J_string (replicate 11 233))]
      in extract_prefix serde_json (new_prefix_cache sha256 2 1) (Some body) = replicate 8 233)"

definition shared_system_prompt :: "nat \<Rightarrow> json" where
  "shared_system_prompt i =
     chat
       [(''system'', J_array [J_object [(''type'', J_string (chars ''text'')),
           (''text'', J_string (chars ''You are a careful assistant. Answer briefly and cite sources when you can.''))]]),
        (''user'', J_array [J_object [(''type'', J_string (chars ''text'')),
           (''text'', J_string (chars (''question '' @ show_nat i)))]])]"

text \<open>The first half of \<open>array_form_system_prompt_keeps_locality\<close>; the second is about SHA-256.\<close>

definition array_form_system_prompt_keeps_locality :: "(string \<Rightarrow> string) \<Rightarrow> instant \<Rightarrow> bool" where
  "array_form_system_prompt_keeps_locality sha256 now =
     (let strategy = new_prefix_cache sha256 16 10;
          b = test_backends now 10;
          picks = map (\<lambda>i. fst (prefix_cache_select sha256 serde_json
            \<lparr>req_path = ''/v1/chat/completions'', req_body = Some (shared_system_prompt i)\<rparr> b strategy)) [0..<20]
      in None \<notin> set picks \<and> card (set picks) = 1)"

definition mixed_string_and_array_content_is_concatenated :: "(string \<Rightarrow> string) \<Rightarrow> bool" where
  "mixed_string_and_array_content_is_concatenated sha256 =
     (let body = chat
        [(''system'', J_string (chars ''sys'')),
         (''user'', J_array
           [J_object [(''type'', J_string (chars ''text'')), (''text'', J_string (chars ''part one''))],
            J_object [(''type'', J_string (chars ''image_url'')),
                      (''image_url'', J_object [(''url'', J_string (chars ''http://x/img.png''))])],
            J_object [(''type'', J_string (chars ''text'')), (''text'', J_string (chars ''part two''))]]),
         (''assistant'', J_null)]
      in extract_prefix serde_json (new_prefix_cache sha256 256 1) (Some body) = chars ''sys part one part two'')"

lemmas json_eval = serde_json_def chat_def extract_prefix_def content_text_def new_prefix_cache_def List.map_filter_simps

lemma prefix_truncation_is_char_safe_passes: "prefix_truncation_is_char_safe sha256"
  by (simp add: prefix_truncation_is_char_safe_def json_eval)

lemma mixed_string_and_array_content_is_concatenated_passes: "mixed_string_and_array_content_is_concatenated sha256"
  by (simp add: mixed_string_and_array_content_is_concatenated_def json_eval)

lemma fits_test_backends: "ring_fits sha256 (new_prefix_cache sha256 k n) (test_backends now n)"
  by (auto simp: ring_fits_def new_prefix_cache_def test_backends_def new_backend_def)

lemma test_backends_nonempty: "0 < n \<Longrightarrow> test_backends now n \<noteq> []"
  by (simp add: test_backends_def)

lemma same_prefix_routes_to_same_backend_passes: "same_prefix_routes_to_same_backend sha256 now"
proof -
  have "fst (prefix_cache_select sha256 serde_json r (test_backends now 3) (new_prefix_cache sha256 256 3)) \<noteq> None" for r
    by (rule pc.sel_total [OF fits_test_backends test_backends_nonempty]) simp
  moreover have "snd (prefix_cache_select sha256 serde_json r bs s) = s" for r bs and s :: prefix_cache_aware
    by (simp add: prefix_cache_select_def Let_def)
  ultimately show ?thesis
    by (simp add: same_prefix_routes_to_same_backend_def strategy_picks_stateless Let_def list_all_iff
        del: not_None_eq)
qed

lemma shared_prefix:
  "extract_prefix serde_json (new_prefix_cache sha256 16 10) (Some (shared_system_prompt i)) =
     chars ''You are a careful assistant. Answer briefly and cite sources whe''"
  by (simp add: shared_system_prompt_def json_eval)

lemma array_form_system_prompt_keeps_locality_passes: "array_form_system_prompt_keeps_locality sha256 now"
proof -
  define pick where "pick i = fst (prefix_cache_select sha256 serde_json
    \<lparr>req_path = ''/v1/chat/completions'', req_body = Some (shared_system_prompt i)\<rparr> (test_backends now 10)
    (new_prefix_cache sha256 16 10))" for i
  have same: "pick i = pick 0" for i
    unfolding pick_def by (simp add: prefix_cache_select_def Let_def shared_prefix)
  have some: "pick 0 \<noteq> None"
    unfolding pick_def by (rule pc.sel_total [OF fits_test_backends test_backends_nonempty]) simp
  have "pick ` {0..<20} = {pick 0}" using same by (auto simp: image_iff intro!: bexI [of _ 0])
  then have "set (map pick [0..<20]) = {pick 0}" by simp
  then show ?thesis using some [symmetric]
    unfolding array_form_system_prompt_keeps_locality_def Let_def pick_def [symmetric] by simp
qed

end
