(* ===== verification/Spread_Tests.thy ===== *)
theory Spread_Tests
  imports Routing_Tests Listen
begin

text \<open>
  The unit tests of routing/ that count how many choices fall where, with the random draws and the
  digest function as arguments. The tests of latency-aware routing pass for every row of draws that
  is close enough to a uniform distribution. The tests of the ring and of the prefix cache are
  reduced to what they ask of SHA-256: how many keys have their nearest point on which backend.
\<close>

section \<open>Evenly distributed draws\<close>

text \<open>\<open>gen::<f64>()\<close> gives a number of [0, 1); how evenly it does so is the argument \<open>e\<close>.\<close>

definition fair_draws :: "rat \<Rightarrow> nat \<Rightarrow> (nat \<Rightarrow> rat) \<Rightarrow> bool" where
  "fair_draws e n draws \<longleftrightarrow> (\<forall>i < n. 0 \<le> draws i \<and> draws i < 1) \<and> evenly_drawn e (map draws [0..<n])"

lemma drawn_upto_steps:
  assumes "0 < n" "0 \<le> x"
  shows "length (filter (\<lambda>i. of_nat i / of_nat n \<le> x) [0..<m]) = nat (min (int m) (\<lfloor>x * of_nat n\<rfloor> + 1))"
proof (induction m)
  case (Suc m)
  have "of_nat m / of_nat n \<le> x \<longleftrightarrow> int m \<le> \<lfloor>x * of_nat n\<rfloor>"
    using assms by (simp add: le_floor_iff pos_divide_le_eq)
  moreover have "0 \<le> \<lfloor>x * of_nat n\<rfloor>" using assms by simp
  ultimately show ?case using Suc by (auto simp: nat_add_distrib)
qed (use assms in simp)

text \<open>Such draws exist for every number of at least \<open>1 / e\<close>.\<close>

lemma fair_draws_exist:
  assumes "0 < n" "1 \<le> e * of_nat n"
  shows "fair_draws e n (\<lambda>i. of_nat i / of_nat n)"
proof -
  have "\<bar>of_nat (drawn_upto x (map (\<lambda>i. of_nat i / of_nat n) [0..<n])) - x * of_nat n\<bar> \<le> e * of_nat n"
    if x: "0 \<le> x" "x \<le> 1" for x :: rat
  proof -
    let ?f = "\<lfloor>x * of_nat n\<rfloor>"
    have upto: "drawn_upto x (map (\<lambda>i. of_nat i / of_nat n) [0..<n]) = nat (min (int n) (?f + 1))"
      using drawn_upto_steps [OF assms(1) x(1)] by (simp add: drawn_upto_def filter_map comp_def)
    have f: "0 \<le> ?f" "of_int ?f \<le> x * of_nat n" "x * of_nat n < of_int ?f + 1"
      using x by (simp_all add: floor_le_iff) linarith
    have xn: "x * of_nat n \<le> of_nat n" using x mult_right_mono [of x 1 "of_nat n"] by simp
    have "rat_of_nat (nat (min (int n) (?f + 1))) = min (of_nat n) (of_int ?f + 1)"
      using f(1) by (simp add: of_nat_nat min_def)
    moreover have "\<bar>min (of_nat n) (of_int ?f + 1) - x * of_nat n\<bar> \<le> 1" using f(2,3) xn by linarith
    ultimately show ?thesis unfolding upto using assms(2) by linarith
  qed
  then show ?thesis using assms(1) by (simp add: fair_draws_def evenly_drawn_def)
qed

section \<open>Shares in floating point\<close>

fun abs_f64 :: "f64 \<Rightarrow> f64" where
  "abs_f64 (Fin x) = Fin \<bar>x\<bar>"
| "abs_f64 NaN = NaN"
| "abs_f64 _ = PInf"

text \<open>\<open>(x - y).abs() < bound\<close>\<close>

definition within_f64 :: "f64 \<Rightarrow> f64 \<Rightarrow> f64 \<Rightarrow> bool" where
  "within_f64 bound x y = lt_f64 (abs_f64 (sub_f64 x y)) bound"

definition quotient_f64 :: "nat \<Rightarrow> nat \<Rightarrow> f64" where
  "quotient_f64 c n = div_f64 (f64_of_nat c) (f64_of_nat n)"

lemma to_f64_unit: "\<bar>x\<bar> \<le> 2 \<Longrightarrow> to_f64 x = Fin (rnd x)"
proof -
  have "(2 :: rat) ^ 1 \<le> safe_bound" unfolding safe_bound_def by (rule power_increasing) simp_all
  then show "\<bar>x\<bar> \<le> 2 \<Longrightarrow> to_f64 x = Fin (rnd x)" by (intro to_f64_small) simp
qed

lemma quotient_f64_rnd:
  assumes "0 < n" "n \<le> 2 ^ 32" "c \<le> n"
  shows "quotient_f64 c n = Fin (rnd (of_nat c / of_nat n))"
proof -
  have "f64_of_nat c = Fin (of_nat c)" "f64_of_nat n = Fin (of_nat n)"
    using assms by (simp_all add: f64_of_nat_exact)
  moreover have "\<bar>of_nat c / of_nat n :: rat\<bar> \<le> 2" using assms by (simp add: divide_le_eq)
  ultimately show ?thesis using assms(1) by (simp add: quotient_f64_def to_f64_unit)
qed

lemma within_f64_rnd:
  assumes "\<bar>r - q\<bar> < t - 1 / 2 ^ 40" "0 \<le> r" "r \<le> 1" "0 \<le> q" "q \<le> 1" "t \<le> 1"
  shows "within_f64 (to_f64 t) (Fin (rnd r)) (Fin (rnd q))"
proof -
  have t: "0 < t" using assms(1) by (rule_tac ccontr) auto
  define u g where "u = (1 / 2 ^ 51 :: rat)" and "g = (1 / 2 ^ 40 :: rat)"
  have ug: "4 * u < g" "4 * u \<le> 1" "0 < u" by (simp_all add: u_def g_def)
  have near: "\<bar>rnd x - x\<bar> \<le> u" if "\<bar>x\<bar> \<le> 2" for x
    using rnd_within [OF that] by (simp add: unit_error_def u_def)
  have "\<bar>r\<bar> \<le> 2" "\<bar>q\<bar> \<le> 2" "\<bar>t\<bar> \<le> 2" using assms t by simp_all
  note e = this [THEN near]
  have d: "\<bar>rnd r - rnd q\<bar> \<le> 2" using e(1,2) assms(2-5) ug by linarith
  have "\<bar>rnd (rnd r - rnd q)\<bar> < rnd t" using near [OF d] e assms(1) ug unfolding g_def [symmetric] by linarith
  moreover have "sub_f64 (Fin (rnd r)) (Fin (rnd q)) = Fin (rnd (rnd r - rnd q))"
    using to_f64_unit [OF d] by (simp add: sub_f64_def)
  moreover have "to_f64 t = Fin (rnd t)" using t assms(6) by (intro to_f64_unit) simp
  ultimately show ?thesis by (simp add: within_f64_def lt_f64_def)
qed

section \<open>routing/latency_aware.rs\<close>

text \<open>\<open>counts[strategy.select(..).unwrap()] += 1\<close> panics on \<open>None\<close> and beyond the array.\<close>

definition counts_ok :: "nat \<Rightarrow> nat option list \<Rightarrow> bool" where
  "counts_ok k picks \<longleftrightarrow> list_all (\<lambda>p. case p of Some i \<Rightarrow> i < k | None \<Rightarrow> False) picks"

definition shares_follow_inverse_latency :: "(nat \<Rightarrow> rat) \<Rightarrow> instant \<Rightarrow> bool" where
  "shares_follow_inverse_latency draws now =
     (let b = test_backends now 3;
          b' = [(b ! 0)\<lparr>ewma_latency_us := 100\<rparr>, (b ! 1)\<lparr>ewma_latency_us := 200\<rparr>, (b ! 2)\<lparr>ewma_latency_us := 400\<rparr>];
          n = 20000;
          picks = latency_picks (map Fin (map draws [0..<n])) (test_req :: unit incoming_request) b' new_latency_aware;
          share = (\<lambda>i. quotient_f64 (count_list picks (Some i)) n)
      in counts_ok 3 picks \<and> within_f64 (to_f64 (3 / 100)) (share 0) (quotient_f64 4 7) \<and>
         within_f64 (to_f64 (3 / 100)) (share 1) (quotient_f64 2 7) \<and>
         within_f64 (to_f64 (3 / 100)) (share 2) (quotient_f64 1 7))"

definition config_weight_multiplies_the_inverse_latency :: "(nat \<Rightarrow> rat) \<Rightarrow> instant \<Rightarrow> bool" where
  "config_weight_multiplies_the_inverse_latency draws now =
     (let slow_but_big = new_backend 0 ''http://b0'' 4 (default_breaker now);
          fast = new_backend 1 ''http://b1'' 1 (default_breaker now);
          b = [slow_but_big\<lparr>ewma_latency_us := 400\<rparr>, fast\<lparr>ewma_latency_us := 100\<rparr>];
          n = 20000;
          picks = latency_picks (map Fin (map draws [0..<n])) (test_req :: unit incoming_request) b new_latency_aware
      in None \<notin> set picks \<and>
         within_f64 (to_f64 (3 / 100)) (quotient_f64 (count_list picks (Some 0)) n) (Fin (1 / 2)))"

definition unsampled_backend_gets_the_median_latency_not_a_tiny_one :: "(nat \<Rightarrow> rat) \<Rightarrow> instant \<Rightarrow> bool" where
  "unsampled_backend_gets_the_median_latency_not_a_tiny_one draws now =
     (let b = test_backends now 3;
          b' = [(b ! 0)\<lparr>ewma_latency_us := 100000\<rparr>, (b ! 1)\<lparr>ewma_latency_us := 100000\<rparr>, b ! 2];
          n = 6000;
          picks = latency_picks (map Fin (map draws [0..<n])) (test_req :: unit incoming_request) b' new_latency_aware
      in None \<notin> set picks \<and>
         within_f64 (to_f64 (5 / 100)) (quotient_f64 (count_list picks (Some 2)) n) (quotient_f64 1 3))"

definition weighted_path_with_one_unsampled_backend :: "(nat \<Rightarrow> rat) \<Rightarrow> instant \<Rightarrow> bool" where
  "weighted_path_with_one_unsampled_backend draws now =
     (let b = [(weighted now 0 1)\<lparr>ewma_latency_us := 100000\<rparr>, (weighted now 1 1)\<lparr>ewma_latency_us := 300000\<rparr>,
               weighted now 2 1];
          n = 20000;
          picks = latency_picks (map Fin (map draws [0..<n])) (test_req :: unit incoming_request) b new_latency_aware;
          share = (\<lambda>i. quotient_f64 (count_list picks (Some i)) n)
      in counts_ok 3 picks \<and> within_f64 (to_f64 (3 / 100)) (share 2) (share 1))"

text \<open>The share of the choices against the exact share, from the distance of the draws.\<close>

lemma shares_of_fair_draws:
  assumes "fair_draws e n draws" "0 < n" "length bs \<le> 10" "distinct (map backend_id bs)"
    and "b \<in> set bs" "c \<in> set bs" "ewma_latency_us b \<noteq> 0"
    and "6 * unat (ewma_latency_us b) \<le> 5 * unat (ewma_latency_us c)" "k < length bs"
  shows "\<bar>of_nat (count_list (latency_picks (map Fin (map draws [0..<n])) r bs s) (Some (backend_id (bs ! k)))) / of_nat n -
    exact_share bs k\<bar> \<le> 2 * e + 1 / 2 ^ 44"
proof -
  let ?c = "of_nat (count_list (latency_picks (map Fin (map draws [0..<n])) r bs s) (Some (backend_id (bs ! k)))) :: rat"
  have "\<forall>d \<in> set (map draws [0..<n]). 0 \<le> d \<and> d \<le> 1" "evenly_drawn e (map draws [0..<n])"
    using assms(1) by (auto simp: fair_draws_def less_imp_le)
  moreover have "length bs \<le> 2 ^ 32" using assms(3) by simp
  ultimately have "\<bar>?c - exact_share bs k * of_nat n\<bar> \<le> (2 * e + 2 * rounding_margin (length bs)) * of_nat n"
    using shares_within [OF _ assms(4-9)] by fastforce
  then have "\<bar>?c / of_nat n - exact_share bs k\<bar> \<le> 2 * e + 2 * rounding_margin (length bs)"
    using assms(2) by (simp add: field_simps abs_le_iff)
  moreover have "2 * rounding_margin (length bs) \<le> 1 / 2 ^ 44"
  proof -
    have "(of_nat (length bs) :: rat) \<le> 10" using assms(3) by (metis of_nat_le_iff of_nat_numeral)
    then show ?thesis by (simp add: rounding_margin_def)
  qed
  ultimately show ?thesis by linarith
qed

lemma latency_picks_ok:
  assumes "bs \<noteq> []" "length bs \<le> 2 ^ 32" "backend_id ` set bs \<subseteq> {..<k}"
  shows "counts_ok k (latency_picks draws r bs s)"
proof (induction draws arbitrary: s)
  case (Cons draw draws)
  obtain i where i: "fst (latency_aware_select draw r bs s) = Some i" "i \<in> backend_id ` set bs"
    using la.sel_cases [OF assms(2)] assms(1) by blast
  have "i < k" using i(2) assms(3) by blast
  then show ?case using i(1) Cons by (simp add: latency_picks.simps counts_ok_def split_def)
qed (simp add: latency_picks.simps counts_ok_def)

lemma counts_ok_None: "counts_ok k picks \<Longrightarrow> None \<notin> set picks"
  by (auto simp: counts_ok_def list_all_iff)

text \<open>A count close to an exact share, compared in floating point with a quotient.\<close>

lemma within_share:
  assumes "\<bar>of_nat c / of_nat n - q\<bar> \<le> e" "e < t - 1 / 2 ^ 40" "c \<le> n" "0 < n" "n \<le> 2 ^ 32" "0 \<le> q" "q \<le> 1" "t \<le> 1"
  shows "within_f64 (to_f64 t) (quotient_f64 c n) (Fin (rnd q))"
proof -
  have "0 \<le> (of_nat c / of_nat n :: rat)" "(of_nat c / of_nat n :: rat) \<le> 1" using assms(3,4) by (simp_all add: divide_le_eq)
  then show ?thesis using quotient_f64_rnd [OF assms(4,5,3)] within_f64_rnd [of "of_nat c / of_nat n" q t] assms by simp
qed

lemma length_latency_picks: "length (latency_picks draws r bs s) = length draws"
  by (induction draws arbitrary: s) (simp_all add: latency_picks.simps split_def)

lemma count_picks_le: "count_list (latency_picks (map Fin (map draws [0..<n])) r bs s) p \<le> n"
  using count_le_length [of "latency_picks (map Fin (map draws [0..<n])) r bs s" p] by (simp add: length_latency_picks)

lemma effective_sampled:
  assumes "\<forall>l \<in> set raw. 0 < l \<and> unat l \<le> 2 ^ 53"
  shows "effective_latencies raw = map (\<lambda>l. Fin (of_nat (unat l))) raw"
  using assms by (auto simp: effective_latencies_def f64_of_u64_def f64_of_nat_exact)

lemma exact_share_bounds: "0 \<le> exact_share bs k" "exact_share bs k \<le> 1"
  using share_before_mono [of k "Suc k" bs] share_before_bounds [of bs k] share_before_bounds [of bs "Suc k"]
  by (simp_all add: exact_share_def)

lemma within_fair_share:
  assumes "fair_draws e n draws" "0 < n" "n \<le> 2 ^ 32" "length bs \<le> 10" "distinct (map backend_id bs)"
    and "b \<in> set bs" "c \<in> set bs" "ewma_latency_us b \<noteq> 0"
    and "6 * unat (ewma_latency_us b) \<le> 5 * unat (ewma_latency_us c)" "k < length bs"
    and "2 * e + 1 / 2 ^ 44 < t - 1 / 2 ^ 40" "t \<le> 1" "backend_id (bs ! k) = i" "exact_share bs k = q"
  shows "within_f64 (to_f64 t) (quotient_f64 (count_list (latency_picks (map Fin (map draws [0..<n])) r bs s) (Some i)) n)
    (Fin (rnd q))"
  using shares_of_fair_draws [OF assms(1,2,4-10)] exact_share_bounds [of bs k] assms(2,3,11-14)
  by (intro within_share count_picks_le) auto

lemma shares_follow_inverse_latency_passes:
  assumes "fair_draws (1 / 100) 20000 draws"
  shows "shares_follow_inverse_latency draws now"
proof -
  define b where "b = test_backends now 3"
  define bs where "bs = [(b ! 0)\<lparr>ewma_latency_us := 100\<rparr>, (b ! 1)\<lparr>ewma_latency_us := 200\<rparr>, (b ! 2)\<lparr>ewma_latency_us := 400\<rparr>]"
  have b: "backend_id (b ! 0) = 0" "backend_id (b ! 1) = 1" "backend_id (b ! 2) = 2"
    "weight (b ! 0) = 1" "weight (b ! 1) = 1" "weight (b ! 2) = 1"
    by (simp_all add: b_def test_backends_def new_backend_def)
  have "effective_latencies (map ewma_latency_us bs) = [Fin 100, Fin 200, Fin 400]"
    by (subst effective_sampled) (simp_all add: bs_def word_less_nat_alt)
  then have "exact_weights bs = [1 / 100, 1 / 200, 1 / 400]"
    by (simp add: exact_weights_def) (simp add: bs_def shares_def b del: One_nat_def)
  then have share: "exact_share bs 0 = 4 / 7" "exact_share bs 1 = 2 / 7" "exact_share bs 2 = 1 / 7"
    by (simp_all add: exact_share_def share_before_def numeral_2_eq_2)
  have gap: "bs ! 0 \<in> set bs" "bs ! 2 \<in> set bs" "ewma_latency_us (bs ! 0) \<noteq> 0"
    "6 * unat (ewma_latency_us (bs ! 0)) \<le> 5 * unat (ewma_latency_us (bs ! 2))"
    by (simp_all add: bs_def)
  have bs: "length bs \<le> 10" "distinct (map backend_id bs)" "backend_id ` set bs \<subseteq> {..<3}" "bs \<noteq> []" "length bs = 3"
    "backend_id (bs ! 0) = 0" "backend_id (bs ! 1) = 1" "backend_id (bs ! 2) = 2"
    using b by (simp_all add: bs_def del: One_nat_def)
  note within = within_fair_share [OF assms _ _ bs(1,2) gap, where t = "3 / 100" and r = "test_req :: unit incoming_request" and s = new_latency_aware]
  show ?thesis
    using latency_picks_ok [OF bs(4) _ bs(3)] within [OF _ _ _ _ _ bs(6) share(1)] within [OF _ _ _ _ _ bs(7) share(2)]
      within [OF _ _ _ _ _ bs(8) share(3)]
    by (simp add: shares_follow_inverse_latency_def Let_def b_def [symmetric] bs_def [symmetric] quotient_f64_rnd bs(5) del: One_nat_def)
qed

lemma config_weight_multiplies_the_inverse_latency_passes:
  assumes "fair_draws (1 / 100) 20000 draws"
  shows "config_weight_multiplies_the_inverse_latency draws now"
proof -
  define bs where "bs =
    [(new_backend 0 ''http://b0'' 4 (default_breaker now))\<lparr>ewma_latency_us := 400\<rparr>,
     (new_backend 1 ''http://b1'' 1 (default_breaker now))\<lparr>ewma_latency_us := 100\<rparr>]"
  have "effective_latencies (map ewma_latency_us bs) = [Fin 400, Fin 100]"
    by (subst effective_sampled) (simp_all add: bs_def word_less_nat_alt)
  then have "exact_weights bs = [1 / 100, 1 / 100]"
    by (simp add: exact_weights_def) (simp add: bs_def shares_def new_backend_def)
  then have share: "exact_share bs 0 = 1 / 2" by (simp add: exact_share_def share_before_def)
  have gap: "bs ! 1 \<in> set bs" "bs ! 0 \<in> set bs" "ewma_latency_us (bs ! 1) \<noteq> 0"
    "6 * unat (ewma_latency_us (bs ! 1)) \<le> 5 * unat (ewma_latency_us (bs ! 0))"
    by (simp_all add: bs_def)
  have bs: "length bs \<le> 10" "distinct (map backend_id bs)" "backend_id ` set bs \<subseteq> {..<2}" "bs \<noteq> []" "length bs = 2"
    "backend_id (bs ! 0) = 0"
    by (simp_all add: bs_def new_backend_def)
  note within = within_fair_share [OF assms _ _ bs(1,2) gap, where t = "3 / 100" and r = "test_req :: unit incoming_request" and s = new_latency_aware]
  show ?thesis
    using counts_ok_None [OF latency_picks_ok [OF bs(4) _ bs(3)]] within [OF _ _ _ _ _ bs(6) share]
    by (simp add: config_weight_multiplies_the_inverse_latency_def Let_def bs_def [symmetric] bs(5)
        rnd_representable [OF representable_half] del: One_nat_def)
qed

lemma close_pair:
  fixes a b :: rat
  shows "\<bar>a - s\<bar> \<le> e \<Longrightarrow> \<bar>b - s\<bar> \<le> e \<Longrightarrow> 2 * e < t \<Longrightarrow> \<bar>b - a\<bar> < t"
  by linarith

lemma median_of_two: "sampled_latencies [100000, 300000, 0] = [Fin 100000, Fin 300000]"
  by (simp add: sampled_latencies_def f64_of_u64_def f64_of_nat_exact word_less_nat_alt less_eq_f64_def)

lemma weighted_path_with_one_unsampled_backend_passes:
  assumes "fair_draws (7 / 1000) 20000 draws"
  shows "weighted_path_with_one_unsampled_backend draws now"
proof -
  define bs where "bs =
    [(weighted now 0 1)\<lparr>ewma_latency_us := 100000\<rparr>, (weighted now 1 1)\<lparr>ewma_latency_us := 300000\<rparr>, weighted now 2 1]"
  have "ewma_latency_us (weighted now 2 1) = 0" by (simp add: weighted_def new_backend_def)
  then have "effective_latencies (map ewma_latency_us bs) = [Fin 100000, Fin 300000, Fin 300000]"
    by (simp add: effective_latencies_def bs_def median_of_two median_latency_def f64_of_u64_def f64_of_nat_exact word_less_nat_alt)
  then have "exact_weights bs = [1 / 100000, 1 / 300000, 1 / 300000]"
    by (simp add: exact_weights_def) (simp add: bs_def shares_def weighted_def new_backend_def)
  then have share: "exact_share bs 1 = 1 / 5" "exact_share bs 2 = 1 / 5"
    by (simp_all add: exact_share_def share_before_def numeral_2_eq_2)
  have gap: "bs ! 0 \<in> set bs" "bs ! 1 \<in> set bs" "ewma_latency_us (bs ! 0) \<noteq> 0"
    "6 * unat (ewma_latency_us (bs ! 0)) \<le> 5 * unat (ewma_latency_us (bs ! 1))"
    by (simp_all add: bs_def)
  have bs: "length bs \<le> 10" "distinct (map backend_id bs)" "backend_id ` set bs \<subseteq> {..<3}" "bs \<noteq> []" "length bs = 3"
    "backend_id (bs ! 1) = 1" "backend_id (bs ! 2) = 2"
    by (simp_all add: bs_def weighted_def new_backend_def)
  let ?p = "latency_picks (map Fin (map draws [0..<20000])) (test_req :: unit incoming_request) bs new_latency_aware"
  let ?q = "\<lambda>i. of_nat (count_list ?p (Some i)) / of_nat 20000 :: rat"
  have "\<bar>?q 1 - 1 / 5\<bar> \<le> 2 * (7 / 1000) + 1 / 2 ^ 44" "\<bar>?q 2 - 1 / 5\<bar> \<le> 2 * (7 / 1000) + 1 / 2 ^ 44"
    using shares_of_fair_draws [OF assms _ bs(1,2) gap, of 1 "test_req :: unit incoming_request" new_latency_aware]
      shares_of_fair_draws [OF assms _ bs(1,2) gap, of 2 "test_req :: unit incoming_request" new_latency_aware]
    unfolding bs(6,7) share bs(5) by simp_all
  then have "\<bar>?q 2 - ?q 1\<bar> < 3 / 100 - 1 / 2 ^ 40" by (rule close_pair) simp
  moreover have "0 \<le> ?q i" "?q i \<le> 1" for i
    using count_picks_le [where n = 20000 and p = "Some i"] by simp_all
  ultimately have "within_f64 (to_f64 (3 / 100)) (Fin (rnd (?q 2))) (Fin (rnd (?q 1)))"
    by (intro within_f64_rnd) simp_all
  moreover have "count_list ?p (Some i) \<le> 20000" for i by (rule count_picks_le)
  ultimately show ?thesis
    using latency_picks_ok [OF bs(4) _ bs(3), where draws = "map Fin (map draws [0..<20000])"]
    by (simp add: weighted_path_with_one_unsampled_backend_def Let_def bs_def [symmetric] quotient_f64_rnd bs(5) del: One_nat_def)
qed

lemma third_of_turns: "length (filter (\<lambda>k. [0, 1, 2 :: nat] ! (k mod 3) = 2) [0..<3 * m]) = m"
proof (induction m)
  case (Suc m)
  have three: "3 * Suc m = Suc (Suc (Suc (3 * m)))" by simp
  have "Suc (3 * m) mod 3 = 1" "Suc (Suc (3 * m)) mod 3 = 2" by presburger+
  then show ?case using Suc unfolding three by simp
qed simp

text \<open>The median makes all latencies equal here, and the draws do not matter.\<close>

lemma unsampled_backend_gets_the_median_latency_not_a_tiny_one_passes:
  "unsampled_backend_gets_the_median_latency_not_a_tiny_one draws now"
proof -
  define b where "b = test_backends now 3"
  define bs where "bs = [(b ! 0)\<lparr>ewma_latency_us := 100000\<rparr>, (b ! 1)\<lparr>ewma_latency_us := 100000\<rparr>, b ! 2]"
  have b: "backend_id (b ! 0) = 0" "backend_id (b ! 1) = 1" "backend_id (b ! 2) = 2"
    "weight (b ! 0) = 1" "weight (b ! 1) = 1" "weight (b ! 2) = 1" "ewma_latency_us (b ! 2) = 0"
    by (simp_all add: b_def test_backends_def new_backend_def)
  have bs: "bs \<noteq> []" "length bs \<le> 2 ^ 32" "ewma_latency_us ` set bs \<subseteq> {0, 100000}" by (simp_all add: bs_def b)
  have "slots bs = [0, 1, 2]" by (simp add: bs_def slots_def shares_def b del: One_nat_def) simp
  then have picks: "latency_picks (map Fin (map draws [0..<6000])) (test_req :: unit incoming_request) bs new_latency_aware =
      map (\<lambda>k. Some ([0, 1, 2] ! (k mod 3))) [0..<6000]"
    using round_robin_picks_nth [OF bs(1,2), of "\<lparr>counter = 0\<rparr>" 6000]
    by (simp add: latency_picks_level [OF bs] new_latency_aware_def)
  have "count_list (map (\<lambda>k. Some ([0, 1, 2] ! (k mod 3))) [0..<6000]) (Some (2 :: nat)) = 2000"
    using third_of_turns [of 2000] by (simp add: count_list_map)
  moreover have "within_f64 (to_f64 (5 / 100)) (quotient_f64 2000 6000) (quotient_f64 1 3)"
    using within_f64_rnd [of "1 / 3" "1 / 3" "5 / 100"] by (simp add: quotient_f64_rnd)
  ultimately show ?thesis
    unfolding unsampled_backend_gets_the_median_latency_not_a_tiny_one_def Let_def b_def [symmetric] bs_def [symmetric] picks
    by auto
qed

section \<open>routing/ring.rs\<close>

definition keys :: "(string \<Rightarrow> string) \<Rightarrow> nat \<Rightarrow> u64 list" where
  "keys sha256 n = map (\<lambda>i. hash_key sha256 (''prompt-'' @ show_nat i)) [0..<n]"

definition removing_one_of_ten_backends_moves_at_most_15_percent_of_keys :: "(string \<Rightarrow> string) \<Rightarrow> bool" where
  "removing_one_of_ten_backends_moves_at_most_15_percent_of_keys sha256 =
     (let r = new_ring sha256 10 DEFAULT_VNODES;
          ks = keys sha256 10000;
          before = map (\<lambda>k. lookup r k (\<lambda>_. True)) ks;
          after = map (\<lambda>k. lookup r k (\<lambda>i. i \<noteq> 3)) ks;
          moved = length (filter (\<lambda>(b, a). b \<noteq> a) (zip before after))
      in None \<notin> set before \<and> None \<notin> set after \<and> moved \<le> 1500 \<and>
         list_all (\<lambda>(b, a). b \<noteq> a \<longrightarrow> b = Some 3) (zip before after) \<and> Some 3 \<notin> set after)"

definition keys_are_spread_evenly :: "(string \<Rightarrow> string) \<Rightarrow> bool" where
  "keys_are_spread_evenly sha256 =
     (let r = new_ring sha256 10 DEFAULT_VNODES;
          picks = map (\<lambda>k. lookup r k (\<lambda>_. True)) (keys sha256 20000)
      in counts_ok 10 picks \<and>
         list_all (\<lambda>i. 1000 \<le> count_list picks (Some i) \<and> count_list picks (Some i) \<le> 3000) [0..<10])"

lemma lookup_default_ring: "P i \<Longrightarrow> i < n \<Longrightarrow> lookup (new_ring sha n DEFAULT_VNODES) k P \<noteq> None"
  by (rule lookup_new_ring_total) (simp_all add: DEFAULT_VNODES_def)

lemma lookup_new_ring_range: "lookup (new_ring sha n v) k P = Some i \<Longrightarrow> i < n"
  by (auto dest!: lookup_Some simp: points_new_ring)

text \<open>Taking backend 3 out moves the keys it owned, and no others.\<close>

lemma lookup_without:
  assumes "lookup r k (\<lambda>_. True) \<noteq> None" "lookup r k (\<lambda>i. i \<noteq> j) \<noteq> None"
  shows "lookup r k (\<lambda>_. True) \<noteq> lookup r k (\<lambda>i. i \<noteq> j) \<longleftrightarrow> lookup r k (\<lambda>_. True) = Some j"
proof
  assume "lookup r k (\<lambda>_. True) \<noteq> lookup r k (\<lambda>i. i \<noteq> j)"
  then show "lookup r k (\<lambda>_. True) = Some j"
    using lookup_restrict [of "\<lambda>i. i \<noteq> j" "\<lambda>_. True" r k] assms(1) by fastforce
qed (use assms(2) lookup_Some in fastforce)

text \<open>So what the test asks of the digest is that backend 3 owns at most 15 percent of the keys.\<close>

lemma removing_one_of_ten_backends_passes_iff:
  "removing_one_of_ten_backends_moves_at_most_15_percent_of_keys sha \<longleftrightarrow>
     length (filter (\<lambda>k. lookup (new_ring sha 10 DEFAULT_VNODES) k (\<lambda>_. True) = Some 3) (keys sha 10000)) \<le> 1500"
proof -
  let ?r = "new_ring sha 10 DEFAULT_VNODES"
  have some: "lookup ?r k (\<lambda>_. True) \<noteq> None" "lookup ?r k (\<lambda>i. i \<noteq> 3) \<noteq> None" for k
    using lookup_default_ring [of "\<lambda>_. True" 0 10] lookup_default_ring [of "\<lambda>i. i \<noteq> 3" 0 10] by simp_all
  have "Some 3 \<noteq> lookup ?r k (\<lambda>i. i \<noteq> 3)" for k using lookup_Some [of ?r k "\<lambda>i. i \<noteq> 3" 3] by auto
  moreover have "None \<notin> set (map (\<lambda>k. lookup ?r k (\<lambda>_. True)) ks)" "None \<notin> set (map (\<lambda>k. lookup ?r k (\<lambda>i. i \<noteq> 3)) ks)" for ks
    using some [symmetric] by (simp_all add: image_iff)
  ultimately show ?thesis
    unfolding removing_one_of_ten_backends_moves_at_most_15_percent_of_keys_def Let_def
    using lookup_without [OF some]
    by (simp add: zip_map1 zip_map2 zip_same_conv_map filter_map comp_def list_all_iff image_iff split_def)
qed

lemma keys_are_spread_evenly_passes_iff:
  "keys_are_spread_evenly sha \<longleftrightarrow>
     (\<forall>i < 10. length (filter (\<lambda>k. lookup (new_ring sha 10 DEFAULT_VNODES) k (\<lambda>_. True) = Some i) (keys sha 20000)) \<in> {1000..3000})"
proof -
  have "counts_ok 10 (map (\<lambda>k. lookup (new_ring sha 10 DEFAULT_VNODES) k (\<lambda>_. True)) ks)" for ks
    using lookup_default_ring [of "\<lambda>_. True" 0 10 sha] lookup_new_ring_range [of sha 10]
    by (auto simp: counts_ok_def list_all_iff split: option.split)
  then show ?thesis
    by (simp add: keys_are_spread_evenly_def Let_def count_list_map list_all_iff Ball_def)
qed

section \<open>routing/prefix_cache.rs\<close>

definition prompt_request :: "string \<Rightarrow> json incoming_request" where
  "prompt_request text =
     \<lparr>req_path = ''/v1/completions'', req_body = Some (J_object [(''prompt'', J_string (chars text))])\<rparr>"

definition different_prefixes_spread_across_backends :: "(string \<Rightarrow> string) \<Rightarrow> instant \<Rightarrow> bool" where
  "different_prefixes_spread_across_backends sha256 now =
     (let strategy = new_prefix_cache sha256 256 10;
          b = test_backends now 10;
          picks = map (\<lambda>i. fst (prefix_cache_select sha256 serde_json
            (prompt_request (''unique prompt number '' @ show_nat i @ '' with distinct content'')) b strategy)) [0..<20]
      in None \<notin> set picks \<and> 1 < card (set picks))"

definition losing_one_backend_moves_few_prefixes :: "(string \<Rightarrow> string) \<Rightarrow> instant \<Rightarrow> bool" where
  "losing_one_backend_moves_few_prefixes sha256 now =
     (let strategy = new_prefix_cache sha256 256 10;
          all_b = test_backends now 10;
          without_3 = filter (\<lambda>b. backend_id b \<noteq> 3) all_b;
          pick = (\<lambda>bs i. fst (prefix_cache_select sha256 serde_json
            (prompt_request (''conversation '' @ show_nat i @ '' starts here'')) bs strategy));
          moved = filter (\<lambda>i. pick all_b i \<noteq> pick without_3 i) [0..<2000]
      in list_all (\<lambda>i. pick all_b i \<noteq> None \<and> pick without_3 i \<noteq> None) [0..<2000] \<and>
         list_all (\<lambda>i. pick all_b i = Some 3) moved \<and> length moved \<le> 300)"

text \<open>The second half of \<open>array_form_system_prompt_keeps_locality\<close>.\<close>

definition array_prompts_hash_apart :: "(string \<Rightarrow> string) \<Rightarrow> instant \<Rightarrow> bool" where
  "array_prompts_hash_apart sha256 now =
     (let strategy = new_prefix_cache sha256 16 10;
          b = test_backends now 10;
          spread = map (\<lambda>i. fst (prefix_cache_select sha256 serde_json
            \<lparr>req_path = ''/v1/chat/completions'',
             req_body = Some (chat [(''system'', J_array [J_object [(''type'', J_string (chars ''text'')),
               (''text'', J_string (chars (''system prompt variant '' @ show_nat i)))]])])\<rparr> b strategy)) [0..<20]
      in None \<notin> set spread \<and> 1 < card (set spread))"

text \<open>
  A short prompt is hashed as a whole, so its backend is the owner of the nearest point. The
  owner depends on the digest only.
\<close>

definition owner :: "(string \<Rightarrow> string) \<Rightarrow> nat \<Rightarrow> string \<Rightarrow> nat option" where
  "owner sha256 n text = lookup (new_ring sha256 n DEFAULT_VNODES) (hash_key sha256 (as_bytes (chars text))) (\<lambda>_. True)"

lemma extract_prompt:
  assumes "length text \<le> 1024"
  shows "extract_prefix serde_json (new_prefix_cache sha 256 n) (req_body (prompt_request text)) = chars text"
  using assms by (simp add: prompt_request_def json_eval)

lemma select_chars:
  assumes "extract_prefix serde_json s (req_body r) = chars text" "text \<noteq> []" "bs \<noteq> []"
    and "ring s = new_ring sha n DEFAULT_VNODES"
  shows "fst (prefix_cache_select sha serde_json r bs s) =
    lookup (new_ring sha n DEFAULT_VNODES) (hash_key sha (as_bytes (chars text))) (\<lambda>i. i \<in> backend_id ` set bs)"
proof -
  have "(\<lambda>i. i \<in> backend_id ` set bs) = (\<lambda>i. \<exists>b \<in> set bs. backend_id b = i)" by auto
  then show ?thesis using select_by_prefix [of serde_json s r bs sha] assms by simp
qed

lemma lookup_in_range:
  "lookup (new_ring sha n v) k (\<lambda>i. i < n \<and> P i) = lookup (new_ring sha n v) k P"
proof -
  have "i < n" if "i \<in> snd ` set (clockwise (new_ring sha n v) k)" for i
    using that by (auto simp: set_clockwise points_new_ring)
  then show ?thesis by (simp add: lookup_clockwise cong: find_cong) (rule find_cong; auto)
qed

lemma test_backends_ids: "backend_id ` set (test_backends now n) = {..<n}"
  by (auto simp: test_backends_def new_backend_def image_image lessThan_atLeast0)

lemma prompt_choice:
  assumes "length text \<le> 1024" "text \<noteq> []"
  shows "fst (prefix_cache_select sha serde_json (prompt_request text) (test_backends now 10) (new_prefix_cache sha 256 10)) =
    owner sha 10 text"
  using select_chars [OF extract_prompt [OF assms(1)] assms(2), where bs = "test_backends now 10" and n = 10 and sha = sha]
    lookup_in_range [of sha 10 DEFAULT_VNODES _ "\<lambda>_. True"]
  by (simp add: new_prefix_cache_def test_backends_nonempty test_backends_ids owner_def)

lemma short_number: "i < 10000 \<Longrightarrow> 4 \<le> k \<Longrightarrow> length (show_nat i) \<le> k"
  using show_nat_length [of i 3] by simp

text \<open>More than one element of a list of choices.\<close>

lemma spread_iff: "1 < card (f ` {0..<Suc n}) \<longleftrightarrow> (\<exists>i \<le> n. f i \<noteq> f 0)"
proof
  assume more: "1 < card (f ` {0..<Suc n})"
  show "\<exists>i \<le> n. f i \<noteq> f 0"
  proof (rule ccontr)
    assume "\<not> (\<exists>i \<le> n. f i \<noteq> f 0)"
    then have same: "i \<le> n \<Longrightarrow> f i \<in> {f 0}" for i by blast
    have "f ` {0..<Suc n} \<subseteq> {f 0}" by (rule image_subsetI) (rule same, simp)
    from card_mono [OF _ this] have "card (f ` {0..<Suc n}) \<le> 1" by simp
    with more show False by simp
  qed
next
  assume "\<exists>i \<le> n. f i \<noteq> f 0"
  then obtain i where "i \<le> n" "f i \<noteq> f 0" by blast
  then show "1 < card (f ` {0..<Suc n})"
    using card_mono [of "f ` {0..<Suc n}" "{f 0, f i}"] by (simp add: card_insert_if)
qed

lemma owner_Some: "0 < n \<Longrightarrow> owner sha n text \<noteq> None"
  unfolding owner_def using lookup_default_ring [of "\<lambda>_. True" 0 n] by simp

lemma different_prefixes_spread_passes_iff:
  "different_prefixes_spread_across_backends sha now \<longleftrightarrow>
     (\<exists>i \<le> 19. owner sha 10 (''unique prompt number '' @ show_nat i @ '' with distinct content'') \<noteq>
        owner sha 10 (''unique prompt number '' @ show_nat 0 @ '' with distinct content''))"
proof -
  let ?f = "\<lambda>i. owner sha 10 (''unique prompt number '' @ show_nat i @ '' with distinct content'')"
  have "map (\<lambda>i. fst (prefix_cache_select sha serde_json
      (prompt_request (''unique prompt number '' @ show_nat i @ '' with distinct content''))
      (test_backends now 10) (new_prefix_cache sha 256 10))) [0..<20] = map ?f [0..<20]"
    by (intro map_cong refl prompt_choice) (auto intro!: short_number)
  moreover have "None \<notin> set (map ?f [0..<20])" using owner_Some [of 10 sha, symmetric] by (auto simp del: not_None_eq)
  ultimately show ?thesis
    using spread_iff [of ?f 19] unfolding different_prefixes_spread_across_backends_def Let_def by simp
qed

text \<open>Losing backend 3 moves the prompts it owned, and no others.\<close>

lemma prompt_choice_without:
  assumes "length text \<le> 1024" "text \<noteq> []"
  shows "fst (prefix_cache_select sha serde_json (prompt_request text)
      (filter (\<lambda>b. backend_id b \<noteq> 3) (test_backends now 10)) (new_prefix_cache sha 256 10)) =
    lookup (new_ring sha 10 DEFAULT_VNODES) (hash_key sha (as_bytes (chars text))) (\<lambda>i. i \<noteq> 3)"
proof -
  let ?bs = "filter (\<lambda>b. backend_id b \<noteq> 3) (test_backends now 10)"
  have ids: "backend_id ` set ?bs = {i. i < 10 \<and> i \<noteq> 3}" using test_backends_ids [of now 10] by auto
  then have "0 \<in> backend_id ` set ?bs" by simp
  then have "?bs \<noteq> []" by (metis empty_iff image_is_empty set_empty)
  then show ?thesis
    using select_chars [OF extract_prompt [OF assms(1)] assms(2), where bs = ?bs and n = 10 and sha = sha]
      lookup_in_range [of sha 10 DEFAULT_VNODES _ "\<lambda>i. i \<noteq> 3"]
    by (simp add: new_prefix_cache_def ids del: set_filter)
qed

lemma losing_one_backend_passes_iff:
  "losing_one_backend_moves_few_prefixes sha now \<longleftrightarrow>
     length (filter (\<lambda>i. owner sha 10 (''conversation '' @ show_nat i @ '' starts here'') = Some 3) [0..<2000]) \<le> 300"
proof -
  let ?t = "\<lambda>i. ''conversation '' @ show_nat i @ '' starts here''"
  let ?without = "\<lambda>i. lookup (new_ring sha 10 DEFAULT_VNODES) (hash_key sha (as_bytes (chars (?t i)))) (\<lambda>j. j \<noteq> 3)"
  have short: "length (?t i) \<le> 1024" if "i < 2000" for i using that by (auto intro!: short_number)
  have picks: "fst (prefix_cache_select sha serde_json (prompt_request (?t i)) (test_backends now 10) (new_prefix_cache sha 256 10)) =
      owner sha 10 (?t i)"
    "fst (prefix_cache_select sha serde_json (prompt_request (?t i))
      (filter (\<lambda>b. backend_id b \<noteq> 3) (test_backends now 10)) (new_prefix_cache sha 256 10)) = ?without i" if "i < 2000" for i
    using prompt_choice [OF short [OF that]] prompt_choice_without [OF short [OF that]] by simp_all
  have some: "owner sha 10 (?t i) \<noteq> None" "?without i \<noteq> None" for i
    using owner_Some lookup_default_ring [of "\<lambda>j. j \<noteq> 3" 0 10] by simp_all
  have moves: "owner sha 10 (?t i) \<noteq> ?without i \<longleftrightarrow> owner sha 10 (?t i) = Some 3" for i
    using lookup_without some unfolding owner_def by blast
  have moved: "filter (\<lambda>i. fst (prefix_cache_select sha serde_json (prompt_request (?t i)) (test_backends now 10) (new_prefix_cache sha 256 10)) \<noteq>
      fst (prefix_cache_select sha serde_json (prompt_request (?t i))
        (filter (\<lambda>b. backend_id b \<noteq> 3) (test_backends now 10)) (new_prefix_cache sha 256 10))) [0..<2000] =
    filter (\<lambda>i. owner sha 10 (?t i) = Some 3) [0..<2000]"
    using picks moves by (intro filter_cong refl) simp
  show ?thesis unfolding losing_one_backend_moves_few_prefixes_def Let_def moved
    using picks some by (simp add: list_all_iff)
qed

lemma array_prompts_hash_apart_passes_iff:
  "array_prompts_hash_apart sha now \<longleftrightarrow>
     (\<exists>i \<le> 19. owner sha 10 (''system prompt variant '' @ show_nat i) \<noteq> owner sha 10 (''system prompt variant '' @ show_nat 0))"
proof -
  let ?t = "\<lambda>i. ''system prompt variant '' @ show_nat i" and ?f = "\<lambda>i. owner sha 10 (''system prompt variant '' @ show_nat i)"
  let ?r = "\<lambda>i. \<lparr>req_path = ''/v1/chat/completions'',
    req_body = Some (chat [(''system'', J_array [J_object [(''type'', J_string (chars ''text'')),
      (''text'', J_string (chars (?t i)))]])])\<rparr>"
  have whole: "extract_prefix serde_json (new_prefix_cache sha 16 10) (req_body (?r i)) = chars (?t i)" if "i < 20" for i
  proof -
    have "length (?t i) \<le> 64" using that by (auto intro!: short_number)
    then show ?thesis by (simp add: json_eval)
  qed
  have "fst (prefix_cache_select sha serde_json (?r i) (test_backends now 10) (new_prefix_cache sha 16 10)) = ?f i" if "i < 20" for i
    using select_chars [OF whole [OF that], where bs = "test_backends now 10" and n = 10 and sha = sha]
      lookup_in_range [of sha 10 DEFAULT_VNODES _ "\<lambda>_. True"]
    by (simp add: new_prefix_cache_def test_backends_nonempty test_backends_ids owner_def)
  then have "map (\<lambda>i. fst (prefix_cache_select sha serde_json (?r i) (test_backends now 10) (new_prefix_cache sha 16 10))) [0..<20] =
      map ?f [0..<20]" by simp
  moreover have "None \<notin> set (map ?f [0..<20])" using owner_Some [of 10 sha, symmetric] by (auto simp del: not_None_eq)
  ultimately show ?thesis
    using spread_iff [of ?f 19] unfolding array_prompts_hash_apart_def Let_def by simp
qed

end
