(* ===== verification/Proxy_Tests.thy ===== *)
theory Proxy_Tests
  imports Proxy
begin

text \<open>
  The unit tests of proxy.rs, run on the model. Each of them passes. \<open>HeaderValue::to_str\<close> is an
  argument, of which only what it gives on the two content types of the test is used.
\<close>

text \<open>\<open>HeaderMap::append\<close>, one pair after the other, to an empty map.\<close>

definition test_headers :: "(string \<times> string) list \<Rightarrow> headers" where
  "test_headers pairs = fold (\<lambda>(k, v) h. h @ [(k, v)]) pairs []"

definition strips_hop_by_hop_and_framing_headers :: bool where
  "strips_hop_by_hop_and_framing_headers =
     (let h = test_headers
        [(''host'', ''router:8080''),
         (''connection'', ''keep-alive''),
         (''transfer-encoding'', ''chunked''),
         (''content-length'', ''42''),
         (''x-router-backend'', ''http://upstream''),
         (''authorization'', ''Bearer x''),
         (''content-type'', ''application/json'')];
          out = filter_headers h
      in length out = 2 \<and> header_get ''authorization'' out = Some ''Bearer x'' \<and>
         header_get ''content-type'' out = Some ''application/json'' \<and> header_get ''x-router-backend'' out = None)"

definition forward_errors_are_502_for_the_client :: "instant \<Rightarrow> bool" where
  "forward_errors_are_502_for_the_client now \<longleftrightarrow>
     forward_error_status Connect = 502 \<and> forward_error_status (Body now) = 502 \<and> Body now \<noteq> Connect"

definition detects_event_stream_content_type :: "(string \<Rightarrow> string option) \<Rightarrow> bool" where
  "detects_event_stream_content_type to_str \<longleftrightarrow>
     is_event_stream to_str (test_headers [(''content-type'', ''text/event-stream; charset=utf-8'')]) \<and>
     \<not> is_event_stream to_str (test_headers [(''content-type'', ''application/json'')]) \<and>
     \<not> is_event_stream to_str []"

lemma strips_hop_by_hop_and_framing_headers_passes: strips_hop_by_hop_and_framing_headers
  by (simp add: strips_hop_by_hop_and_framing_headers_def test_headers_def is_hop_by_hop_def HOP_BY_HOP_def header_get_def)

lemma forward_errors_are_502_for_the_client_passes: "forward_errors_are_502_for_the_client now"
  by (simp add: forward_errors_are_502_for_the_client_def forward_error_status_def)

lemma detects_event_stream_content_type_passes:
  assumes "to_str ''text/event-stream; charset=utf-8'' = Some ''text/event-stream; charset=utf-8''"
    and "to_str ''application/json'' = Some ''application/json''"
  shows "detects_event_stream_content_type to_str"
  using assms
  by (simp add: detects_event_stream_content_type_def is_event_stream_def test_headers_def header_get_def
      ascii_trim_start_def starts_with_def)

end
