(* ===== verification/Health_Tests.thy ===== *)
theory Health_Tests
  imports Test_Support
begin

text \<open>
  The unit tests of health.rs, run on the model. Each of them passes, down to the decimal numbers
  in the scraped texts, which are rounded to binary64, multiplied and truncated.
\<close>

section \<open>Rounding of given numbers\<close>

lemma rne_near: "\<bar>x - of_int n\<bar> < 1 / 2 \<Longrightarrow> rne x = n"
  using rne_bounds [of x] by linarith

lemma rnd_near:
  assumes "2 powi e \<le> x" "x < 2 powi (e + 1)" "- 1022 \<le> e" "\<bar>x / 2 powi (e - 52) - of_int n\<bar> < 1 / 2"
  shows "rnd x = of_int n * 2 powi (e - 52)"
proof -
  have pos: "0 < x" using powi_pos [of e] assms(1) by linarith
  then have "ilog2 x = e" using ilog2_unique [OF assms(1,2)] by simp
  then have "ulp_exp x = e - 52" using assms(3) by (simp add: ulp_exp_def)
  then show ?thesis using pos rne_near [OF assms(4)] by (simp add: rnd_def rnd_pos_def)
qed

lemma small_f64: "0 \<le> x \<Longrightarrow> x \<le> 2 ^ 50 \<Longrightarrow> to_f64 x = Fin (rnd x)"
  by (rule to_f64_small) (auto intro: order_trans [OF _ pow50_safe])

lemma whole_f64: "numeral n \<le> (2 ^ 50 :: nat) \<Longrightarrow> to_f64 (numeral n) = Fin (numeral n)"
proof -
  assume n: "numeral n \<le> (2 ^ 50 :: nat)"
  then have "(numeral n :: rat) \<le> 2 ^ 50" using of_nat_le_pow [OF n] by simp
  moreover have "rnd (of_nat (numeral n)) = of_nat (numeral n)"
    by (rule rnd_of_nat) (rule order_trans [OF n], simp)
  ultimately show ?thesis by (simp add: small_f64)
qed

text \<open>The shares in the tests, as binary64 holds them, and times 10000.\<close>

lemma shares_f64:
  "to_f64 (4321 / 10000) = Fin (7784021595947165 / 18014398509481984)"
  "to_f64 (1 / 5) = Fin (3602879701896397 / 18014398509481984)"
  "to_f64 (7 / 10) = Fin (3152519739159347 / 4503599627370496)"
  by (subst small_f64, simp, simp, subst rnd_near [of "- 2" _ 7784021595947165] rnd_near [of "- 3" _ 7205759403792794]
        rnd_near [of "- 1" _ 6305039478318694]; simp add: power_int_def power_divide)+

lemma half_f64: "to_f64 (1 / 2) = Fin (1 / 2)"
  using default_rate_value by (simp add: default_failure_rate_def)

lemma basis_points_f64:
  "to_f64 (4865013497466978125 / 1125899906842624) = Fin 4321"
  "to_f64 (2251799813685248125 / 1125899906842624) = Fin 2000"
  "to_f64 (1970324836974591875 / 281474976710656) = Fin 7000"
  by (subst small_f64, simp, simp, subst rnd_near [of 12 _ 4750989743620096] rnd_near [of 10 _ 8796093022208000]
        rnd_near [of 12 _ 7696581394432000]; simp add: power_int_def power_divide)+

section \<open>The tests\<close>

definition fresh_backend :: "instant \<Rightarrow> backend" where
  "fresh_backend now = new_backend 0 ''http://b0'' 1 (default_breaker now)"

definition text_of :: "string list \<Rightarrow> code_points" where
  "text_of ls = concat (map (\<lambda>l. utf l @ [10]) ls)"

definition two_and_two :: health_check_config where
  "two_and_two = \<lparr>interval_secs = 1, unhealthy_threshold = 2, healthy_threshold = 2\<rparr>"

definition parses_exact_metric_names_and_ignores_decoys :: "instant \<Rightarrow> bool" where
  "parses_exact_metric_names_and_ignores_decoys now =
     (let t = text_of
        [''# TYPE vllm:num_requests_waiting gauge'',
         ''vllm:num_requests_waiting{instance=\"x\"} 7'',
         ''vllm:num_requests_waiting_total{instance=\"x\"} 999'',
         ''vllm:kv_cache_usage_perc{instance=\"x\"} 0.4321''];
          b = snd (parse_backend_metrics t (fresh_backend now))
      in queue_depth b = 7 \<and> kv_cache_usage_bp b = 4321)"

definition absent_queue_metric_resets_depth :: "instant \<Rightarrow> bool" where
  "absent_queue_metric_resets_depth now =
     (let b = apply_scrape (text_of [''vllm:kv_cache_usage_perc 0.2'']) ((fresh_backend now)\<lparr>queue_depth := 100\<rparr>)
      in queue_depth b = 0 \<and> kv_cache_usage_bp b = 2000)"

definition parse_returns_whether_queue_depth_was_found :: "instant \<Rightarrow> bool" where
  "parse_returns_whether_queue_depth_was_found now =
     (case parse_backend_metrics (text_of [''vllm:num_requests_waiting 3'']) (fresh_backend now) of (found, b) \<Rightarrow>
        found_queue_depth found \<and>
        \<not> found_queue_depth (fst (parse_backend_metrics (text_of [''vllm:num_requests_waiting_total 3'']) b)))"

definition absent_kv_metric_resets_usage :: "instant \<Rightarrow> bool" where
  "absent_kv_metric_resets_usage now =
     (let b = apply_scrape (text_of [''vllm:num_requests_waiting 2'']) ((fresh_backend now)\<lparr>kv_cache_usage_bp := 5000\<rparr>)
      in kv_cache_usage_bp b = 0 \<and> queue_depth b = 2)"

definition scraped_values_reset_only_once_marked_down :: "instant \<Rightarrow> bool" where
  "scraped_values_reset_only_once_marked_down now =
     (let (scrape1, b1) = record_probe two_and_two False ((fresh_backend now)\<lparr>queue_depth := 9\<rparr>);
          (scrape2, b2) = record_probe two_and_two False b1
      in \<not> scrape1 \<and> queue_depth b1 = 9 \<and> \<not> scrape2 \<and> queue_depth b2 = 0)"

definition sums_queue_depth_and_maxes_kv_usage_across_series :: "instant \<Rightarrow> bool" where
  "sums_queue_depth_and_maxes_kv_usage_across_series now =
     (let t = text_of
        [''vllm:num_requests_waiting{model_name=\"a\"} 3'',
         ''vllm:num_requests_waiting{model_name=\"b\"} 4'',
         ''vllm:kv_cache_usage_perc{model_name=\"a\"} 0.7'',
         ''vllm:kv_cache_usage_perc{model_name=\"b\"} 0.2'']
      in case parse_backend_metrics t (fresh_backend now) of (found, b) \<Rightarrow>
           found_queue_depth found \<and> found_kv_cache found \<and> queue_depth b = 7 \<and> kv_cache_usage_bp b = 7000)"

definition accepts_old_gpu_cache_name :: "instant \<Rightarrow> bool" where
  "accepts_old_gpu_cache_name now =
     (kv_cache_usage_bp (snd (parse_backend_metrics (text_of [''vllm:gpu_cache_usage_perc 0.5'']) (fresh_backend now))) = 5000)"

definition thresholds_add_hysteresis :: "instant \<Rightarrow> bool" where
  "thresholds_add_hysteresis now =
     (let b1 = apply_probe_result two_and_two False (fresh_backend now);
          b2 = apply_probe_result two_and_two False b1;
          b3 = apply_probe_result two_and_two True b2;
          b4 = apply_probe_result two_and_two True b3
      in is_healthy b1 \<and> \<not> is_healthy b2 \<and> \<not> is_healthy b3 \<and> is_healthy b4)"

lemma scraped_values_reset_only_once_marked_down_passes: "scraped_values_reset_only_once_marked_down now"
  by (simp add: scraped_values_reset_only_once_marked_down_def record_probe_def apply_probe_result_fields
      apply_probe_result_frame reset_scraped_def is_healthy_def two_and_two_def fresh_backend_def new_backend_def
      word_le_nat_alt Let_def)

lemma thresholds_add_hysteresis_passes: "thresholds_add_hysteresis now"
  by (simp add: thresholds_add_hysteresis_def apply_probe_result_fields is_healthy_def two_and_two_def
      fresh_backend_def new_backend_def word_le_nat_alt)

text \<open>Lines and tokens of the texts, and the numbers at their ends.\<close>

lemma lines_text_of:
  "list_all (\<lambda>l. 10 \<notin> set (utf l) \<and> strip_cr (utf l) = utf l) ls \<Longrightarrow> lines (text_of ls) = map utf ls"
proof (induction ls)
  case Nil
  then show ?case by (simp add: text_of_def lines.simps)
next
  case (Cons l ls)
  have "takeWhile (\<lambda>c. c \<noteq> 10) (utf l @ 10 # text_of ls) = utf l"
    "dropWhile (\<lambda>c. c \<noteq> 10) (utf l @ 10 # text_of ls) = 10 # text_of ls"
    using Cons.prems by (auto simp: takeWhile_append dropWhile_append)
  moreover have "text_of (l # ls) = utf l @ 10 # text_of ls" by (simp add: text_of_def)
  ultimately show ?case using Cons by (simp add: lines.simps [of "utf l @ 10 # text_of ls"])
qed

text \<open>A scrape is evaluated line by line: name, tokens, number.\<close>

lemma scraped_text:
  assumes "list_all (\<lambda>l. 10 \<notin> set (utf l) \<and> strip_cr (utf l) = utf l) ls"
  shows "parse_backend_metrics (text_of ls) b =
    (let (queue, kv) = fold scrape_line (map utf ls) (None, None);
         b1 = (case queue of Some q \<Rightarrow> b\<lparr>queue_depth := u64_of_f64 q\<rparr> | None \<Rightarrow> b)
     in (\<lparr>found_queue_depth = (queue \<noteq> None), found_kv_cache = (kv \<noteq> None)\<rparr>,
         case kv of Some k \<Rightarrow> b1\<lparr>kv_cache_usage_bp := u64_of_f64 (mul_f64 k (Fin 10000))\<rparr> | None \<Rightarrow> b1))"
  by (simp add: parse_backend_metrics_def lines_text_of [OF assms] split_def Let_def)

lemmas scrape_eval = scraped_text scrape_line_def metric_name_def metric_value_def split_whitespace.simps
  is_whitespace_def utf_def strip_cr_def parse_f64_def parse_decimal_def parse_exponent_def is_digit_def
  digits_value_def to_lower_def power_int_def power_divide the_default_def whole_f64
  half_f64 shares_f64 basis_points_f64 max_f64_def clamp_f64_def lt_f64_def fresh_backend_def new_backend_def

lemma parses_exact_metric_names_and_ignores_decoys_passes: "parses_exact_metric_names_and_ignores_decoys now"
  by (simp add: parses_exact_metric_names_and_ignores_decoys_def scrape_eval)

lemma absent_queue_metric_resets_depth_passes: "absent_queue_metric_resets_depth now"
  by (simp add: absent_queue_metric_resets_depth_def apply_scrape_def scrape_eval)

lemma parse_returns_whether_queue_depth_was_found_passes: "parse_returns_whether_queue_depth_was_found now"
  by (simp add: parse_returns_whether_queue_depth_was_found_def scrape_eval)

lemma absent_kv_metric_resets_usage_passes: "absent_kv_metric_resets_usage now"
  by (simp add: absent_kv_metric_resets_usage_def apply_scrape_def scrape_eval)

lemma sums_queue_depth_and_maxes_kv_usage_across_series_passes: "sums_queue_depth_and_maxes_kv_usage_across_series now"
  by (simp add: sums_queue_depth_and_maxes_kv_usage_across_series_def scrape_eval)

lemma accepts_old_gpu_cache_name_passes: "accepts_old_gpu_cache_name now"
  by (simp add: accepts_old_gpu_cache_name_def scrape_eval)

end
