(* ===== verification/Overflows.thy ===== *)
theory Overflows
  imports Health_Tests
begin

text \<open>
  Three places where machine numbers change what the router does, shown on the model: the prefix
  limit of prefix_cache.rs, which validation does not bound, the queue depth gauge of server.rs,
  whose value comes from the text of a backend, and the cache usage that health.rs truncates.
\<close>

section \<open>The prefix limit\<close>

definition with_prefix_count :: "usize \<Rightarrow> router_config \<Rightarrow> router_config" where
  "with_prefix_count k c =
     c\<lparr>cfg_routing := (cfg_routing c)\<lparr>routing_prefix_cache := \<lparr>prefix_token_count = k\<rparr>\<rparr>\<rparr>"

text \<open>
  Validation accepts any count of prefix tokens. With a count whose product with 4 wraps to 0 (0
  itself, or 2 ^ 62) no request has a prefix, and the strategy picks like least connections,
  whatever the request says.
\<close>

lemma prefix_limit_wraps:
  assumes "config_ok hv c" "k \<in> {0, 2 ^ 62}"
  shows "config_ok hv (with_prefix_count k c) \<and>
    extract_prefix api (new_prefix_cache sha k n) body = [] \<and>
    fst (prefix_cache_select sha api req bs (new_prefix_cache sha k n)) =
      fst (least_connections_select req bs LeastConnections)"
proof -
  have "prefix_char_limit (new_prefix_cache sha k n) = 0" using assms(2) by (auto simp: new_prefix_cache_def)
  then have none: "extract_prefix api (new_prefix_cache sha k n) body = []" for body
    using extract_prefix_length [of api "new_prefix_cache sha k n" body] by simp
  then show ?thesis using assms(1)
    by (simp add: config_ok_def with_prefix_count_def prefix_cache_select_def least_connections_select_def)
qed

section \<open>The queue depth gauge\<close>

text \<open>
  A backend that reports an infinite queue, which the Prometheus text format allows, is stored with
  the greatest \<open>u64\<close>; the next scrape of the router exports that as -1.
\<close>

lemma queue_gauge_negative:
  assumes "i < num_backends w" "backend_at w i = apply_scrape (text_of [''vllm:num_requests_waiting +Inf'']) b"
  shows "queue_depth (backend_at w i) = - 1 \<and>
    gauge_at (metric_log (export_backend now i w)) (''router_backend_queue_depth'', url (backend_at w i)) = Some (- 1)"
proof -
  have stored: "queue_depth (apply_scrape (text_of [''vllm:num_requests_waiting +Inf'']) b) = - 1"
    by (simp add: apply_scrape_def scrape_eval)
  have "gauge_at (metric_log (export_backend now i w)) (''router_backend_queue_depth'', url (backend_at w i)) =
      Some (as_i64 (queue_depth (backend_at w i)))"
    using assms(1)
    by (simp add: export_backend_def exports_def export_connections_def export_health_def export_breaker_def
        export_queue_depth_def export_kv_cache_def split_def frame_simps gauge_at_append)
      (simp add: gauge_at_def map_filter_simps)
  then show ?thesis using assms(2) stored by (simp add: as_i64_def)
qed

section \<open>The cache usage\<close>

text \<open>
  The scrape multiplies the reported ratio by 10000 and truncates, so the product of the rounding
  below a whole number of basis points loses one: 0.0003 is stored as 2.
\<close>

lemma basis_point_lost:
  "unat (kv_cache_usage_bp (apply_scrape (text_of [''vllm:kv_cache_usage_perc 0.0003'']) b)) = 2"
proof -
  have ratio: "to_f64 (3 / 10000) = Fin (5534023222112865 / 18446744073709551616)"
    by (subst small_f64, simp, simp, subst rnd_near [of "- 12" _ 5534023222112865]; simp add: power_int_def power_divide)
  have product: "to_f64 (3458764513820540625 / 1152921504606846976) = Fin (6755399441055743 / 2251799813685248)"
    by (subst small_f64, simp, simp, subst rnd_near [of 1 _ 6755399441055743]; simp add: power_int_def power_divide)
  have "\<lfloor>6755399441055743 / 2251799813685248 :: rat\<rfloor> = 2" by (simp add: floor_eq_iff)
  then show ?thesis by (simp add: apply_scrape_def scrape_eval ratio product)
qed

end
