(* ===== verification/Scrape.thy ===== *)
theory Scrape
  imports Health
begin

text \<open>
  The round trip of a backend's load. The mock backend of the end-to-end tests
  (router-core/tests/support/mock_backend.rs) prints its queue depth and its cache usage, held in
  basis points, in the Prometheus text format; the scrape of health.rs reads them back. The
  comment lines and the metric whose name only begins like the queue depth are passed over.
\<close>

section \<open>The text\<close>

text \<open>\<open>{:.4}\<close> of a non-negative number that is finite.\<close>

definition fixed4 :: "nat \<Rightarrow> string" where
  "fixed4 n = show_nat (n div 10000) @ ''.'' @ map (\<lambda>k. char_of (48 + n div 10 ^ k mod 10)) [3, 2, 1, 0]"

definition show_fixed4 :: "f64 \<Rightarrow> string" where
  "show_fixed4 x = (case x of Fin q \<Rightarrow> fixed4 (nat (rne (q * 10000))) | PInf \<Rightarrow> ''inf'' | NInf \<Rightarrow> ''-inf'' | NaN \<Rightarrow> ''NaN'')"

definition mock_metrics :: "code_points \<Rightarrow> u64 \<Rightarrow> u64 \<Rightarrow> code_points" where
  "mock_metrics name kv_usage_bp queue =
     (let kv = div_f64 (f64_of_u64 kv_usage_bp) (Fin 10000); q = queue in
      utf ''# TYPE vllm:num_requests_waiting gauge'' @ [10] @
      utf ''vllm:num_requests_waiting{instance=\"'' @ name @ utf ''\"} '' @ utf (show_nat (unat q)) @ [10] @
      utf ''vllm:num_requests_waiting_total{instance=\"'' @ name @ utf ''\"} 999'' @ [10] @
      utf ''# TYPE vllm:kv_cache_usage_perc gauge'' @ [10] @
      utf ''vllm:kv_cache_usage_perc{instance=\"'' @ name @ utf ''\"} '' @ utf (show_fixed4 kv) @ [10])"

section \<open>Lines and tokens\<close>

lemma lines_Nil [simp]: "lines [] = []"
  by (simp add: lines.simps)

lemma lines_cons:
  assumes "10 \<notin> set l"
  shows "lines (l @ 10 # t) = strip_cr l # lines t"
proof -
  have "takeWhile (\<lambda>c. c \<noteq> 10) (l @ 10 # t) = l" "dropWhile (\<lambda>c. c \<noteq> 10) (l @ 10 # t) = 10 # t"
    using assms by (simp_all add: takeWhile_append dropWhile_append)
  then show ?thesis by (subst lines.simps) simp
qed

lemma last_token:
  assumes "is_whitespace c" "d \<noteq> []" "\<forall>x \<in> set d. \<not> is_whitespace x"
  shows "split_whitespace (t @ c # d) \<noteq> [] \<and> last (split_whitespace (t @ c # d)) = d"
proof (induction "length t" arbitrary: t rule: less_induct)
  case less
  let ?N = "\<lambda>c. \<not> is_whitespace c"
  have d: "dropWhile is_whitespace d = d" "takeWhile ?N d = d" "dropWhile ?N d = []"
    using assms(2,3) by (cases d; simp)+
  show ?case
  proof (cases "dropWhile is_whitespace t = []")
    case True
    then have "dropWhile is_whitespace (t @ c # d) = d"
      using assms(1) d(1) by (simp add: dropWhile_append)
    then have "split_whitespace (t @ c # d) = [d]"
      using assms(2) by (subst split_whitespace.simps) (simp add: d split_whitespace.simps [of "[]"])
    then show ?thesis by simp
  next
    case False
    let ?u = "dropWhile is_whitespace t"
    have u: "dropWhile is_whitespace (t @ c # d) = ?u @ c # d" using False by (auto simp: dropWhile_append)
    have rest: "dropWhile ?N (?u @ c # d) = dropWhile ?N ?u @ c # d" using assms(1) by (auto simp: dropWhile_append)
    have "\<not> is_whitespace (hd ?u)" using hd_dropWhile [of is_whitespace t] False by simp
    then have "length (dropWhile ?N ?u) < length ?u"
      using False by (cases ?u) (auto simp: length_dropWhile_le le_imp_less_Suc)
    then have "length (dropWhile ?N ?u) < length t" using length_dropWhile_le [of is_whitespace t] by linarith
    from less [OF this] show ?thesis
      by (subst (1 2) split_whitespace.simps) (simp add: u rest Let_def)
  qed
qed

lemma metric_value_last:
  assumes "d \<noteq> []" "\<forall>x \<in> set d. \<not> is_whitespace x"
  shows "metric_value (t @ 32 # d) = parse_f64 d"
proof -
  have "is_whitespace 32" by (simp add: is_whitespace_def)
  from last_token [OF this assms, of t] show ?thesis
    by (cases "split_whitespace (t @ 32 # d)") (simp_all add: metric_value_def)
qed

section \<open>Decimal numbers\<close>

lemma digits_value_append: "digits_value (xs @ ys) = digits_value xs * 10 ^ length ys + digits_value ys"
proof -
  have "foldl (\<lambda>n d. 10 * n + (d - 48)) a ys = a * 10 ^ length ys + foldl (\<lambda>n d. 10 * n + (d - 48)) 0 ys" for a
    by (induction ys rule: rev_induct) (simp_all add: algebra_simps)
  then show ?thesis unfolding digits_value_def foldl_append .
qed

lemma utf_append [simp]: "utf (s @ t) = utf s @ utf t"
  by (simp add: utf_def)

lemma digit_code: "n < 10 \<Longrightarrow> of_char (char_of (48 + n :: nat)) = 48 + n"
  by (simp add: of_char_of)

lemma show_nat_digits: "utf (show_nat n) \<noteq> [] \<and> (\<forall>c \<in> set (utf (show_nat n)). is_digit c) \<and> digits_value (utf (show_nat n)) = n"
proof (induction n rule: show_nat.induct)
  case (1 n)
  show ?case
  proof (cases "n < 10")
    case True
    then show ?thesis using digit_code [OF True] by (simp add: show_nat.simps [of n] utf_def is_digit_def digits_value_def)
  next
    case False
    have m: "n mod 10 < 10" by simp
    from 1 [OF False] False digit_code [OF m] show ?thesis
      by (simp add: show_nat.simps [of n] digits_value_append) (simp add: utf_def is_digit_def digits_value_def)
  qed
qed

text \<open>A text that starts with a digit has no sign and is not a word.\<close>

lemma parse_digits:
  assumes "t \<noteq> []" "is_digit (hd t)"
  shows "parse_f64 t = map_option to_f64 (parse_decimal t)"
proof -
  obtain c cs where t: "t = c # cs" "48 \<le> c" "c \<le> 57" using assms by (cases t) (auto simp: is_digit_def)
  then have "to_lower c = c" "c \<noteq> 45" "c \<noteq> 43" by (simp_all add: to_lower_def)
  then show ?thesis using t by (auto simp: parse_f64_def Let_def utf_def option.map_comp comp_def option.map_ident)
qed

lemma parse_whole:
  assumes "t \<noteq> []" "\<forall>c \<in> set t. is_digit c"
  shows "parse_f64 t = Some (to_f64 (of_nat (digits_value t)))"
proof -
  have parts: "takeWhile is_digit t = t" "dropWhile is_digit t = []" using assms(2) by (simp_all add: takeWhile_eq_all_conv)
  have "parse_decimal t = Some (of_nat (digits_value t))"
    unfolding parse_decimal_def Let_def parts using assms(1) by (simp add: parse_exponent_def)
  then show ?thesis using assms by (simp add: parse_digits)
qed

lemma parse_point:
  assumes "t \<noteq> []" "\<forall>c \<in> set (t @ u). is_digit c"
  shows "parse_f64 (t @ 46 # u) = Some (to_f64 (of_nat (digits_value (t @ u)) / 10 ^ length u))"
proof -
  have "\<not> is_digit 46" by (simp add: is_digit_def)
  then have parts: "takeWhile is_digit (t @ 46 # u) = t" "dropWhile is_digit (t @ 46 # u) = 46 # u"
    "takeWhile is_digit u = u" "dropWhile is_digit u = []"
    using assms(2) by (simp_all add: takeWhile_append dropWhile_append takeWhile_eq_all_conv)
  have "parse_decimal (t @ 46 # u) = Some (of_nat (digits_value (t @ u)) * 10 powi (- int (length u)))"
    unfolding parse_decimal_def Let_def parts using assms(1) by (simp add: parts parse_exponent_def)
  then show ?thesis using assms by (simp add: parse_digits power_int_minus divide_inverse)
qed

lemma four_digits:
  assumes "m < (10000 :: nat)"
  shows "digits_value (utf (map (\<lambda>k. char_of (48 + m div 10 ^ k mod 10)) [3, 2, 1, 0])) = m"
proof -
  have "m div 1000 mod 10 < 10" "m div 100 mod 10 < 10" "m div 10 mod 10 < 10" "m mod 10 < 10" by simp_all
  moreover have "1000 * (m div 1000 mod 10) + 100 * (m div 100 mod 10) + 10 * (m div 10 mod 10) + m mod 10 = m"
  proof -
    define a b c where "a = m div 10" and "b = a div 10" and "c = b div 10"
    have "m = 10 * a + m mod 10" "a = 10 * b + a mod 10" "b = 10 * c + b mod 10" by (simp_all add: a_def b_def c_def)
    moreover have parts: "m div 10 = a" "m div 100 = b" "m div 1000 = c" by (simp_all add: a_def b_def c_def div_mult2_eq [symmetric])
    moreover have "c mod 10 = c" using assms parts(3) by auto
    ultimately show ?thesis unfolding parts by linarith
  qed
  moreover have "m div 1000 mod 10 = m div 1000" using assms by auto
  ultimately show ?thesis by (simp add: utf_def digits_value_def digit_code)
qed

lemma fixed4_digits:
  "utf (map (\<lambda>k. char_of (48 + m div 10 ^ k mod 10)) [3, 2, 1, 0]) = map (\<lambda>k. 48 + m div 10 ^ k mod 10) [3, 2, 1, 0]"
proof -
  have "of_char (char_of (48 + m div 10 ^ k mod 10)) = 48 + m div 10 ^ k mod 10" for k by (rule digit_code) simp
  then show ?thesis by (simp only: utf_def list.map)
qed

lemma utf_fixed4: "utf (fixed4 n) = utf (show_nat (n div 10000)) @ 46 # map (\<lambda>k. 48 + n div 10 ^ k mod 10) [3, 2, 1, 0]"
  unfolding fixed4_def utf_append fixed4_digits by (simp add: utf_def)

lemma parse_fixed4: "parse_f64 (utf (fixed4 n)) = Some (to_f64 (of_nat n / 10000))"
proof -
  let ?u = "map (\<lambda>k. 48 + n div 10 ^ k mod 10) [3, 2, 1, 0]"
  have low: "n div 10 ^ k mod 10 = n mod 10000 div 10 ^ k mod 10" if "k \<in> {3, 2, 1, 0}" for k
  proof -
    have "n div 10 ^ k mod 10 = n mod (10 ^ k * 10) div 10 ^ k" by (simp add: mod_mult2_eq)
    moreover have "n mod 10000 div 10 ^ k mod 10 = n mod 10000 mod (10 ^ k * 10) div 10 ^ k" by (simp add: mod_mult2_eq)
    moreover have "10 ^ k * 10 dvd (10000 :: nat)" using that by auto
    ultimately show ?thesis by (simp add: mod_mod_cancel)
  qed
  have "?u = utf (map (\<lambda>k. char_of (48 + n mod 10000 div 10 ^ k mod 10)) [3, 2, 1, 0])"
    unfolding fixed4_digits by (intro map_cong refl) (simp only: low set_simps)
  then have "digits_value ?u = n mod 10000" using four_digits [of "n mod 10000"] by simp
  then have "digits_value (utf (show_nat (n div 10000)) @ ?u) = n div 10000 * 10000 + n mod 10000"
    using show_nat_digits [of "n div 10000"] by (simp only: digits_value_append) simp
  then have val: "digits_value (utf (show_nat (n div 10000)) @ ?u) = n" by simp
  have "\<forall>c \<in> set ?u. is_digit c" by (auto simp: is_digit_def less_Suc_eq_le [symmetric])
  then have "\<forall>c \<in> set (utf (show_nat (n div 10000)) @ ?u). is_digit c" using show_nat_digits [of "n div 10000"] by auto
  from parse_point [OF _ this] show ?thesis using show_nat_digits [of "n div 10000"] val by (simp only: utf_fixed4) simp
qed

section \<open>The round trip\<close>

text \<open>What four decimals say of a ratio in basis points, and what is left of it after the scrape.\<close>

lemma basis_points_error:
  assumes "n \<le> 10000"
  shows "\<bar>rnd (of_nat n / 10000) * 10000 - of_nat n\<bar> \<le> 1 / 4"
proof -
  let ?x = "of_nat n / 10000 :: rat"
  have "of_nat n \<le> (10000 :: rat)" using assms by (metis of_nat_le_iff of_nat_numeral)
  then have "\<bar>rnd ?x - ?x\<bar> \<le> 1 / 2 ^ 53 + 1 / 2 ^ 60"
    using rnd_error [of ?x] half_subnormal_bounds(2) by (simp add: divide_right_mono)
  then have "\<bar>rnd ?x - ?x\<bar> * 10000 \<le> (1 / 2 ^ 53 + 1 / 2 ^ 60) * 10000" by (intro mult_right_mono) simp_all
  moreover have "\<bar>rnd ?x * 10000 - of_nat n\<bar> = \<bar>rnd ?x - ?x\<bar> * 10000"
  proof -
    have scale: "rnd ?x * 10000 - of_nat n = (rnd ?x - ?x) * 10000" by (simp add: left_diff_distrib)
    show ?thesis unfolding scale abs_mult by simp
  qed
  ultimately show ?thesis by simp
qed

lemma ratio_parsed:
  assumes "n \<le> 10000"
  shows "div_f64 (f64_of_nat n) (Fin 10000) = Fin (rnd (of_nat n / 10000))"
    "to_f64 (of_nat n / 10000) = Fin (rnd (of_nat n / 10000))" "0 \<le> rnd (of_nat n / 10000)" "rnd (of_nat n / 10000) \<le> 1"
proof -
  have "f64_of_nat 10000 = Fin 10000" using f64_of_nat_exact [of 10000] by simp
  then show "div_f64 (f64_of_nat n) (Fin 10000) = Fin (rnd (of_nat n / 10000))" using ratio_f64 [of 10000 n] assms by simp
  have le: "(of_nat n / 10000 :: rat) \<le> 1" using assms by (simp add: divide_le_eq)
  moreover have "(1 :: rat) \<le> safe_bound" unfolding safe_bound_def by simp
  ultimately show "to_f64 (of_nat n / 10000) = Fin (rnd (of_nat n / 10000))" by (intro to_f64_small) simp
  show "0 \<le> rnd (of_nat n / 10000)" by (rule rnd_nonneg) simp
  show "rnd (of_nat n / 10000) \<le> 1" using b64.upper [of 1] le representable_of_nat [of 1] by simp
qed

lemma show_fixed4_bp: "n \<le> 10000 \<Longrightarrow> show_fixed4 (div_f64 (f64_of_nat n) (Fin 10000)) = fixed4 n"
proof -
  assume n: "n \<le> 10000"
  have "\<bar>rnd (of_nat n / 10000) * 10000 - of_nat n\<bar> \<le> 1 / 4" by (rule basis_points_error [OF n])
  then have "rne (rnd (of_nat n / 10000) * 10000) = int n" using rne_bounds [of "rnd (of_nat n / 10000) * 10000"] by linarith
  then show ?thesis using ratio_parsed(1) [OF n] by (simp add: show_fixed4_def)
qed

text \<open>The product is truncated, so a basis point may get lost, but no more.\<close>

lemma basis_points_kept:
  assumes "n \<le> 10000"
  shows "unat (u64_of_f64 (mul_f64 (Fin (rnd (of_nat n / 10000))) (Fin 10000))) \<in> {n - 1, n}"
proof -
  let ?y = "rnd (of_nat n / 10000) * 10000"
  have y: "\<bar>?y - of_nat n\<bar> \<le> 1 / 4" by (rule basis_points_error [OF assms])
  have n: "of_nat n \<le> (10000 :: rat)" using assms by (metis of_nat_le_iff of_nat_numeral)
  have "0 \<le> ?y" using ratio_parsed(3) [OF assms] by simp
  then have nonneg: "0 \<le> rnd ?y" by (rule rnd_nonneg)
  have "representable (of_nat n + 1 / 2)"
    unfolding representable_def using assms by (intro exI [of _ "2 * int n + 1"] exI [of _ "- 1"]) (simp add: field_simps)
  moreover have "?y \<le> of_nat n + 1 / 2" using y by linarith
  ultimately have up: "rnd ?y \<le> of_nat n + 1 / 2" by (rule b64.upper)
  have down: "of_nat n - 1 \<le> rnd ?y"
  proof (cases "n = 0")
    case False
    then have "representable (of_nat n - 1)" using representable_of_nat [of "n - 1"] assms by (simp add: of_nat_diff)
    moreover have "of_nat n - 1 \<le> ?y" using y by linarith
    ultimately show ?thesis by (rule b64.lower)
  qed (use nonneg in simp)
  have "mul_f64 (Fin (rnd (of_nat n / 10000))) (Fin 10000) = Fin (rnd ?y)"
  proof -
    have "?y \<le> of_nat n + 1 / 4" using y by linarith
    also have "\<dots> \<le> 10000 + 1 / 4" using n by simp
    also have "\<dots> \<le> 2 ^ 51" by simp
    finally have "?y \<le> 2 ^ 51" .
    then have "to_f64 ?y = Fin (rnd ?y)" using \<open>0 \<le> ?y\<close> by (intro to_f64_small) (simp add: pow50_safe)
    then show ?thesis by simp
  qed
  moreover have "unat (u64_of_f64 (Fin (rnd ?y))) = nat \<lfloor>rnd ?y\<rfloor>" using nonneg up n by (intro unat_u64_of_f64) simp_all
  moreover have "\<lfloor>rnd ?y\<rfloor> \<le> int n" "int n - 1 \<le> \<lfloor>rnd ?y\<rfloor>" using up down by linarith+
  ultimately show ?thesis by auto
qed

text \<open>The lines of the text, as the scrape sees them.\<close>

lemma no_newline: "10 \<notin> set (utf (show_nat n))" "10 \<notin> set (utf (fixed4 n))"
  using show_nat_digits [of n] show_nat_digits [of "n div 10000"] by (auto simp: is_digit_def utf_fixed4)

lemma ends_in_digit:
  "last (utf (show_nat n)) \<noteq> 13" "last (utf (fixed4 n)) \<noteq> 13"
  using show_nat_digits [of n] last_in_set [of "utf (show_nat n)"] by (force simp: is_digit_def, simp add: utf_fixed4)

lemma no_space:
  "\<forall>c \<in> set (utf (show_nat n)). \<not> is_whitespace c" "\<forall>c \<in> set (utf (fixed4 n)). \<not> is_whitespace c"
proof -
  have digit: "is_digit c \<Longrightarrow> \<not> is_whitespace c" for c by (auto simp: is_digit_def is_whitespace_def)
  then show "\<forall>c \<in> set (utf (show_nat n)). \<not> is_whitespace c" using show_nat_digits by blast
  have "\<not> is_whitespace 46" by (simp add: is_whitespace_def)
  moreover have "\<not> is_whitespace (48 + m mod 10)" for m
    using digit [of "48 + m mod 10"] by (simp add: is_digit_def less_Suc_eq_le [symmetric])
  ultimately show "\<forall>c \<in> set (utf (fixed4 n)). \<not> is_whitespace c"
    using digit show_nat_digits [of "n div 10000"] by (auto simp: utf_fixed4 simp del: power_0 power_Suc)
qed

lemma scrape_fixed_lines:
  "scrape_line (utf ''# TYPE vllm:num_requests_waiting gauge'') acc = acc"
  "scrape_line (utf ''# TYPE vllm:kv_cache_usage_perc gauge'') acc = acc"
  "scrape_line (utf ''vllm:num_requests_waiting_total{instance=\"'' @ rest) acc = acc"
  by (cases acc; simp add: scrape_line_def metric_name_def utf_def is_whitespace_def)+

lemma scrape_queue_line:
  "scrape_line (utf ''vllm:num_requests_waiting{instance=\"'' @ name @ utf ''\"} '' @ utf (show_nat n)) (None, kv) =
     (Some (add_f64 (Fin 0) (max_f64 (to_f64 (of_nat n)) (Fin 0))), kv)"
proof -
  let ?l = "utf ''vllm:num_requests_waiting{instance=\"'' @ name @ utf ''\"} '' @ utf (show_nat n)"
  have "?l = (utf ''vllm:num_requests_waiting{instance=\"'' @ name @ utf ''\"}'') @ 32 # utf (show_nat n)" by (simp add: utf_def)
  then have "metric_value ?l = parse_f64 (utf (show_nat n))"
    using metric_value_last show_nat_digits no_space(1) by metis
  then have "metric_value ?l = Some (to_f64 (of_nat n))" using parse_whole show_nat_digits by metis
  moreover have "metric_name ?l = utf ''vllm:num_requests_waiting''" "hd ?l = 118"
    by (simp_all add: metric_name_def utf_def is_whitespace_def)
  ultimately show ?thesis by (simp add: scrape_line_def the_default_def)
qed

lemma scrape_kv_line:
  "scrape_line (utf ''vllm:kv_cache_usage_perc{instance=\"'' @ name @ utf ''\"} '' @ utf (fixed4 n)) (queue, None) =
     (queue, Some (clamp_f64 (to_f64 (of_nat n / 10000)) (Fin 0) (Fin 1)))"
proof -
  let ?l = "utf ''vllm:kv_cache_usage_perc{instance=\"'' @ name @ utf ''\"} '' @ utf (fixed4 n)"
  have "?l = (utf ''vllm:kv_cache_usage_perc{instance=\"'' @ name @ utf ''\"}'') @ 32 # utf (fixed4 n)" by (simp add: utf_def)
  moreover have "utf (fixed4 n) \<noteq> []" by (simp add: utf_fixed4)
  ultimately have "metric_value ?l = Some (to_f64 (of_nat n / 10000))"
    using metric_value_last no_space(2) parse_fixed4 by metis
  moreover have "metric_name ?l = utf ''vllm:kv_cache_usage_perc''" "hd ?l = 118" "utf ''vllm:kv_cache_usage_perc'' \<noteq> utf ''vllm:num_requests_waiting''"
    by (simp_all add: metric_name_def utf_def is_whitespace_def)
  ultimately show ?thesis by (simp add: scrape_line_def)
qed

lemma scrape_mock:
  assumes "10 \<notin> set name" "unat kv_bp \<le> 10000"
  shows "fold scrape_line (lines (mock_metrics name kv_bp q)) (None, None) =
    (Some (add_f64 (Fin 0) (max_f64 (to_f64 (of_nat (unat q))) (Fin 0))),
     Some (clamp_f64 (to_f64 (of_nat (unat kv_bp) / 10000)) (Fin 0) (Fin 1)))"
proof -
  have bp: "show_fixed4 (div_f64 (f64_of_u64 kv_bp) (Fin 10000)) = fixed4 (unat kv_bp)"
    using show_fixed4_bp [OF assms(2)] by (simp add: f64_of_u64_def)
  let ?l1 = "utf ''# TYPE vllm:num_requests_waiting gauge''"
    and ?l2 = "utf ''vllm:num_requests_waiting{instance=\"'' @ name @ utf ''\"} '' @ utf (show_nat (unat q))"
    and ?l3 = "utf ''vllm:num_requests_waiting_total{instance=\"'' @ name @ utf ''\"} 999''"
    and ?l4 = "utf ''# TYPE vllm:kv_cache_usage_perc gauge''"
    and ?l5 = "utf ''vllm:kv_cache_usage_perc{instance=\"'' @ name @ utf ''\"} '' @ utf (fixed4 (unat kv_bp))"
  have body: "mock_metrics name kv_bp q = ?l1 @ 10 # ?l2 @ 10 # ?l3 @ 10 # ?l4 @ 10 # ?l5 @ 10 # []"
    by (simp add: mock_metrics_def bp)
  have nl: "10 \<notin> set ?l1" "10 \<notin> set ?l2" "10 \<notin> set ?l3" "10 \<notin> set ?l4" "10 \<notin> set ?l5"
    using assms(1) no_newline by (simp_all only: set_append) (simp_all add: utf_def)
  have ends: "utf (show_nat (unat q)) \<noteq> []" "utf (fixed4 (unat kv_bp)) \<noteq> []"
    using show_nat_digits by (simp_all add: utf_fixed4)
  have cr: "strip_cr ?l1 = ?l1" "strip_cr ?l2 = ?l2" "strip_cr ?l3 = ?l3" "strip_cr ?l4 = ?l4" "strip_cr ?l5 = ?l5"
    using ends ends_in_digit by (simp_all add: strip_cr_def) (simp_all add: utf_def)
  have "lines (mock_metrics name kv_bp q) = [?l1, ?l2, ?l3, ?l4, ?l5]"
    unfolding body by (simp only: lines_cons [OF nl(1)] lines_cons [OF nl(2)] lines_cons [OF nl(3)] lines_cons [OF nl(4)]
        lines_cons [OF nl(5)] lines_Nil cr)
  then show ?thesis
    by (simp only: fold_simps comp_def id_def scrape_fixed_lines scrape_queue_line scrape_kv_line)
qed

text \<open>
  C38. A scrape reads back the load. Of the text that the mock backend prints for a queue of at
  most \<open>2 ^ 53\<close> requests and a usage of at most 10000 basis points, under any name without a
  line feed, the scrape stores exactly that queue, and the usage or one basis point less: the
  product with 10000 is truncated. The similarly named counter that the text contains is not
  counted, and nothing else of the backend changes.
\<close>

theorem scrape_roundtrip:
  assumes "10 \<notin> set name" "unat q \<le> 2 ^ 53" "unat kv_bp \<le> 10000"
  shows "\<exists>k. apply_scrape (mock_metrics name kv_bp q) b = b\<lparr>queue_depth := q, kv_cache_usage_bp := k\<rparr> \<and>
    unat k \<in> {unat kv_bp - 1, unat kv_bp}"
proof -
  have exact: "to_f64 (of_nat m) = Fin (of_nat m)" if "m \<le> 2 ^ 53" for m
    using f64_of_nat_exact [OF that] by (simp add: f64_of_nat_def)
  note q = exact [OF assms(2)]
  have sum: "add_f64 (Fin 0) (max_f64 (Fin (of_nat m)) (Fin 0)) = Fin (of_nat m)" if "m \<le> 2 ^ 53" for m
    using exact [OF that] by (auto simp: max_f64_def lt_f64_def)
  have whole: "unat (u64_of_f64 (Fin (of_nat m))) = m" if "m \<le> 2 ^ 53" for m
    using of_nat_le_pow [OF that] by (subst unat_u64_of_f64) simp_all
  have stored: "u64_of_f64 (Fin (of_nat (unat q))) = q" using whole [OF assms(2)] by (simp only: word_unat_eq_iff)
  have ratio: "clamp_f64 (to_f64 (of_nat (unat kv_bp) / 10000)) (Fin 0) (Fin 1) = Fin (rnd (of_nat (unat kv_bp) / 10000))"
    using ratio_parsed [OF assms(3)] by (simp add: clamp_f64_def lt_f64_def)
  have "apply_scrape (mock_metrics name kv_bp q) b =
      b\<lparr>queue_depth := q, kv_cache_usage_bp := u64_of_f64 (mul_f64 (Fin (rnd (of_nat (unat kv_bp) / 10000))) (Fin 10000))\<rparr>"
    unfolding apply_scrape_def parse_backend_metrics_def scrape_mock [OF assms(1,3)] q sum [OF assms(2)] ratio
      prod.case option.case Let_def stored
    by simp
  then show ?thesis using basis_points_kept [OF assms(3)] by blast
qed

theorem scrape_roundtrip_witness:
  "queue_depth (apply_scrape (mock_metrics (utf ''m1'') 4321 7) warm_backend) = 7 \<and>
   unat (kv_cache_usage_bp (apply_scrape (mock_metrics (utf ''m1'') 4321 7) warm_backend)) \<in> {4320, 4321}"
proof -
  obtain k where "apply_scrape (mock_metrics (utf ''m1'') 4321 7) warm_backend = warm_backend\<lparr>queue_depth := 7, kv_cache_usage_bp := k\<rparr>"
    "unat k \<in> {unat (4321 :: u64) - 1, unat (4321 :: u64)}"
    using scrape_roundtrip [of "utf ''m1''" 7 4321 warm_backend] by (auto simp: utf_def)
  then show ?thesis by simp
qed

end
