(* ===== verification/Exchange.thy ===== *)
theory Exchange
  imports System_Runs Breaker_Spec
begin

text \<open>
  One request from the client's call to the end of the response, when no other task runs in
  between: the handler of server.rs, its backend, and the client that reads the response to its
  end. The backend is an argument, a state machine that answers requests. The theory shows what the
  client gets and that the router is left as it was found.
\<close>

section \<open>The exchange\<close>

text \<open>What comes back from a backend, with the chunks of the body if it is streamed.\<close>

type_synonym 'm upstream = "http_request \<Rightarrow> 'm \<Rightarrow> (upstream_reply \<times> string list) \<times> 'm"

record client_reply =
  cl_status :: status
  cl_headers :: headers
  cl_body :: string

definition error_reply :: "status \<Rightarrow> client_reply" where
  "error_reply st = \<lparr>cl_status = st, cl_headers = [], cl_body = []\<rparr>"

text \<open>The clock readings of an exchange and the third-party code it calls.\<close>

record 'v exchange_env =
  ex_route :: "'v request_env"
  ex_from_slice :: "string \<Rightarrow> 'v option"
  ex_to_str :: "string \<Rightarrow> string option"
  ex_header_ok :: "string \<Rightarrow> bool"
  ex_start :: instant
  ex_headers :: instant
  ex_reply :: "nat \<Rightarrow> instant"

text \<open>The client polls the body until it ends; it gets the chunks that the wrapper lets through.\<close>

fun read_stream ::
  "(nat \<Rightarrow> instant) \<Rightarrow> string list \<Rightarrow> accounted_stream \<Rightarrow> router_state \<Rightarrow> string \<times> router_state" where
  "read_stream ts [] s w =
     (case poll_next ts (Ready_none :: unit poll) s w of (_, _, w') \<Rightarrow> ([], w'))"
| "read_stream ts (c # cs) s w =
     (case poll_next ts (Ready_chunk c :: unit poll) s w of
        (Ready_chunk out, s', w') \<Rightarrow> (case read_stream ts cs s' w' of (rest, w'') \<Rightarrow> (out @ rest, w''))
      | (_, _, w') \<Rightarrow> ([], w'))"

text \<open>A reply with the status 0 stands for a connection that closed without one.\<close>

definition deliver ::
  "(nat \<Rightarrow> instant) \<Rightarrow> string list \<Rightarrow> (response option \<times> request_task) \<times> app_state \<Rightarrow> client_reply \<times> app_state" where
  "deliver ts chunks out =
     (case out of
        ((Some r, _), a) \<Rightarrow>
          (case resp_body r of
             Body_bytes bytes \<Rightarrow>
               (\<lparr>cl_status = resp_status r, cl_headers = resp_headers r, cl_body = bytes\<rparr>, a)
           | Body_stream s \<Rightarrow>
               (case read_stream ts chunks s (shared a) of
                  (text, w) \<Rightarrow>
                    (\<lparr>cl_status = resp_status r, cl_headers = resp_headers r, cl_body = text\<rparr>, a\<lparr>shared := w\<rparr>)))
      | ((None, Replied_with st), a) \<Rightarrow> (error_reply st, a)
      | ((None, _), a) \<Rightarrow> (error_reply 0, a))"

definition exchange ::
  "'m upstream \<Rightarrow> 'v exchange_env \<Rightarrow> client_request \<Rightarrow> body_error + string \<Rightarrow> 'm \<times> app_state \<Rightarrow>
   client_reply \<times> 'm \<times> app_state" where
  "exchange up e cr body ma =
     (case ma of (m, a) \<Rightarrow>
        case handler_admit a of
          (Reading_body, a1) \<Rightarrow>
            (case handler_route (\<lambda>_ x. x) (ex_route e) (ex_from_slice e) (ex_start e) cr body a1 of
               (Awaiting_backend acc bytes, a2) \<Rightarrow>
                 let b = app_backend a2 (acc_backend acc) in
                 (case up (upstream_request b (cr_method cr) (cr_path_and_query cr) (cr_headers cr) bytes) m of
                    ((reply, chunks), m') \<Rightarrow>
                      let res = forward_request (ex_to_str e) (\<lambda>_. reply) (ex_headers e) b (cr_method cr)
                            (cr_path_and_query cr) (cr_headers cr) bytes
                      in (case deliver (ex_reply e) chunks (handler_reply (ex_header_ok e) (ex_reply e) res acc a2) of
                            (r, a3) \<Rightarrow> (r, m', a3)))
             | (Replied_with st, a2) \<Rightarrow> (error_reply st, m, a2)
             | (_, a2) \<Rightarrow> (error_reply 0, m, a2))
        | (Replied_with st, a1) \<Rightarrow> (error_reply st, m, a1)
        | (_, a1) \<Rightarrow> (error_reply 0, m, a1))"

section \<open>Selection by itself\<close>

text \<open>What the strategy chooses among the routable backends, and its state afterwards.\<close>

definition refreshed_app :: "(nat \<Rightarrow> instant) \<Rightarrow> app_state \<Rightarrow> app_state" where
  "refreshed_app ts a = a\<lparr>shared := (shared a)\<lparr>pool := snd (routable ts (pool (shared a)))\<rparr>\<rparr>"

definition routable_set :: "(nat \<Rightarrow> instant) \<Rightarrow> app_state \<Rightarrow> nat list" where
  "routable_set ts a = fst (routable ts (pool (shared a)))"

definition chosen :: "'v request_env \<Rightarrow> 'v incoming_request \<Rightarrow> app_state \<Rightarrow> nat option \<times> strategy" where
  "chosen env req a =
     strategy_select (choice env 0) req
       (map (\<lambda>j. seen env 0 (app_backend (refreshed_app (routable_at env) a) j)) (routable_set (routable_at env) a))
       (strategy_obj a)"

definition alone_ok :: "'v request_env \<Rightarrow> app_state \<Rightarrow> bool" where
  "alone_ok env a \<longleftrightarrow> app_ok (env_sha256 (choice env 0)) a \<and> identity_kept (seen env 0)"

lemma routable_set_range: "j \<in> set (routable_set ts a) \<Longrightarrow> j < num_backends (shared a)"
  by (auto simp: routable_set_def routable_mem available_at_def)

lemma select_alone:
  assumes "alone_ok env a" "routable_set (routable_at env) a \<noteq> []"
  obtains j adm cb where "j \<in> set (routable_set (routable_at env) a)" "fst (chosen env req a) = Some j"
    "try_begin (begin_at env 0) (breaker (app_backend (refreshed_app (routable_at env) a) j)) = (Some adm, cb)"
    "select_backend (\<lambda>_ x. x) env req a =
      (Some (j, adm),
       a\<lparr>shared := on_backend j (\<lambda>b. b\<lparr>breaker := cb\<rparr>) (shared (refreshed_app (routable_at env) a)),
         strategy_obj := snd (chosen env req a)\<rparr>)"
proof -
  let ?c = "routable_set (routable_at env) a" and ?a = "refreshed_app (routable_at env) a"
  have sel: "select_backend (\<lambda>_ x. x) env req a = select_loop (\<lambda>_ x. x) env req 0 ?c ?a"
    by (simp add: select_backend_def scan_routable_alone split_def routable_set_def refreshed_app_def)
  have ok: "app_ok (env_sha256 (choice env 0)) ?a" "identity_kept (seen env 0)"
    using assms(1) app_ok_routable by (simp_all add: alone_ok_def refreshed_app_def)
  have n: "num_backends (shared ?a) = num_backends (shared a)" by (simp add: refreshed_app_def routable_pool(1))
  have dist: "distinct ?c" "set ?c \<subseteq> {..<num_backends (shared ?a)}"
    using routable_set_range n by (auto simp: routable_set_def routable_distinct)
  obtain j where j: "j \<in> set ?c" "fst (pick_candidate (choice env 0) (seen env 0) req ?c ?a) = Some j"
    using pick_candidate_total [OF ok(1) assms(2) dist(2,1) ok(2), of req] by blast
  have ids: "backend_id (app_backend ?a i) = i" if "i < num_backends (shared ?a)" for i
    using ok(1) that by (simp add: app_ok_def state_ok_def pool_ok_def)
  have obj: "strategy_obj ?a = strategy_obj a" by (simp add: refreshed_app_def)
  have found: "find (\<lambda>i. backend_id (app_backend ?a i) = x) ?c = Some i \<Longrightarrow> x = i" for x i
    using find_Some_iff_set dist(2) ids by (metis (mono_tags, lifting) lessThan_iff subsetD)
  have choice: "fst (chosen env req a) = Some j" "snd (pick_candidate (choice env 0) (seen env 0) req ?c ?a) = ?a\<lparr>strategy_obj := snd (chosen env req a)\<rparr>"
    using j(2) by (auto simp: pick_candidate_def chosen_def obj split: prod.splits option.splits dest!: found)
  then have pick: "pick_candidate (choice env 0) (seen env 0) req ?c ?a = (Some j, ?a\<lparr>strategy_obj := snd (chosen env req a)\<rparr>)"
    using j(2) by (metis prod.collapse)
  have "fst (try_begin (begin_at env 0) (breaker (app_backend ?a j))) \<noteq> None"
    using routable_nth_begin [of j "routable_at env" "pool (shared a)" "begin_at env 0"] j(1)
    by (simp add: routable_set_def refreshed_app_def del: not_None_eq)
  then obtain adm cb where beg: "try_begin (begin_at env 0) (breaker (app_backend ?a j)) = (Some adm, cb)"
    by (metis not_None_eq prod.collapse)
  have "select_loop (\<lambda>_ x. x) env req 0 ?c ?a =
      (Some (j, adm), ?a\<lparr>shared := on_backend j (\<lambda>b. b\<lparr>breaker := cb\<rparr>) (shared ?a), strategy_obj := snd (chosen env req a)\<rparr>)"
    using assms(2) pick beg by (simp add: select_loop.simps begin_on_def)
  then show thesis using that [OF j(1) choice(1) beg] sel by (simp add: refreshed_app_def)
qed

section \<open>The effect of an exchange\<close>

definition upstream_outcome :: "(string \<Rightarrow> string option) \<Rightarrow> upstream_reply \<Rightarrow> outcome" where
  "upstream_outcome to_str reply =
     (case reply of
        Send_failed \<Rightarrow> TransportError
      | Replied st hs full \<Rightarrow>
          if is_event_stream to_str (filter_headers hs) \<or> full \<noteq> None then Completed st else StreamError)"

text \<open>What the client is to see of the reply of a backend.\<close>

definition client_view :: "(string \<Rightarrow> string option) \<Rightarrow> string \<Rightarrow> upstream_reply \<Rightarrow> string list \<Rightarrow> client_reply" where
  "client_view to_str u reply chunks =
     (case reply of
        Send_failed \<Rightarrow> error_reply 502
      | Replied st hs full \<Rightarrow>
          let out = filter_headers hs;
              seen = (\<lambda>body. \<lparr>cl_status = st, cl_headers = out @ [(''x-router-backend'', u)], cl_body = body\<rparr>)
          in if is_event_stream to_str out then seen (concat chunks)
             else (case full of None \<Rightarrow> error_reply 502 | Some bytes \<Rightarrow> seen bytes))"

text \<open>The guard with its verdict, after a successful probe was resolved on the headers.\<close>

definition judged ::
  "instant \<Rightarrow> instant \<Rightarrow> outcome \<Rightarrow> request_accounting \<Rightarrow> router_state \<Rightarrow> request_accounting \<times> router_state" where
  "judged h now out acc w =
     (case out of
        Completed st \<Rightarrow>
          (case resolve_probe_on_headers now st (mark_headers_received_at h acc) w of
             (acc1, w1) \<Rightarrow> (acc1\<lparr>acc_outcome := out\<rparr>, w1))
      | StreamError \<Rightarrow> ((mark_headers_received_at h acc)\<lparr>acc_outcome := out\<rparr>, w)
      | _ \<Rightarrow> (acc\<lparr>acc_outcome := out\<rparr>, w))"

definition settled ::
  "(nat \<Rightarrow> instant) \<Rightarrow> instant \<Rightarrow> outcome \<Rightarrow> request_accounting \<Rightarrow> router_state \<Rightarrow> router_state" where
  "settled ts h out acc w = (case judged h (ts 3) out acc w of (acc1, w1) \<Rightarrow> drop_accounting ts acc1 w1)"

lemma read_stream_all:
  assumes "accounting s = Some acc"
  shows "read_stream ts chunks s w = (concat chunks, finish ts (Completed (stream_status s)) acc w)"
  using assms by (induction chunks arbitrary: s) (simp_all add: poll_next_def)

lemma deliver_reply:
  assumes "hv (url (app_backend a (acc_backend acc)))"
  shows "deliver ts chunks (handler_reply hv ts (forward_request to_str (\<lambda>_. reply) h b meth pq hs body) acc a) =
    (client_view to_str (url (app_backend a (acc_backend acc))) reply chunks,
     a\<lparr>shared := settled ts h (upstream_outcome to_str reply) acc (shared a)\<rparr>)"
proof (cases reply)
  case Send_failed
  then show ?thesis
    by (simp add: forward_request_def handler_reply_def finish_forward_error_def deliver_def client_view_def
        upstream_outcome_def settled_def judged_def finish_def forward_error_status_def)
next
  case (Replied st rhs full)
  obtain acc1 w1 where res: "resolve_probe_on_headers (ts 3) st (mark_headers_received_at h acc) (shared a) = (acc1, w1)"
    by fastforce
  show ?thesis
  proof (cases "is_event_stream to_str (filter_headers rhs)")
    case True
    then show ?thesis using assms res Replied
      by (simp add: forward_request_def handler_reply_def into_response_def deliver_def client_view_def Let_def
          upstream_outcome_def settled_def judged_def finish_def read_stream_all new_accounted_stream_def)
  next
    case False
    then show ?thesis using assms res Replied
      by (cases full) (simp_all add: forward_request_def handler_reply_def into_response_def deliver_def client_view_def Let_def
          upstream_outcome_def settled_def judged_def finish_def finish_forward_error_def forward_error_status_def)
  qed
qed

text \<open>The state in which the backend is called: a slot, a connection and an admission are taken.\<close>

definition admitted_at :: "'v request_env \<Rightarrow> 'v incoming_request \<Rightarrow> nat \<Rightarrow> circuit_breaker \<Rightarrow> app_state \<Rightarrow> app_state" where
  "admitted_at env req j cb a =
     a\<lparr>shared := on_backend j record_request_start (on_backend j (\<lambda>b. b\<lparr>breaker := cb\<rparr>)
         ((shared (refreshed_app (routable_at env) a))\<lparr>controller := snd (try_acquire (controller (shared a)))\<rparr>)),
       strategy_obj := snd (chosen env req a)\<rparr>"

definition guard_of :: "'v exchange_env \<Rightarrow> nat \<Rightarrow> admission \<Rightarrow> app_state \<Rightarrow> request_accounting" where
  "guard_of e j adm a =
     \<lparr>acc_backend = j, acc_strategy_name = strategy_name a, acc_ewma_alpha = ewma_alpha a, acc_started = ex_start e,
      headers_at = None, acc_outcome = ClientDisconnect, acc_admission = adm\<rparr>"

definition incoming :: "'v exchange_env \<Rightarrow> client_request \<Rightarrow> string \<Rightarrow> 'v incoming_request" where
  "incoming e cr bytes = \<lparr>req_path = cr_path cr, req_body = ex_from_slice e bytes\<rparr>"

lemma on_backend_controller: "on_backend j f (w\<lparr>controller := c\<rparr>) = (on_backend j f w)\<lparr>controller := c\<rparr>"
  by (simp add: on_backend_def)

lemma exchange_served:
  assumes "alone_ok (ex_route e) a" "in_flight (controller (shared a)) < max_in_flight (controller (shared a))"
    and "routable_set (routable_at (ex_route e)) a \<noteq> []" "\<forall>b \<in> set (backends (pool (shared a))). ex_header_ok e (url b)"
  obtains j adm cb where "j \<in> set (routable_set (routable_at (ex_route e)) a)"
    "fst (chosen (ex_route e) (incoming e cr bytes) a) = Some j"
    "try_begin (begin_at (ex_route e) 0) (breaker (app_backend (refreshed_app (routable_at (ex_route e)) a) j)) = (Some adm, cb)"
    "\<And>(up :: 'm upstream) m reply chunks m'. up (upstream_request (app_backend a j) (cr_method cr) (cr_path_and_query cr) (cr_headers cr) bytes) m =
        ((reply, chunks), m') \<Longrightarrow>
      exchange up e cr (Inr bytes) (m, a) =
        (client_view (ex_to_str e) (url (app_backend a j)) reply chunks, m',
         (let a1 = admitted_at (ex_route e) (incoming e cr bytes) j cb a
          in a1\<lparr>shared := settled (ex_reply e) (ex_headers e) (upstream_outcome (ex_to_str e) reply) (guard_of e j adm a) (shared a1)\<rparr>))"
proof -
  let ?env = "ex_route e" and ?req = "incoming e cr bytes"
  let ?c = "snd (try_acquire (controller (shared a)))"
  let ?b = "a\<lparr>shared := (shared a)\<lparr>controller := ?c\<rparr>\<rparr>"
  have same: "routable_set (routable_at ?env) ?b = routable_set (routable_at ?env) a"
    "refreshed_app (routable_at ?env) ?b = (refreshed_app (routable_at ?env) a)\<lparr>shared := (shared (refreshed_app (routable_at ?env) a))\<lparr>controller := ?c\<rparr>\<rparr>"
    "chosen ?env ?req ?b = chosen ?env ?req a"
    by (simp_all add: routable_set_def refreshed_app_def chosen_def)
  have "controller_ok (controller (shared a))" using assms(1) by (simp add: alone_ok_def app_ok_def state_ok_def)
  then have "alone_ok ?env ?b"
    using assms(1) by (simp add: alone_ok_def app_ok_def state_ok_def controller_ok_try_acquire)
  from select_alone [OF this, of ?req] assms(3) obtain j adm cb where sel:
    "j \<in> set (routable_set (routable_at ?env) a)" "fst (chosen ?env ?req a) = Some j"
    "try_begin (begin_at ?env 0) (breaker (app_backend (refreshed_app (routable_at ?env) a) j)) = (Some adm, cb)"
    "select_backend (\<lambda>_ x. x) ?env ?req ?b =
      (Some (j, adm), ?b\<lparr>shared := on_backend j (\<lambda>b. b\<lparr>breaker := cb\<rparr>) (shared (refreshed_app (routable_at ?env) ?b)),
         strategy_obj := snd (chosen ?env ?req a)\<rparr>)"
    unfolding same by auto
  have j: "j < num_backends (shared a)" using sel(1) routable_set_range by blast
  have admit: "handler_admit a = (Reading_body, ?b)"
    using assms(2) by (simp add: handler_admit_def try_acquire_cases in_flight_def)
  let ?a1 = "admitted_at ?env ?req j cb a"
  have route: "handler_route (\<lambda>_ x. x) ?env (ex_from_slice e) (ex_start e) cr (Inr bytes) ?b =
      (Awaiting_backend (guard_of e j adm a) bytes, ?a1)"
    using sel(4) by (simp add: handler_route_def incoming_def start_accounting_def guard_of_def admitted_at_def same Let_def)
  have at: "url (app_backend ?a1 j) = url (app_backend a j)"
    "upstream_request (app_backend ?a1 j) = upstream_request (app_backend a j)"
    using j by (simp_all add: admitted_at_def frame_simps refreshed_app_def routable_pool record_request_start_def
        upstream_request_def fun_eq_iff)
  have hv: "ex_header_ok e (url (app_backend ?a1 (acc_backend (guard_of e j adm a))))"
    using assms(4) j at(1) by (simp add: guard_of_def)
  show thesis
  proof (rule that [OF sel(1-3)])
    fix up :: "'m upstream" and m reply chunks m'
    assume up: "up (upstream_request (app_backend a j) (cr_method cr) (cr_path_and_query cr) (cr_headers cr) bytes) m = ((reply, chunks), m')"
    show "exchange up e cr (Inr bytes) (m, a) =
        (client_view (ex_to_str e) (url (app_backend a j)) reply chunks, m',
         (let a1 = ?a1 in a1\<lparr>shared := settled (ex_reply e) (ex_headers e) (upstream_outcome (ex_to_str e) reply) (guard_of e j adm a) (shared a1)\<rparr>))"
      using up deliver_reply [where hv = "ex_header_ok e" and a = ?a1 and acc = "guard_of e j adm a", OF hv,
          where b = "app_backend ?a1 j"] at
      by (simp add: exchange_def admit route Let_def) (simp add: guard_of_def at)
  qed
qed

section \<open>An exchange is a run of the system\<close>

lemma gone_runs: "(sys_step sha api)\<^sup>*\<^sup>* (a, add_mset (Replied_with st) T) (a, T)"
  by (rule r_into_rtranclp) (rule gone_run)

lemma read_stream_run:
  "(sys_step sha api)\<^sup>*\<^sup>* (a, add_mset (Streaming s) T) (a\<lparr>shared := snd (read_stream ts chunks s (shared a))\<rparr>, T)"
proof (induction chunks arbitrary: a s)
  case Nil
  obtain out s' w where p: "poll_next ts (Ready_none :: unit poll) s (shared a) = (out, s', w)" by (metis prod_cases3)
  then have over: "accounting s' = None" by (auto simp: poll_next_def split: option.splits)
  have "(sys_step sha api)\<^sup>*\<^sup>* (a, add_mset (Streaming s) T) (a\<lparr>shared := w\<rparr>, add_mset (Streaming s') T)"
    by (rule poll_next_run [OF p])
  also have "(sys_step sha api)\<^sup>*\<^sup>* (a\<lparr>shared := w\<rparr>, add_mset (Streaming s') T) (a\<lparr>shared := w\<rparr>, T)"
    using drop_task_run [where t = "Streaming s'" and a = "a\<lparr>shared := w\<rparr>" and sha = sha and api = api and T = T] over by (simp add: drop_stream_def)
  finally show ?case by (simp add: p)
next
  case (Cons c cs)
  obtain out s' w where p: "poll_next ts (Ready_chunk c :: unit poll) s (shared a) = (out, s', w)" by (metis prod_cases3)
  have run: "(sys_step sha api)\<^sup>*\<^sup>* (a, add_mset (Streaming s) T) (a\<lparr>shared := w\<rparr>, add_mset (Streaming s') T)"
    by (rule poll_next_run [OF p])
  show ?case
  proof (cases "accounting s")
    case None
    then have "out = Ready_none" "s' = s" "w = shared a" using p by (auto simp: poll_next_def)
    then show ?thesis using drop_task_run [where t = "Streaming s" and a = a and sha = sha and api = api and T = T] None p
      by (simp add: drop_stream_def)
  next
    case (Some acc)
    then have "out = Ready_chunk c" using p by (auto simp: poll_next_def)
    then have "snd (read_stream ts (c # cs) s (shared a)) = snd (read_stream ts cs s' w)" using p by (simp add: split_def)
    then show ?thesis using rtranclp_trans [OF run Cons.IH [of "a\<lparr>shared := w\<rparr>" s']] by simp
  qed
qed

lemma deliver_run:
  assumes "handler_reply hv ts res acc a = ((ro, t), a1)" "deliver ts chunks ((ro, t), a1) = (r, a')"
  shows "(sys_step sha api)\<^sup>*\<^sup>* (a, add_mset (Awaiting_backend acc body) T) (a', T)"
proof -
  have run: "(sys_step sha api)\<^sup>*\<^sup>* (a, add_mset (Awaiting_backend acc body) T) (a1, add_mset t T)"
    by (rule handler_reply_run [OF assms(1)])
  have "(sys_step sha api)\<^sup>*\<^sup>* (a1, add_mset t T) (a', T)"
  proof (cases "\<exists>s. t = Streaming s")
    case True
    then obtain s where "t = Streaming s" by blast
    then show ?thesis
      using assms read_stream_run [where a = a1 and s = s and ts = ts and chunks = chunks and sha = sha and api = api and T = T]
      by (auto simp: handler_reply_def deliver_def split: sum.splits option.splits prod.splits response_body.splits)
  next
    case False
    then obtain st where "t = Replied_with st" "a' = a1"
      using assms by (auto simp: handler_reply_def deliver_def split: sum.splits option.splits prod.splits response_body.splits)
    then show ?thesis using gone_runs by simp
  qed
  with run show ?thesis by (rule rtranclp_trans)
qed

lemma exchange_run:
  assumes "\<forall>k. choice (ex_route e) k = choose_with sha api (draw k) \<and> identity_kept (seen (ex_route e) k)"
    and "exchange up e cr body (m, a) = (r, m', a')"
  shows "(sys_step sha api)\<^sup>*\<^sup>* (a, T) (a', T)"
proof -
  obtain t1 a1 where admit: "handler_admit a = (t1, a1)" by fastforce
  have first: "sys_step sha api (a, T) (a1, add_mset t1 T)" by (rule arrival [OF admit])
  have "(sys_step sha api)\<^sup>*\<^sup>* (a1, add_mset t1 T) (a', T)"
  proof (cases "t1 = Reading_body")
    case True
    obtain t2 a2 where route: "handler_route (\<lambda>_ x. x) (ex_route e) (ex_from_slice e) (ex_start e) cr body a1 = (t2, a2)"
      by fastforce
    have routed: "(sys_step sha api)\<^sup>*\<^sup>* (a1, add_mset Reading_body T) (a2, add_mset t2 T)"
      by (rule handler_route_alone [OF _ _ route]) (use assms(1) in blast)+
    have "(sys_step sha api)\<^sup>*\<^sup>* (a2, add_mset t2 T) (a', T)"
    proof (cases "\<exists>acc bytes. t2 = Awaiting_backend acc bytes")
      case True
      then obtain acc bytes where t2: "t2 = Awaiting_backend acc bytes" by blast
      let ?b = "app_backend a2 (acc_backend acc)"
      obtain reply chunks m1 where up: "up (upstream_request ?b (cr_method cr) (cr_path_and_query cr) (cr_headers cr) bytes) m =
          ((reply, chunks), m1)" by (metis prod.collapse)
      let ?res = "forward_request (ex_to_str e) (\<lambda>_. reply) (ex_headers e) ?b (cr_method cr) (cr_path_and_query cr) (cr_headers cr) bytes"
      obtain ro t a3 where rep: "handler_reply (ex_header_ok e) (ex_reply e) ?res acc a2 = ((ro, t), a3)"
        by (metis prod.collapse)
      have "deliver (ex_reply e) chunks ((ro, t), a3) = (r, a')"
        using assms(2) \<open>t1 = Reading_body\<close> admit route t2 up rep by (auto simp: exchange_def Let_def split: prod.splits)
      then show ?thesis unfolding t2 by (rule deliver_run [OF rep])
    next
      case False
      have "\<exists>st. t2 = Replied_with st"
        using route False by (auto simp: handler_route_def reject_def Let_def split: sum.splits option.splits prod.splits)
      moreover from this have "a' = a2" using assms(2) \<open>t1 = Reading_body\<close> admit route by (auto simp: exchange_def)
      ultimately show ?thesis using gone_runs by auto
    qed
    then show ?thesis using routed True by (auto intro: rtranclp_trans)
  next
    case False
    then obtain st where "t1 = Replied_with st" "a' = a1"
      using assms(2) admit by (auto simp: handler_admit_def exchange_def split: prod.splits option.splits permit.splits)
    then show ?thesis using gone_runs by simp
  qed
  with first show ?thesis by (rule converse_rtranclp_into_rtranclp)
qed

section \<open>What the client gets\<close>

lemma exchange_refused:
  assumes "in_flight (controller (shared a)) = max_in_flight (controller (shared a))"
  shows "fst (exchange up e cr body (m, a)) = error_reply 429" "fst (snd (exchange up e cr body (m, a))) = m"
  using assms by (simp_all add: exchange_def handler_admit_def try_acquire_cases in_flight_def)

lemma admitted:
  assumes "in_flight (controller (shared a)) < max_in_flight (controller (shared a))"
  shows "handler_admit a = (Reading_body, a\<lparr>shared := (shared a)\<lparr>controller := snd (try_acquire (controller (shared a)))\<rparr>\<rparr>)"
  using assms by (simp add: handler_admit_def try_acquire_cases in_flight_def)

lemma exchange_bad_body:
  assumes "in_flight (controller (shared a)) < max_in_flight (controller (shared a))"
  shows "fst (exchange up e cr (Inl err) (m, a)) = error_reply (fst (body_error_status err))"
    "fst (snd (exchange up e cr (Inl err) (m, a))) = m"
  using admitted [OF assms] by (simp_all add: exchange_def handler_route_def reject_def split_def Let_def)

lemma exchange_unrouted:
  assumes "in_flight (controller (shared a)) < max_in_flight (controller (shared a))"
    and "alone_ok (ex_route e) a" "routable_set (routable_at (ex_route e)) a = []"
  shows "fst (exchange up e cr (Inr bytes) (m, a)) = error_reply 503" "fst (snd (exchange up e cr (Inr bytes) (m, a))) = m"
proof -
  let ?b = "a\<lparr>shared := (shared a)\<lparr>controller := snd (try_acquire (controller (shared a)))\<rparr>\<rparr>"
  have "app_ok (env_sha256 (choice (ex_route e) 0)) ?b"
    using assms(2) controller_ok_try_acquire by (simp add: alone_ok_def app_ok_def state_ok_def)
  then have "fst (select_backend (\<lambda>_ x. x) (ex_route e) \<lparr>req_path = cr_path cr, req_body = ex_from_slice e bytes\<rparr> ?b) = None"
    using select_backend_total [of _ ?b "ex_route e"] assms(2,3) by (simp add: alone_ok_def routable_set_def)
  then obtain a1 where "select_backend (\<lambda>_ x. x) (ex_route e) \<lparr>req_path = cr_path cr, req_body = ex_from_slice e bytes\<rparr> ?b = (None, a1)"
    by (metis prod.collapse)
  then show "fst (exchange up e cr (Inr bytes) (m, a)) = error_reply 503" "fst (snd (exchange up e cr (Inr bytes) (m, a))) = m"
    using admitted [OF assms(1)] by (simp_all add: exchange_def handler_route_def reject_def Let_def)
qed

lemma exchange_cases:
  fixes up :: "'m upstream"
  assumes "alone_ok (ex_route e) a" "\<forall>b \<in> set (backends (pool (shared a))). ex_header_ok e (url b)"
    and "exchange up e cr body (m, a) = (r, m', a')"
  shows "if in_flight (controller (shared a)) = max_in_flight (controller (shared a)) then r = error_reply 429 \<and> m' = m
     else case body of
       Inl err \<Rightarrow> r = error_reply (fst (body_error_status err)) \<and> m' = m
     | Inr bytes \<Rightarrow>
         if fst (routable (routable_at (ex_route e)) (pool (shared a))) = [] then r = error_reply 503 \<and> m' = m
         else \<exists>j \<in> set (fst (routable (routable_at (ex_route e)) (pool (shared a)))).
           case up (upstream_request (app_backend a j) (cr_method cr) (cr_path_and_query cr) (cr_headers cr) bytes) m of
             ((reply, chunks), m1) \<Rightarrow> r = client_view (ex_to_str e) (url (app_backend a j)) reply chunks \<and> m' = m1"
proof (cases "in_flight (controller (shared a)) = max_in_flight (controller (shared a))")
  case True
  then show ?thesis using exchange_refused [OF True, of up e cr body m] assms(3) by simp
next
  case False
  then have room: "in_flight (controller (shared a)) < max_in_flight (controller (shared a))"
    using assms(1) by (simp add: alone_ok_def app_ok_def state_ok_def controller_ok_def in_flight_def order.not_eq_order_implies_strict)
  show ?thesis
  proof (cases body)
    case (Inl err)
    then show ?thesis using False exchange_bad_body [OF room, of up e cr err m] assms(3) by simp
  next
    case (Inr bytes)
    show ?thesis
    proof (cases "routable_set (routable_at (ex_route e)) a = []")
      case True
      then show ?thesis using False Inr exchange_unrouted [OF room assms(1) True, of up cr bytes m] assms(3)
        by (simp add: routable_set_def)
    next
      case some: False
      obtain j adm cb where j: "j \<in> set (routable_set (routable_at (ex_route e)) a)"
        and served: "\<And>reply chunks m1. up (upstream_request (app_backend a j) (cr_method cr) (cr_path_and_query cr) (cr_headers cr) bytes) m =
            ((reply, chunks), m1) \<Longrightarrow>
          exchange up e cr (Inr bytes) (m, a) = (client_view (ex_to_str e) (url (app_backend a j)) reply chunks, m1,
            (let a1 = admitted_at (ex_route e) (incoming e cr bytes) j cb a
             in a1\<lparr>shared := settled (ex_reply e) (ex_headers e) (upstream_outcome (ex_to_str e) reply) (guard_of e j adm a) (shared a1)\<rparr>))"
        using exchange_served [OF assms(1) room some assms(2)] by metis
      then show ?thesis using False Inr some assms(3)
        by (auto simp: routable_set_def split: prod.split intro!: bexI [OF _ j [unfolded routable_set_def]])
    qed
  qed
qed

text \<open>
  C35. A request from end to end. Whatever requests are in flight already, one that is handled
  without interruption takes the router back to the counters it had: the same number of slots
  and connections in use, the same probes outstanding, in a reachable state. The client gets 429 if
  the router is full, 413 or 400 for an unreadable body, 503 if no backend is routable, and the
  backend is not called then. Otherwise one routable backend is called, once, with the client's
  request, and the client gets its reply: status, the headers that are not hop-by-hop and its URL,
  the whole body or the chunks of the stream, or 502 if the backend cannot be reached or its body
  breaks off.
\<close>

theorem exchange_end_to_end:
  fixes up :: "'m upstream" and api :: "'v json_api"
  assumes "sys_reachable sha api c (a, T)" "length (cfg_backends c) \<le> 2 ^ 32"
    and "\<forall>k. choice (ex_route e) k = choose_with sha api (draw k) \<and> identity_kept (seen (ex_route e) k)"
    and "\<forall>b \<in> set (backends (pool (shared a))). ex_header_ok e (url b)"
    and "exchange up e cr body (m, a) = (r, m', a')"
  shows "sys_reachable sha api c (a', T) \<and>
    in_flight (controller (shared a')) = in_flight (controller (shared a)) \<and>
    (\<forall>i < num_backends (shared a). active_connections (app_backend a' i) = active_connections (app_backend a i) \<and>
       probe_out (breaker (app_backend a' i)) = probe_out (breaker (app_backend a i))) \<and>
    (if in_flight (controller (shared a)) = max_in_flight (controller (shared a)) then r = error_reply 429 \<and> m' = m
     else case body of
       Inl err \<Rightarrow> r = error_reply (fst (body_error_status err)) \<and> m' = m
     | Inr bytes \<Rightarrow>
         if fst (routable (routable_at (ex_route e)) (pool (shared a))) = [] then r = error_reply 503 \<and> m' = m
         else \<exists>j \<in> set (fst (routable (routable_at (ex_route e)) (pool (shared a)))).
           case up (upstream_request (app_backend a j) (cr_method cr) (cr_path_and_query cr) (cr_headers cr) bytes) m of
             ((reply, chunks), m1) \<Rightarrow> r = client_view (ex_to_str e) (url (app_backend a j)) reply chunks \<and> m' = m1)"
proof (intro conjI)
  show reach: "sys_reachable sha api c (a', T)"
    by (rule sys_reachable_run [OF exchange_run [OF assms(3,5)] assms(1)])
  have ok: "sys_ok sha (a, T)" "sys_ok sha (a', T)" using sys_reachable_ok [OF _ assms(2)] assms(1) reach by blast+
  have n: "num_backends (shared a') = num_backends (shared a)"
    using fixed_size sys_reachable_fixed [OF assms(1)] sys_reachable_fixed [OF reach] by (metis fst_conv)
  have eq: "unat x = unat y \<Longrightarrow> x = y" for x y :: u64 by (simp only: word_unat_eq_iff)
  show "in_flight (controller (shared a')) = in_flight (controller (shared a))"
    using ok by (intro eq) (simp add: sys_ok_def counts_match_def)
  have of_bool_eq: "(of_bool p :: nat) = of_bool q \<Longrightarrow> p = q" for p q by (cases p; cases q) simp_all
  show "\<forall>i < num_backends (shared a). active_connections (app_backend a' i) = active_connections (app_backend a i) \<and>
       probe_out (breaker (app_backend a' i)) = probe_out (breaker (app_backend a i))"
    using ok n by (intro allI impI conjI eq of_bool_eq) (simp_all add: sys_ok_def counts_match_def)
  have alone: "alone_ok (ex_route e) a" using ok(1) assms(3) by (simp add: alone_ok_def sys_ok_def)
  show "if in_flight (controller (shared a)) = max_in_flight (controller (shared a)) then r = error_reply 429 \<and> m' = m
     else case body of
       Inl err \<Rightarrow> r = error_reply (fst (body_error_status err)) \<and> m' = m
     | Inr bytes \<Rightarrow>
         if fst (routable (routable_at (ex_route e)) (pool (shared a))) = [] then r = error_reply 503 \<and> m' = m
         else \<exists>j \<in> set (fst (routable (routable_at (ex_route e)) (pool (shared a)))).
           case up (upstream_request (app_backend a j) (cr_method cr) (cr_path_and_query cr) (cr_headers cr) bytes) m of
             ((reply, chunks), m1) \<Rightarrow> r = client_view (ex_to_str e) (url (app_backend a j)) reply chunks \<and> m' = m1"
    by (rule exchange_cases [OF alone assms(4,5)])
qed

text \<open>A backend that counts the requests it answers.\<close>

definition demo_upstream :: "nat upstream" where
  "demo_upstream rq n = ((Replied 200 [(''content-type'', ''text/plain'')] (Some ''ok''), []), Suc n)"

definition demo_exchange :: "code_points exchange_env" where
  "demo_exchange =
     \<lparr>ex_route = \<lparr>choice = (\<lambda>_. choose_with sample_sha prompt_api (Fin 0)), seen = (\<lambda>_ b. b), routable_at = (\<lambda>_. 0), begin_at = (\<lambda>_. 0)\<rparr>,
      ex_from_slice = (\<lambda>_. None), ex_to_str = Some, ex_header_ok = (\<lambda>_. True), ex_start = 0, ex_headers = 0, ex_reply = (\<lambda>_. 0)\<rparr>"

definition demo_request :: client_request where
  "demo_request = \<lparr>cr_method = ''POST'', cr_path = ''/v1/completions'', cr_path_and_query = None, cr_headers = []\<rparr>"

text \<open>A fresh router of one backend is ready for a request.\<close>

lemma demo_ready:
  obtains a where "sys_reachable sample_sha prompt_api demo_config (a, {#})"
    "in_flight (controller (shared a)) = 0" "max_in_flight (controller (shared a)) \<noteq> 0"
    "fst (routable (\<lambda>_. 0) (pool (shared a))) \<noteq> []"
    "\<forall>j \<in> set (fst (routable (\<lambda>_. 0) (pool (shared a)))). url (app_backend a j) = ''http://a''"
proof -
  obtain ap where ap: "build_app sample_sha (\<lambda>_ _. True) (\<lambda>_. 0) demo_config = Inr ap"
    using valid_config_builds [OF demo_config_ok(1,3)] by blast
  let ?a = "app_start ap"
  have reach: "sys_reachable sample_sha prompt_api demo_config (?a, {#})" by (rule start [OF ap])
  have fixed: "max_in_flight (controller (shared ?a)) \<noteq> 0"
    using sys_reachable_fixed [OF reach] demo_config_ok(1) by (simp add: fixed_part_def config_ok_def)
  have "map (\<lambda>b. (backend_id b, url b, weight b)) (backends (pool (shared ?a))) =
      map (\<lambda>(i, bc). (i, normalized_url bc, bc_weight bc)) (List.enumerate 0 (cfg_backends demo_config))"
    using sys_reachable_fixed [OF reach] by (simp add: fixed_part_def)
  moreover obtain bc where "cfg_backends demo_config = [bc]" "normalized_url bc = ''http://a''"
    by (simp add: demo_config_def read_config_def minimal_document_def read_backend_def normalized_url_def trim_end_slashes_def)
  ultimately have "map (\<lambda>b. (backend_id b, url b, weight b)) (backends (pool (shared ?a))) = [(0, ''http://a'', bc_weight bc)]"
    by simp
  then obtain b where b: "backends (pool (shared ?a)) = [b]" "url b = ''http://a''" by auto
  then have size: "num_backends (shared ?a) = 1" "app_backend ?a 0 = b" by simp_all
  have zero: "in_flight (controller (shared ?a)) = 0"
    using sys_reachable_ok [OF reach] demo_config_ok(2) by (simp add: sys_ok_def counts_match_def unat_eq_zero)
  have "fst (routable (\<lambda>_. 0) (pool (shared ?a))) \<noteq> []"
    using routable_nonempty [OF fresh_available [OF ap, of 0]] demo_config_ok(2) by simp
  moreover have "url (app_backend ?a j) = ''http://a''" if "j \<in> set (fst (routable (\<lambda>_. 0) (pool (shared ?a))))" for j
    using that size b(2) by (auto simp: routable_mem available_at_def)
  ultimately show thesis using that reach zero fixed by blast
qed

theorem exchange_end_to_end_witness:
  "\<exists>a a'. sys_reachable sample_sha prompt_api demo_config (a, {#}) \<and>
     exchange demo_upstream demo_exchange demo_request (Inr []) (0, a) =
       (\<lparr>cl_status = 200, cl_headers = [(''content-type'', ''text/plain''), (''x-router-backend'', ''http://a'')], cl_body = ''ok''\<rparr>,
        1, a') \<and> in_flight (controller (shared a')) = 0"
proof -
  obtain a where a: "sys_reachable sample_sha prompt_api demo_config (a, {#})"
    "in_flight (controller (shared a)) = 0" "max_in_flight (controller (shared a)) \<noteq> 0"
    "fst (routable (\<lambda>_. 0) (pool (shared a))) \<noteq> []"
    "\<forall>j \<in> set (fst (routable (\<lambda>_. 0) (pool (shared a)))). url (app_backend a j) = ''http://a''"
    by (rule demo_ready)
  obtain r m' a' where ex: "exchange demo_upstream demo_exchange demo_request (Inr []) (0, a) = (r, m', a')"
    by (metis prod_cases3)
  have "r = client_view Some ''http://a'' (Replied 200 [(''content-type'', ''text/plain'')] (Some ''ok'')) [] \<and> m' = 1"
    "in_flight (controller (shared a')) = 0"
    using exchange_end_to_end [OF a(1) _ _ _ ex, of "\<lambda>_. Fin 0"] demo_config_ok(2) a(2-5)
    by (auto simp: demo_exchange_def identity_kept_def demo_upstream_def)
  then show ?thesis using a(1) ex
    by (auto simp: client_view_def filter_headers_filter is_hop_by_hop_def HOP_BY_HOP_def is_event_stream_def header_get_def
        starts_with_def ascii_trim_start_def)
qed

section \<open>What passes between client and backend\<close>

text \<open>The header names that stop at the router: hop-by-hop, host, body length, and its own header.\<close>

definition withheld :: "string set" where
  "withheld =
     {''connection'', ''keep-alive'', ''proxy-authenticate'', ''proxy-authorization'', ''te'', ''trailer'',
      ''transfer-encoding'', ''upgrade'', ''host'', ''content-length'', ''x-router-backend''}"

lemma is_hop_by_hop_withheld: "is_hop_by_hop n \<longleftrightarrow> n \<in> withheld"
  unfolding is_hop_by_hop_def HOP_BY_HOP_def withheld_def by auto

text \<open>A backend whose requests are written down.\<close>

definition recording :: "'m upstream \<Rightarrow> ('m \<times> http_request list) upstream" where
  "recording up rq ml = (case up rq (fst ml) of (out, m) \<Rightarrow> (out, (m, snd ml @ [rq])))"

lemma header_get_filtered: "n \<notin> withheld \<Longrightarrow> header_get n (filter_headers hs) = header_get n hs"
  unfolding header_get_def by (induction hs rule: filter_headers.induct) (auto simp: is_hop_by_hop_withheld)

lemma event_stream_filtered: "is_event_stream to_str (filter_headers hs) = is_event_stream to_str hs"
  by (simp add: is_event_stream_def header_get_filtered withheld_def)

text \<open>
  The request that is to go out to a backend with URL \<open>u\<close>, and what the client is to get of the
  reply. All values of a header pass, or none.
\<close>

definition sent_as :: "client_request \<Rightarrow> string \<Rightarrow> string \<Rightarrow> http_request \<Rightarrow> bool" where
  "sent_as cr bytes u rq \<longleftrightarrow>
     rq_method rq = cr_method cr \<and> rq_body rq = bytes \<and>
     rq_url rq = u @ (case cr_path_and_query cr of Some p \<Rightarrow> p | None \<Rightarrow> ''/'') \<and>
     (\<forall>n. header_values n (rq_headers rq) = (if n \<in> withheld then [] else header_values n (cr_headers cr)))"

definition seen_as :: "(string \<Rightarrow> string option) \<Rightarrow> string \<Rightarrow> upstream_reply \<Rightarrow> string list \<Rightarrow> client_reply \<Rightarrow> bool" where
  "seen_as to_str u reply chunks r \<longleftrightarrow>
     (case reply of
        Send_failed \<Rightarrow> r = error_reply 502
      | Replied st hs full \<Rightarrow>
          if is_event_stream to_str hs \<or> full \<noteq> None
          then cl_status r = st \<and> cl_body r = (if is_event_stream to_str hs then concat chunks else the full) \<and>
            (\<forall>n. header_values n (cl_headers r) =
              (if n = ''x-router-backend'' then [u] else if n \<in> withheld then [] else header_values n hs))
          else r = error_reply 502)"

lemma upstream_request_sent:
  "sent_as cr bytes (url b) (upstream_request b (cr_method cr) (cr_path_and_query cr) (cr_headers cr) bytes)"
  by (simp add: sent_as_def upstream_request_def the_default_def filter_headers_values is_hop_by_hop_withheld split: option.split)

lemma client_view_seen: "seen_as to_str u reply chunks (client_view to_str u reply chunks)"
proof (cases reply)
  case (Replied st hs full)
  have "header_values n (xs @ ys) = header_values n xs @ header_values n ys" for n xs ys by (simp add: header_values_def)
  then have "header_values n (filter_headers hs @ [(''x-router-backend'', u)]) =
      (if n = ''x-router-backend'' then [u] else if n \<in> withheld then [] else header_values n hs)" for n
    by (simp add: filter_headers_values is_hop_by_hop_withheld) (simp add: header_values_def withheld_def)
  then show ?thesis by (auto simp: Replied seen_as_def client_view_def event_stream_filtered Let_def split: option.split)
qed (simp add: seen_as_def client_view_def)

text \<open>
  C34. What passes through the router. A request handled without interruption reaches at most one
  backend, and at most once. It is not sent at all if the router is full, the body cannot be
  read or no backend is routable. Otherwise one request goes out, with the client's method and
  body, to a routable backend's URL followed by the client's path; of each header it has all the
  client's values, and none for the eleven names of \<open>withheld\<close>. Status, body and headers of the
  reply reach the client in the same way, with the URL of the backend as the one value of
  \<open>x-router-backend\<close>, or as 502 if the backend failed.
\<close>

theorem exchange_forwards:
  fixes up :: "'m upstream" and api :: "'v json_api"
  assumes "sys_reachable sha api c (a, T)" "length (cfg_backends c) \<le> 2 ^ 32"
    and "\<forall>k. choice (ex_route e) k = choose_with sha api (draw k) \<and> identity_kept (seen (ex_route e) k)"
    and "\<forall>b \<in> set (backends (pool (shared a))). ex_header_ok e (url b)"
    and "exchange (recording up) e cr body ((m, sent), a) = (r, (m', sent'), a')"
  shows "if in_flight (controller (shared a)) = max_in_flight (controller (shared a)) \<or> (\<exists>err. body = Inl err) \<or>
       fst (routable (routable_at (ex_route e)) (pool (shared a))) = []
     then sent' = sent \<and> m' = m
     else \<exists>j rq reply chunks. j \<in> set (fst (routable (routable_at (ex_route e)) (pool (shared a)))) \<and>
       sent' = sent @ [rq] \<and> up rq m = ((reply, chunks), m') \<and>
       sent_as cr (projr body) (url (app_backend a j)) rq \<and>
       seen_as (ex_to_str e) (url (app_backend a j)) reply chunks r"
proof -
  have alone: "alone_ok (ex_route e) a"
    using sys_reachable_ok [OF assms(1,2)] assms(3) by (simp add: alone_ok_def sys_ok_def)
  note cases = exchange_cases [OF alone assms(4,5)]
  show ?thesis
  proof (cases "in_flight (controller (shared a)) = max_in_flight (controller (shared a)) \<or> (\<exists>err. body = Inl err) \<or>
       fst (routable (routable_at (ex_route e)) (pool (shared a))) = []")
    case True
    then show ?thesis using cases by (auto split: if_splits sum.splits)
  next
    case False
    then obtain bytes where bytes: "body = Inr bytes" by (cases body) auto
    let ?rq = "\<lambda>j. upstream_request (app_backend a j) (cr_method cr) (cr_path_and_query cr) (cr_headers cr) bytes"
    obtain j where j: "j \<in> set (fst (routable (routable_at (ex_route e)) (pool (shared a))))"
      and call: "case recording up (?rq j) (m, sent) of
        ((reply, chunks), m1) \<Rightarrow> r = client_view (ex_to_str e) (url (app_backend a j)) reply chunks \<and> (m', sent') = m1"
      using cases False bytes by auto
    obtain reply chunks where "up (?rq j) m = ((reply, chunks), m')" "sent' = sent @ [?rq j]"
      "r = client_view (ex_to_str e) (url (app_backend a j)) reply chunks"
      using call by (auto simp: recording_def split: prod.splits)
    then show ?thesis
      unfolding if_not_P [OF False] using j bytes upstream_request_sent client_view_seen by (metis sum.sel(2))
  qed
qed

theorem exchange_forwards_witness:
  "\<exists>a r rq a'. exchange (recording demo_upstream) demo_exchange
       (demo_request\<lparr>cr_headers := [(''te'', ''trailers''), (''x-id'', ''7'')]\<rparr>) (Inr ''hi'') ((0, []), a) = (r, (1, [rq]), a') \<and>
     rq_url rq = ''http://a/'' \<and> rq_body rq = ''hi'' \<and> header_values ''te'' (rq_headers rq) = [] \<and>
     header_values ''x-id'' (rq_headers rq) = [''7''] \<and> cl_status r = 200 \<and> cl_body r = ''ok'' \<and>
     header_values ''x-router-backend'' (cl_headers r) = [''http://a'']"
proof -
  let ?cr = "demo_request\<lparr>cr_headers := [(''te'', ''trailers''), (''x-id'', ''7'')]\<rparr>"
  obtain a where a: "sys_reachable sample_sha prompt_api demo_config (a, {#})"
    "in_flight (controller (shared a)) = 0" "max_in_flight (controller (shared a)) \<noteq> 0"
    "fst (routable (\<lambda>_. 0) (pool (shared a))) \<noteq> []"
    "\<forall>j \<in> set (fst (routable (\<lambda>_. 0) (pool (shared a)))). url (app_backend a j) = ''http://a''"
    by (rule demo_ready)
  obtain r m' sent a' where ex: "exchange (recording demo_upstream) demo_exchange ?cr (Inr ''hi'') ((0, []), a) = (r, (m', sent), a')"
    by (metis prod.collapse)
  have env: "\<forall>k. choice (ex_route demo_exchange) k = choose_with sample_sha prompt_api (Fin 0) \<and> identity_kept (seen (ex_route demo_exchange) k)"
    "\<forall>b \<in> set (backends (pool (shared a))). ex_header_ok demo_exchange (url b)" "routable_at (ex_route demo_exchange) = (\<lambda>_. 0)"
    "ex_to_str demo_exchange = Some"
    by (simp_all add: demo_exchange_def identity_kept_def)
  have "length (cfg_backends demo_config) \<le> 2 ^ 32" using demo_config_ok(2) by simp
  from exchange_forwards [OF a(1) this env(1,2) ex] a(2-4)
  obtain j rq reply chunks where j: "j \<in> set (fst (routable (\<lambda>_. 0) (pool (shared a))))"
    and out: "sent = [rq]" "demo_upstream rq 0 = ((reply, chunks), m')"
      "sent_as ?cr ''hi'' (url (app_backend a j)) rq" "seen_as Some (url (app_backend a j)) reply chunks r"
    unfolding env(3,4) by auto
  have "reply = Replied 200 [(''content-type'', ''text/plain'')] (Some ''ok'')" "m' = 1"
    using out(2) by (simp_all add: demo_upstream_def)
  moreover have u: "url (app_backend a j) = ''http://a''" using bspec [OF a(5) j] .
  ultimately have "cl_status r = 200" "cl_body r = ''ok''" "header_values ''x-router-backend'' (cl_headers r) = [''http://a'']"
    using out(4) by (simp_all add: seen_as_def is_event_stream_def header_get_def starts_with_def ascii_trim_start_def)
  moreover have "rq_url rq = ''http://a/''" "rq_body rq = ''hi''" "header_values ''te'' (rq_headers rq) = []"
    "header_values ''x-id'' (rq_headers rq) = [''7'']"
    using out(3) u by (simp_all add: sent_as_def demo_request_def withheld_def) (simp add: header_values_def)
  ultimately show ?thesis using ex unfolding out(1) \<open>m' = 1\<close> by blast
qed

end
