(* ===== verification/Fault_Isolation.thy ===== *)
theory Fault_Isolation
  imports Exchange
begin

text \<open>
  What backends that fail every request cost the clients of a router that has just started: with
  requests one after another, a dead backend takes as many as its breaker needs to judge it, and
  then no more until the circuit half-opens. The breaker is followed through its abstract form
  (Breaker_Spec), the requests through Exchange. Once backends answer again, open circuits heal:
  the next request after the open duration is served, and closes the circuit of its backend.
\<close>

section \<open>A breaker that sees nothing but failures\<close>

text \<open>Closed after fewer failures than it needs, or open after exactly as many.\<close>

definition struck :: "breaker_params \<Rightarrow> instant \<Rightarrow> instant \<Rightarrow> nat \<Rightarrow> circuit_breaker \<Rightarrow> bool" where
  "struck p t0 prev n cb \<longleftrightarrow>
     (\<exists>sp. simulates p prev sp cb \<and> since sp = t0 \<and> length (verdicts sp) = n \<and> n \<le> spec_min p \<and>
        (\<forall>(t, ok) \<in> set (verdicts sp). \<not> ok) \<and>
        (case tripped sp of None \<Rightarrow> n < spec_min p | Some (t, pr) \<Rightarrow> n = spec_min p \<and> \<not> pr \<and> t0 \<le> t \<and> t \<le> prev))"

definition within_horizon :: "breaker_params \<Rightarrow> instant \<Rightarrow> instant \<Rightarrow> bool" where
  "within_horizon p t0 now \<longleftrightarrow> t0 \<le> now \<and> now < t0 + from_secs (spec_window p) \<and> now < t0 + spec_open p"

lemma simulates_later: "simulates p prev sp cb \<Longrightarrow> prev \<le> now \<Longrightarrow> simulates p now sp cb"
  unfolding simulates_def using same_phase_later same_log_later by blast

lemma struckE:
  assumes "struck p t0 prev n cb"
  obtains sp where "simulates p prev sp cb" "since sp = t0" "length (verdicts sp) = n" "n \<le> spec_min p"
    "\<forall>(t, ok) \<in> set (verdicts sp). \<not> ok"
    "case tripped sp of None \<Rightarrow> n < spec_min p | Some (t, pr) \<Rightarrow> n = spec_min p \<and> \<not> pr \<and> t0 \<le> t \<and> t \<le> prev"
  using assms unfolding struck_def by blast

lemma struckI:
  assumes "simulates p now sp cb" "since sp = t0" "length (verdicts sp) = n" "n \<le> spec_min p"
    "\<forall>(t, ok) \<in> set (verdicts sp). \<not> ok" "prev \<le> now"
    "case tripped sp of None \<Rightarrow> n < spec_min p | Some (t, pr) \<Rightarrow> n = spec_min p \<and> \<not> pr \<and> t0 \<le> t \<and> t \<le> prev"
  shows "struck p t0 now n cb"
  unfolding struck_def using assms by (intro exI [of _ sp]) (auto split: option.splits)

lemma struck_later: "struck p t0 prev n cb \<Longrightarrow> prev \<le> now \<Longrightarrow> struck p t0 now n cb"
  by (erule struckE) (rule struckI [OF simulates_later]; assumption)

text \<open>What the breaker itself keeps of when it opened.\<close>

lemma struck_opened:
  assumes "struck p t0 prev n cb" "breaker_ok cb" "opened_at (inner cb) = Some t"
  shows "t \<le> prev" "open_duration cb = spec_open p"
proof -
  from assms(1) obtain sp where sim: "simulates p prev sp cb"
    and trip: "case tripped sp of None \<Rightarrow> n < spec_min p | Some (t, pr) \<Rightarrow> n = spec_min p \<and> \<not> pr \<and> t0 \<le> t \<and> t \<le> prev"
    by (rule struckE)
  show "t \<le> prev" using sim trip assms(2,3)
    by (auto simp: simulates_def same_phase_def breaker_ok_def inner_ok_def split: option.splits)
  show "open_duration cb = spec_open p" using sim by (simp add: simulates_def configured_def)
qed

lemma struck_le: "struck p t0 prev n cb \<Longrightarrow> n \<le> spec_min p"
  by (auto simp: struck_def)

lemma struck_new:
  assumes "params_of thr mr w od = p"
  shows "struck p t0 t0 0 (new_breaker (Fin thr) mr w od t0)"
proof -
  have "0 < spec_min p" using assms by (auto simp: params_of_def unat_gt_0 max_def)
  then show ?thesis using simulates_new [of thr mr w od t0] assms unfolding struck_def
    by (intro exI [of _ "new_spec t0"]) (simp add: new_spec_def)
qed

lemma struck_routable:
  assumes "struck p t0 prev n cb" "prev \<le> now" "spec_min p < 2 ^ 53"
  shows "struck p t0 now n (snd (breaker_is_routable now cb))"
proof -
  from assms(1) obtain sp where sp: "simulates p prev sp cb" "since sp = t0" "length (verdicts sp) = n" "n \<le> spec_min p"
    "\<forall>(t, ok) \<in> set (verdicts sp). \<not> ok"
    "case tripped sp of None \<Rightarrow> n < spec_min p | Some (t, pr) \<Rightarrow> n = spec_min p \<and> \<not> pr \<and> t0 \<le> t \<and> t \<le> prev"
    by (rule struckE)
  have "simulates p now sp (snd (breaker_is_routable now cb))"
    using simulates_call [OF sp(1) assms(2), of Is_routable] sp(3,4) assms(3) by (simp add: split_def)
  then show ?thesis by (rule struckI [OF _ sp(2-5) assms(2) sp(6)])
qed

text \<open>Before the open duration is over, a request is admitted only as an ordinary one, to a closed circuit.\<close>

lemma struck_begin:
  assumes "struck p t0 prev n cb" "prev \<le> now" "spec_min p < 2 ^ 53" "within_horizon p t0 now"
    and "try_begin now cb = (Some adm, cb')"
  shows "adm = Normal" "struck p t0 now n cb'" "n < spec_min p"
proof -
  from assms(1) obtain sp where sp: "simulates p prev sp cb" "since sp = t0" "length (verdicts sp) = n" "n \<le> spec_min p"
    "\<forall>(t, ok) \<in> set (verdicts sp). \<not> ok"
    "case tripped sp of None \<Rightarrow> n < spec_min p | Some (t, pr) \<Rightarrow> n = spec_min p \<and> \<not> pr \<and> t0 \<le> t \<and> t \<le> prev"
    by (rule struckE)
  have call: "fst (spec_call p Try_begin now sp) = Granted (Some adm)" "simulates p now (snd (spec_call p Try_begin now sp)) cb'"
    using simulates_call [OF sp(1) assms(2), of Try_begin] sp(3,4) assms(3,5) by simp_all
  have "\<not> spec_open p \<le> now - t" if "t0 \<le> t" for t
    using that assms(4) by (auto simp: within_horizon_def)
  then have closed: "tripped sp = None" using call(1) sp(6) by (auto simp: phase_at_def split: option.splits if_splits)
  then show "adm = Normal" "n < spec_min p" using call(1) sp(6) by (simp_all add: phase_at_def)
  have "simulates p now sp cb'" using call(2) closed by (simp add: phase_at_def)
  then show "struck p t0 now n cb'" by (rule struckI [OF _ sp(2-5) assms(2) sp(6)])
qed

lemma all_in_horizon:
  assumes "within_horizon p t0 now"
  shows "in_window t0 (spec_window p) now t"
proof -
  have "now - t0 < from_secs (spec_window p)" using assms by (auto simp: within_horizon_def)
  then have "sec_of t0 now < spec_window p" by (simp add: sec_of_def as_secs_def from_secs_def less_mult_imp_div_less)
  then show ?thesis by (simp add: in_window_def)
qed

text \<open>The last failure it needs opens the circuit, whatever the threshold.\<close>

lemma struck_failure:
  assumes "struck p t0 prev n cb" "n < spec_min p" "prev \<le> now" "spec_min p < 2 ^ 53" "within_horizon p t0 now"
    and "spec_threshold p \<le> 1"
  shows "struck p t0 now (Suc n) (record_failure now Normal cb)"
proof -
  from assms(1) obtain sp where sp: "simulates p prev sp cb" "since sp = t0" "length (verdicts sp) = n" "n \<le> spec_min p"
    "\<forall>(t, ok) \<in> set (verdicts sp). \<not> ok"
    "case tripped sp of None \<Rightarrow> n < spec_min p | Some (t, pr) \<Rightarrow> n = spec_min p \<and> \<not> pr \<and> t0 \<le> t \<and> t \<le> prev"
    by (rule struckE)
  have closed: "tripped sp = None" using sp(6) assms(2) by (auto split: option.splits)
  have sim: "simulates p now (snd (spec_call p (Record_failure Normal) now sp)) (record_failure now Normal cb)"
    using simulates_call [OF sp(1) assms(3), of "Record_failure Normal"] sp(3) assms(2,4) by simp
  let ?sp = "log_verdict now False sp"
  have log: "since ?sp = t0" "length (verdicts ?sp) = Suc n" "\<forall>(t, ok) \<in> set (verdicts ?sp). \<not> ok" "tripped ?sp = None"
    using sp closed by (auto simp: log_verdict_def)
  have "filter (\<lambda>(t, _). in_window (since ?sp) (spec_window p) now t) (verdicts ?sp) = verdicts ?sp"
    using log(1) all_in_horizon [OF assms(5)] by (simp add: filter_id_conv split_def)
  moreover have "failed_in (verdicts ?sp) = length (verdicts ?sp)" using log(3) by (simp add: filter_id_conv split_def)
  ultimately have "over_threshold p now ?sp \<longleftrightarrow> spec_min p \<le> Suc n"
    using log(2) assms(6) rnd_of_nat [of 1] by (simp add: over_threshold_def Let_def)
  then have "snd (spec_call p (Record_failure Normal) now sp) = (if spec_min p \<le> Suc n then ?sp\<lparr>tripped := Some (now, False)\<rparr> else ?sp)"
    using closed by (simp add: Let_def)
  then show ?thesis using sim log assms(2,5) unfolding struck_def
    by (intro exI [of _ "snd (spec_call p (Record_failure Normal) now sp)"]) (auto simp: not_le within_horizon_def)
qed

section \<open>The breakers of the dead backends\<close>

text \<open>A dead backend cannot be reached; a live one answers completely, and not with the router's own 502.\<close>

definition answer_of :: "'m upstream \<Rightarrow> backend \<Rightarrow> client_request \<Rightarrow> string \<Rightarrow> 'm \<Rightarrow> upstream_reply" where
  "answer_of up b cr bytes m = fst (fst (up (upstream_request b (cr_method cr) (cr_path_and_query cr) (cr_headers cr) bytes) m))"

definition dead_backend :: "'m upstream \<Rightarrow> backend \<Rightarrow> bool" where
  "dead_backend up b \<longleftrightarrow> (\<forall>cr bytes m. answer_of up b cr bytes m = Send_failed)"

definition live_backend :: "'m upstream \<Rightarrow> backend \<Rightarrow> bool" where
  "live_backend up b \<longleftrightarrow>
     (\<forall>cr bytes m. \<exists>st hs full. answer_of up b cr bytes m = Replied st hs (Some full) \<and> st \<noteq> 502)"

lemma answer_of_url: "url b = url b' \<Longrightarrow> answer_of up b = answer_of up b'"
  by (simp add: answer_of_def upstream_request_def fun_eq_iff)

definition strikes :: "breaker_params \<Rightarrow> (nat \<Rightarrow> instant) \<Rightarrow> instant \<Rightarrow> (nat \<Rightarrow> nat) \<Rightarrow> nat set \<Rightarrow> app_state \<Rightarrow> bool" where
  "strikes p ts prev f B a \<longleftrightarrow>
     (\<forall>j \<in> B. j < num_backends (shared a) \<and> healthy (app_backend a j) \<and>
       struck p (ts j) prev (f j) (breaker (app_backend a j)))"

text \<open>The clock readings of an exchange, in the order in which they are taken.\<close>

definition timed :: "instant \<Rightarrow> instant \<Rightarrow> 'v exchange_env \<Rightarrow> bool" where
  "timed prev now e \<longleftrightarrow>
     (\<forall>i. prev \<le> routable_at (ex_route e) i \<and> routable_at (ex_route e) i \<le> begin_at (ex_route e) 0) \<and>
     (\<forall>k. begin_at (ex_route e) 0 \<le> ex_reply e k \<and> ex_reply e k \<le> now)"

lemma strikes_cong:
  assumes "strikes p ts prev f B a" "prev \<le> now" "num_backends (shared a') = num_backends (shared a)"
    and "\<And>j. j \<in> B \<Longrightarrow> j < num_backends (shared a) \<Longrightarrow> breaker (app_backend a' j) = breaker (app_backend a j) \<and>
      healthy (app_backend a' j) = healthy (app_backend a j)"
  shows "strikes p ts now f B a'"
  using assms struck_later unfolding strikes_def by metis

lemma strikes_refreshed:
  assumes "strikes p ts prev f B a" "spec_min p < 2 ^ 53" "\<And>i. prev \<le> rts i \<and> rts i \<le> now"
  shows "strikes p ts now f B (refreshed_app rts a)"
  unfolding strikes_def
proof (intro ballI conjI)
  fix j
  assume "j \<in> B"
  then have j: "j < num_backends (shared a)" "struck p (ts j) prev (f j) (breaker (app_backend a j))"
    "healthy (app_backend a j)" using assms(1) by (simp_all add: strikes_def)
  then show "j < num_backends (shared (refreshed_app rts a))" by (simp add: refreshed_app_def routable_pool)
  show "healthy (app_backend (refreshed_app rts a) j)"
    using j(1,3) by (simp add: refreshed_app_def routable_pool backend_is_routable_def split_def)
  have "struck p (ts j) (rts j) (f j) (snd (breaker_is_routable (rts j) (breaker (app_backend a j))))"
    "struck p (ts j) (rts j) (f j) (breaker (app_backend a j))"
    using struck_routable [OF j(2) _ assms(2)] struck_later [OF j(2)] assms(3) by blast+
  then have "struck p (ts j) (rts j) (f j) (breaker (app_backend (refreshed_app rts a) j))"
    using j(1) by (simp add: refreshed_app_def routable_pool backend_is_routable_def split_def)
  then show "struck p (ts j) now (f j) (breaker (app_backend (refreshed_app rts a) j))"
    using struck_later assms(3) by blast
qed

lemma settled_other:
  assumes "acc_backend acc < num_backends w" "i \<noteq> acc_backend acc"
  shows "backend_at (settled ts h out acc w) i = backend_at w i"
  using assms
  by (cases out) (simp_all add: settled_def judged_def resolve_probe_on_headers_def mark_headers_received_at_def
      drop_accounting_backends frame_simps Let_def split: prod.split)

lemma settled_size: "num_backends (settled ts h out acc w) = num_backends w"
  by (cases out) (simp_all add: settled_def judged_def resolve_probe_on_headers_def mark_headers_received_at_def
      drop_accounting_def frame_simps Let_def split: prod.split)

lemma settled_transport_error:
  assumes "acc_backend acc < num_backends w"
  shows "breaker (backend_at (settled ts h TransportError acc w) (acc_backend acc)) =
    record_failure (ts 2) (acc_admission acc) (breaker (backend_at w (acc_backend acc)))"
  using assms drop_accounting_backends(1) [of "acc\<lparr>acc_outcome := TransportError\<rparr>" w]
  by (simp add: settled_def judged_def apply_verdict_def frame_simps record_request_end_def)

lemma judged_frame:
  "acc_backend (fst (judged h t out acc w)) = acc_backend acc"
  "num_backends (snd (judged h t out acc w)) = num_backends w"
  "i < num_backends w \<Longrightarrow> healthy (backend_at (snd (judged h t out acc w)) i) = healthy (backend_at w i)"
  "i < num_backends w \<Longrightarrow> queue_depth (backend_at (snd (judged h t out acc w)) i) = queue_depth (backend_at w i)"
  by (cases out; simp add: judged_def resolve_probe_on_headers_def mark_headers_received_at_def frame_simps split_def;
      cases "acc_backend acc = i"; simp add: frame_simps)+

lemma settled_healthy:
  assumes "acc_backend acc < num_backends w" "i < num_backends w"
  shows "healthy (backend_at (settled ts h out acc w) i) = healthy (backend_at w i)"
    "queue_depth (backend_at (settled ts h out acc w) i) = queue_depth (backend_at w i)"
proof -
  let ?j = "judged h (ts 3) out acc w" and ?w = "settled ts h out acc w"
  have "healthy (backend_at ?w i) = healthy (backend_at w i) \<and> queue_depth (backend_at ?w i) = queue_depth (backend_at w i)"
  proof (cases "i = acc_backend acc")
    case True
    have "healthy (backend_at (drop_accounting ts (fst ?j) (snd ?j)) i) = healthy (backend_at (snd ?j) i) \<and>
        queue_depth (backend_at (drop_accounting ts (fst ?j) (snd ?j)) i) = queue_depth (backend_at (snd ?j) i)"
      using True assms drop_accounting_backends(1) [of "fst ?j" "snd ?j" ts]
      by (simp add: judged_frame frame_simps record_request_end_def)
    then show ?thesis using assms(2) by (simp add: settled_def split_def judged_frame)
  next
    case False
    then show ?thesis using settled_other [OF assms(1)] by simp
  qed
  then show "healthy (backend_at ?w i) = healthy (backend_at w i)" "queue_depth (backend_at ?w i) = queue_depth (backend_at w i)"
    by simp_all
qed

text \<open>Without a backend call the breakers are at most read, and the answer is not 502.\<close>

lemma exchange_uncalled:
  assumes "alone_ok (ex_route e) a" "in_flight (controller (shared a)) \<noteq> max_in_flight (controller (shared a)) \<Longrightarrow>
      (\<exists>err. body = Inl err) \<or> routable_set (routable_at (ex_route e)) a = []"
    and "exchange up e cr body (m, a) = (r, m', a')"
  shows "cl_status r \<noteq> 502" "pool (shared a') \<in> {pool (shared a), pool (shared (refreshed_app (routable_at (ex_route e)) a))}"
proof -
  have "cl_status r \<noteq> 502 \<and> pool (shared a') \<in> {pool (shared a), pool (shared (refreshed_app (routable_at (ex_route e)) a))}"
  proof (cases "in_flight (controller (shared a)) = max_in_flight (controller (shared a))")
    case True
    then show ?thesis using assms(3)
      by (auto simp: exchange_def handler_admit_def try_acquire_cases in_flight_def inc_rejected_def frame_simps error_reply_def)
  next
    case False
    then have "in_flight (controller (shared a)) < max_in_flight (controller (shared a))"
      using assms(1) by (simp add: alone_ok_def app_ok_def state_ok_def controller_ok_def in_flight_def
          order.not_eq_order_implies_strict)
    note admit = admitted [OF this]
    show ?thesis
    proof (cases body)
      case (Inl err)
      then show ?thesis using assms(3) admit
        by (cases err) (auto simp: exchange_def handler_route_def body_error_status_def reject_def inc_rejected_def frame_simps
            error_reply_def Let_def)
    next
      case (Inr bytes)
      then have none: "routable_set (routable_at (ex_route e)) a = []" using assms(2) False by auto
      let ?b = "a\<lparr>shared := (shared a)\<lparr>controller := snd (try_acquire (controller (shared a)))\<rparr>\<rparr>"
      have "select_backend (\<lambda>_ x. x) (ex_route e) req ?b = (None, refreshed_app (routable_at (ex_route e)) ?b)" for req
        using none by (simp add: select_backend_def scan_routable_alone split_def routable_set_def refreshed_app_def
            select_loop.simps)
      then show ?thesis using assms(3) admit Inr
        by (auto simp: exchange_def handler_route_def reject_def inc_rejected_def frame_simps error_reply_def
            refreshed_app_def Let_def)
    qed
  qed
  then show "cl_status r \<noteq> 502" "pool (shared a') \<in> {pool (shared a), pool (shared (refreshed_app (routable_at (ex_route e)) a))}"
    by blast+
qed

lemma admitted_breaker:
  assumes "j < num_backends (shared a)" "i < num_backends (shared a)"
  shows "breaker (app_backend (admitted_at env req j cb a) i) =
      (if i = j then cb else breaker (app_backend (refreshed_app (routable_at env) a) i))"
    and "num_backends (shared (admitted_at env req j cb a)) = num_backends (shared a)"
    and "healthy (app_backend (admitted_at env req j cb a) i) = healthy (app_backend a i)"
    and "queue_depth (app_backend (admitted_at env req j cb a) i) = queue_depth (app_backend a i)"
proof -
  let ?r = "refreshed_app (routable_at env) a"
  have refreshed: "healthy (app_backend ?r i) = healthy (app_backend a i)"
    "queue_depth (app_backend ?r i) = queue_depth (app_backend a i)" "num_backends (shared ?r) = num_backends (shared a)"
    using assms(2) by (simp_all add: refreshed_app_def routable_pool backend_is_routable_def split_def)
  have "app_backend (admitted_at env req j cb a) i =
      (if i = j then record_request_start ((app_backend ?r i)\<lparr>breaker := cb\<rparr>) else app_backend ?r i)"
    using assms refreshed(3) by (simp add: admitted_at_def frame_simps on_backend_controller)
  then show "breaker (app_backend (admitted_at env req j cb a) i) = (if i = j then cb else breaker (app_backend ?r i))"
    "healthy (app_backend (admitted_at env req j cb a) i) = healthy (app_backend a i)"
    "queue_depth (app_backend (admitted_at env req j cb a) i) = queue_depth (app_backend a i)"
    using refreshed(1,2) by (cases "i = j"; simp add: record_request_start_def)+
  show "num_backends (shared (admitted_at env req j cb a)) = num_backends (shared a)"
    using refreshed(3) by (simp add: admitted_at_def frame_simps)
qed

text \<open>An exchange with a 502 is one more strike for one dead backend; any other exchange is none.\<close>

lemma exchange_strikes:
  assumes "alone_ok (ex_route e) a" "\<forall>b \<in> set (backends (pool (shared a))). ex_header_ok e (url b)"
    and "strikes p ts prev f B a" "finite B" "timed prev now e" "exchange up e cr body (m, a) = (r, m', a')"
    and "spec_min p < 2 ^ 53" "spec_threshold p \<le> 1" "\<And>j t. j \<in> B \<Longrightarrow> prev \<le> t \<Longrightarrow> t \<le> now \<Longrightarrow> within_horizon p (ts j) t"
    and "\<And>j. j < num_backends (shared a) \<Longrightarrow> if j \<in> B then dead_backend up (app_backend a j) else live_backend up (app_backend a j)"
  shows "\<exists>f'. strikes p ts now f' B a' \<and> sum f' B = sum f B + of_bool (cl_status r = 502)"
proof (cases "in_flight (controller (shared a)) \<noteq> max_in_flight (controller (shared a)) \<longrightarrow>
    (\<exists>err. body = Inl err) \<or> routable_set (routable_at (ex_route e)) a = []")
  case True
  have "prev \<le> routable_at (ex_route e) i \<and> routable_at (ex_route e) i \<le> now" for i
    using assms(5) le_trans unfolding timed_def by meson
  note next_at = strikes_refreshed [OF assms(3,7) this] and mid = this
  have "prev \<le> now" using mid le_trans by blast
  note exc = exchange_uncalled [OF assms(1) True [rule_format] assms(6), simplified]
  have "strikes p ts now f B a'"
    using exc(2)
  proof
    assume "pool (shared a') = pool (shared a)"
    then show ?thesis using strikes_cong [OF assms(3) \<open>prev \<le> now\<close>] by simp
  next
    assume "pool (shared a') = pool (shared (refreshed_app (routable_at (ex_route e)) a))"
    then show ?thesis using strikes_cong [OF next_at order_refl] by simp
  qed
  then show ?thesis using exc(1) by auto
next
  case False
  let ?env = "ex_route e" and ?tb = "begin_at (ex_route e) 0"
  obtain bytes where body: "body = Inr bytes" using False by (cases body) auto
  have room: "in_flight (controller (shared a)) < max_in_flight (controller (shared a))"
    using False assms(1) by (simp add: alone_ok_def app_ok_def state_ok_def controller_ok_def in_flight_def
        order.not_eq_order_implies_strict)
  have some: "routable_set (routable_at ?env) a \<noteq> []" using False by blast
  obtain j adm cb where j: "j \<in> set (routable_set (routable_at ?env) a)"
    and beg: "try_begin ?tb (breaker (app_backend (refreshed_app (routable_at ?env) a) j)) = (Some adm, cb)"
    and run: "\<And>reply chunks m1. up (upstream_request (app_backend a j) (cr_method cr) (cr_path_and_query cr) (cr_headers cr) bytes) m =
        ((reply, chunks), m1) \<Longrightarrow>
      exchange up e cr (Inr bytes) (m, a) = (client_view (ex_to_str e) (url (app_backend a j)) reply chunks, m1,
        (let a1 = admitted_at ?env (incoming e cr bytes) j cb a
         in a1\<lparr>shared := settled (ex_reply e) (ex_headers e) (upstream_outcome (ex_to_str e) reply) (guard_of e j adm a) (shared a1)\<rparr>))"
    using exchange_served [OF assms(1) room some assms(2)] by metis
  have jn: "j < num_backends (shared a)" by (rule routable_set_range [OF j])
  obtain reply chunks m1 where up: "up (upstream_request (app_backend a j) (cr_method cr) (cr_path_and_query cr) (cr_headers cr) bytes) m =
      ((reply, chunks), m1)" by (metis prod.collapse)
  let ?a1 = "admitted_at ?env (incoming e cr bytes) j cb a" and ?g = "guard_of e j adm a"
  let ?out = "upstream_outcome (ex_to_str e) reply"
  have r: "r = client_view (ex_to_str e) (url (app_backend a j)) reply chunks"
    and a': "shared a' = settled (ex_reply e) (ex_headers e) ?out ?g (shared ?a1)"
    using run [OF up] assms(6) body by (auto simp: Let_def)
  have answer: "answer_of up (app_backend a j) cr bytes m = reply" using up by (simp add: answer_of_def)
  have g: "acc_backend ?g = j" "acc_admission ?g = adm" by (simp_all add: guard_of_def)
  note adm_b = admitted_breaker [OF jn, where env = ?env and req = "incoming e cr bytes" and cb = cb]
  have n: "num_backends (shared ?a1) = num_backends (shared a)" "num_backends (shared a') = num_backends (shared a)"
    using adm_b(2) [OF jn] a' by (simp_all add: settled_size)
  have others: "breaker (app_backend a' i) = breaker (app_backend (refreshed_app (routable_at ?env) a) i)"
    if "i \<noteq> j" "i < num_backends (shared a)" for i
    using that adm_b(1) [OF that(2)] settled_other [of ?g "shared ?a1" i] a' g(1) n jn by simp
  have "prev \<le> routable_at ?env i \<and> routable_at ?env i \<le> ?tb" for i using assms(5) by (simp add: timed_def)
  note tb = strikes_refreshed [OF assms(3,7) this] and mid = this
  have ord: "?tb \<le> ex_reply e 2" "ex_reply e 2 \<le> now" "prev \<le> ?tb" "?tb \<le> now"
    using assms(5) mid le_trans unfolding timed_def by meson+
  have rest: "struck p (ts i) now (f i) (breaker (app_backend a' i))" if "i \<in> B" "i \<noteq> j" for i
  proof -
    have "i < num_backends (shared a)" using assms(3) that(1) by (simp add: strikes_def)
    moreover have "struck p (ts i) ?tb (f i) (breaker (app_backend (refreshed_app (routable_at ?env) a) i))"
      using tb that(1) by (simp add: strikes_def)
    ultimately show ?thesis using others [OF that(2)] struck_later ord(4) by simp
  qed
  have in_range: "i < num_backends (shared a') \<and> healthy (app_backend a' i)" if "i \<in> B" for i
  proof -
    have "i < num_backends (shared a)" "healthy (app_backend a i)" using assms(3) that by (simp_all add: strikes_def)
    then show ?thesis using settled_healthy [of ?g "shared ?a1" i] adm_b(3) n a' g(1) jn by simp
  qed
  show ?thesis
  proof (cases "j \<in> B")
    case True
    then have failed: "reply = Send_failed" using assms(10) [OF jn] answer by (auto simp: dead_backend_def)
    have "struck p (ts j) ?tb (f j) (breaker (app_backend (refreshed_app (routable_at ?env) a) j))"
      using tb True by (simp add: strikes_def)
    note begun = struck_begin [OF this order_refl assms(7) assms(9) [OF True ord(3,4)] beg]
    have "prev \<le> ex_reply e 2" using ord by simp
    note more = struck_failure [OF begun(2,3) ord(1) assms(7) assms(9) [OF True this ord(2)] assms(8)]
    have "breaker (app_backend a' j) = record_failure (ex_reply e 2) Normal cb"
      using settled_transport_error [of ?g "shared ?a1"] a' g n jn failed begun(1) adm_b(1) [OF jn]
      by (simp add: upstream_outcome_def)
    then have "struck p (ts j) now (Suc (f j)) (breaker (app_backend a' j))" using struck_later [OF more ord(2)] by simp
    then have "strikes p ts now (f(j := Suc (f j))) B a'" using rest in_range by (simp add: strikes_def)
    moreover have "sum (f(j := Suc (f j))) B = Suc (sum f B)"
      using True assms(4) by (simp add: sum.remove [of B j])
    moreover have "cl_status r = 502" using r failed by (simp add: client_view_def error_reply_def)
    ultimately show ?thesis by (intro exI [of _ "f(j := Suc (f j))"]) simp
  next
    case False
    then obtain st hs full where "reply = Replied st hs (Some full)" "st \<noteq> 502"
      using assms(10) [OF jn] answer unfolding live_backend_def by metis
    then have "cl_status r \<noteq> 502" using r by (simp add: client_view_def Let_def)
    moreover have "strikes p ts now f B a'" using rest in_range False unfolding strikes_def by metis
    ultimately show ?thesis by auto
  qed
qed

section \<open>One exchange after another\<close>

type_synonym 'v exchange_call = "'v exchange_env \<times> client_request \<times> (body_error + string)"

fun exchanges ::
  "'m upstream \<Rightarrow> 'v exchange_call list \<Rightarrow> 'm \<times> app_state \<Rightarrow> client_reply list \<times> 'm \<times> app_state" where
  "exchanges up [] ma = ([], ma)"
| "exchanges up ((e, cr, body) # xs) ma =
     (case exchange up e cr body ma of
        (r, ma') \<Rightarrow> (case exchanges up xs ma' of (rs, ma'') \<Rightarrow> (r # rs, ma'')))"

fun timed_row :: "instant \<Rightarrow> instant \<Rightarrow> 'v exchange_call list \<Rightarrow> bool" where
  "timed_row prev final [] \<longleftrightarrow> prev \<le> final"
| "timed_row prev final ((e, _, _) # xs) \<longleftrightarrow> (\<exists>now. timed prev now e \<and> timed_row now final xs)"

lemma timed_le: "timed prev now e \<Longrightarrow> prev \<le> now"
  unfolding timed_def using le_trans by meson

lemma timed_row_le: "timed_row prev final xs \<Longrightarrow> prev \<le> final"
  by (induction xs arbitrary: prev) (use timed_le le_trans in \<open>fastforce+\<close>)

text \<open>Every exchange hashes, reads JSON and checks header values in the same way.\<close>

definition usual_env :: "(string \<Rightarrow> string) \<Rightarrow> 'v json_api \<Rightarrow> (string \<Rightarrow> bool) \<Rightarrow> 'v exchange_env \<Rightarrow> bool" where
  "usual_env sha api hv e \<longleftrightarrow>
     (\<exists>draw. \<forall>k. choice (ex_route e) k = choose_with sha api (draw k) \<and> identity_kept (seen (ex_route e) k)) \<and>
     ex_header_ok e = hv"

text \<open>The backends keep their number and their URLs.\<close>

lemma reachable_urls:
  assumes "sys_reachable sha api c (a, T)" "build_app sha client_builds ts c = Inr ap"
  shows "num_backends (shared a) = num_backends (shared (app_start ap))"
    and "j < num_backends (shared a) \<Longrightarrow> url (app_backend a j) = url (app_backend (app_start ap) j)"
proof -
  have same: "map (\<lambda>b. (backend_id b, url b, weight b)) (backends (pool (shared a))) =
      map (\<lambda>b. (backend_id b, url b, weight b)) (backends (pool (shared (app_start ap))))"
    using sys_reachable_fixed [OF assms(1)] sys_reachable_fixed [OF start [OF assms(2), where api = api]]
    by (simp add: fixed_part_def)
  show "num_backends (shared a) = num_backends (shared (app_start ap))" using map_eq_imp_length_eq [OF same] .
  then show "j < num_backends (shared a) \<Longrightarrow> url (app_backend a j) = url (app_backend (app_start ap) j)"
    using arg_cong [OF same, of "\<lambda>xs. xs ! j"] by simp
qed

lemma exchanges_strikes:
  assumes "sys_reachable sha api c (a, {#})" "config_ok hv c" "\<forall>u v. hv (u @ v) \<longrightarrow> hv u" "length (cfg_backends c) \<le> 2 ^ 32"
    and ap: "build_app sha client_builds ts c = Inr ap"
    and p: "finite B" "spec_min p < 2 ^ 53" "spec_threshold p \<le> 1"
    and live: "\<And>j. j < num_backends (shared (app_start ap)) \<Longrightarrow>
      if j \<in> B then dead_backend up (app_backend (app_start ap) j) else live_backend up (app_backend (app_start ap) j)"
    and "\<forall>(e, _) \<in> set xs. usual_env sha api hv e" "timed_row prev final xs" "strikes p ts prev f B a"
    and "\<And>j t. j \<in> B \<Longrightarrow> prev \<le> t \<Longrightarrow> t \<le> final \<Longrightarrow> within_horizon p (ts j) t"
    and "exchanges up xs (m, a) = (rs, m', a')"
  shows "\<exists>f'. strikes p ts final f' B a' \<and> sum f' B = sum f B + length (filter (\<lambda>r. cl_status r = 502) rs)"
  using assms(1,10-)
proof (induction xs arbitrary: prev f m a rs)
  case Nil
  then show ?case using strikes_cong [of p ts prev f B a final] by auto
next
  case (Cons x xs)
  obtain e cr body where x: "x = (e, cr, body)" by (cases x) auto
  obtain now where now: "timed prev now e" "timed_row now final xs" using Cons.prems(3) x by auto
  obtain r m1 a1 where ex: "exchange up e cr body (m, a) = (r, m1, a1)" by (metis prod_cases3)
  obtain rs1 where rest: "exchanges up xs (m1, a1) = (rs1, m', a')" "rs = r # rs1"
    using Cons.prems(6) x ex by (auto split: prod.splits)
  obtain draw where env: "\<forall>k. choice (ex_route e) k = choose_with sha api (draw k) \<and> identity_kept (seen (ex_route e) k)"
    "ex_header_ok e = hv" using Cons.prems(2) x by (auto simp: usual_env_def)
  note urls = reachable_urls [OF Cons.prems(1) ap]
  have alone: "alone_ok (ex_route e) a"
    using sys_reachable_ok [OF Cons.prems(1) assms(4)] env(1) by (simp add: alone_ok_def sys_ok_def)
  have header: "\<forall>b \<in> set (backends (pool (shared a))). ex_header_ok e (url b)"
    using started_urls_accepted [OF assms(2,3) ap] urls env(2) by (metis in_set_conv_nth nth_mem)
  have kind: "if j \<in> B then dead_backend up (app_backend a j) else live_backend up (app_backend a j)"
    if "j < num_backends (shared a)" for j
    using live [of j] that urls answer_of_url [where up = up, OF urls(2) [OF that]] by (simp add: dead_backend_def live_backend_def split: if_splits)
  have order: "prev \<le> now" "now \<le> final" using timed_le [OF now(1)] timed_row_le [OF now(2)] .
  then have near: "within_horizon p (ts j) t" if "j \<in> B" "prev \<le> t" "t \<le> now" for j t
    using Cons.prems(5) [OF that(1,2)] that(3) by simp
  obtain f1 where f1: "strikes p ts now f1 B a1" "sum f1 B = sum f B + of_bool (cl_status r = 502)"
    using exchange_strikes [OF alone header Cons.prems(4) p(1) now(1) ex p(2,3) near kind] by blast
  have reach: "sys_reachable sha api c (a1, {#})" by (rule sys_reachable_run [OF exchange_run [OF env(1) ex] Cons.prems(1)])
  have "within_horizon p (ts j) t" if "j \<in> B" "now \<le> t" "t \<le> final" for j t
    using Cons.prems(5) [OF that(1)] order that by simp
  moreover have "\<forall>(e, _) \<in> set xs. usual_env sha api hv e" using Cons.prems(2) by simp
  ultimately obtain f2 where "strikes p ts final f2 B a'"
    "sum f2 B = sum f1 B + length (filter (\<lambda>r. cl_status r = 502) rs1)"
    using Cons.IH [OF reach _ now(2) f1(1) _ rest(1)] by blast
  then show ?case using f1(2) rest(2) by (intro exI [of _ f2]) auto
qed

text \<open>No strikes at the start.\<close>

lemma fresh_strikes:
  assumes "build_app sha client_builds ts c = Inr ap" "cbc_failure_rate_threshold (cfg_circuit_breaker c) = Fin thr"
    and "p = params_of thr (cbc_min_requests (cfg_circuit_breaker c)) (cbc_window_secs (cfg_circuit_breaker c))
      (cbc_open_duration_secs (cfg_circuit_breaker c))"
    and "B \<subseteq> {..<num_backends (shared (app_start ap))}" "\<And>j. j \<in> B \<Longrightarrow> ts j \<le> t0"
  shows "strikes p ts t0 (\<lambda>_. 0) B (app_start ap)"
  unfolding strikes_def
proof (intro ballI conjI)
  fix j
  assume "j \<in> B"
  then show j: "j < num_backends (shared (app_start ap))" using assms(4) by blast
  have "pool (shared (app_start ap)) = new_pool (build_backends ts c) (max_backend_queue_depth (cfg_backpressure c))"
    using assms(1) by (auto simp: build_app_def Let_def split: sum.splits if_splits)
  then have fresh: "breaker (app_backend (app_start ap) j) = from_config (cfg_circuit_breaker c) (ts j)"
    and up: "healthy (app_backend (app_start ap) j)"
    using j by (simp_all add: new_pool_def build_backends_nth new_backend_def)
  from up show "healthy (app_backend (app_start ap) j)" .
  show "struck p (ts j) t0 0 (breaker (app_backend (app_start ap) j))"
    using struck_later [OF struck_new [OF assms(3) [symmetric]]] assms(5) [OF \<open>j \<in> B\<close>]
    by (simp add: fresh from_config_def assms(2))
qed

text \<open>
  C33. Faults are contained. Some of the backends of a freshly started router are dead, the
  others answer. Then, while requests are handled one after another within the breaker's window
  and before its open duration is over, at most \<open>min_requests\<close> of them per dead backend end in a
  502, however many there are: whatever the strategy, the threshold and the requests, the circuit of a
  dead backend is open by then and the others carry the load.
\<close>

theorem dead_backends_cost_bounded:
  assumes "config_ok hv c" "\<forall>u v. hv (u @ v) \<longrightarrow> hv u" "length (cfg_backends c) \<le> 2 ^ 32"
    and "build_app sha client_builds ts c = Inr ap" "cbc_min_requests (cfg_circuit_breaker c) < 2 ^ 53"
    and "B \<subseteq> {..<num_backends (shared (app_start ap))}"
    and "\<forall>j < num_backends (shared (app_start ap)).
      if j \<in> B then dead_backend up (app_backend (app_start ap) j) else live_backend up (app_backend (app_start ap) j)"
    and "\<forall>(e, _) \<in> set xs. usual_env sha api hv e" "timed_row t0 t1 xs"
    and "\<forall>j \<in> B. ts j \<le> t0 \<and> t1 < ts j + from_secs (unat (cbc_window_secs (cfg_circuit_breaker c))) \<and>
      t1 < ts j + from_secs (unat (cbc_open_duration_secs (cfg_circuit_breaker c)))"
  shows "length (filter (\<lambda>r. cl_status r = 502) (fst (exchanges up xs (m, app_start ap)))) \<le>
    card B * unat (cbc_min_requests (cfg_circuit_breaker c))"
proof -
  let ?cfg = "cfg_circuit_breaker c"
  obtain thr where thr: "cbc_failure_rate_threshold ?cfg = Fin thr" "thr \<le> 1"
    using assms(1) by (cases "cbc_failure_rate_threshold ?cfg") (auto simp: config_ok_def unit_interval_def)
  have pos: "cbc_min_requests ?cfg \<noteq> 0" "1 \<le> cbc_window_secs ?cfg" using assms(1) by (simp_all add: config_ok_def)
  define p where "p = params_of thr (cbc_min_requests ?cfg) (cbc_window_secs ?cfg) (cbc_open_duration_secs ?cfg)"
  have p: "spec_min p = unat (cbc_min_requests ?cfg)" "spec_window p = unat (cbc_window_secs ?cfg)"
    "spec_open p = from_secs (unat (cbc_open_duration_secs ?cfg))" "spec_threshold p = thr"
    using pos by (simp_all add: p_def params_of_def max_absorb1 word_le_nat_alt word_less_nat_alt unat_gt_0 Suc_leI)
  have small: "spec_min p < 2 ^ 53" using assms(5) p(1) by (simp add: word_less_nat_alt)
  have none: "strikes p ts t0 (\<lambda>_. 0) B (app_start ap)"
    by (rule fresh_strikes [OF assms(4) thr(1) p_def assms(6)]) (use assms(10) in blast)
  have horizon: "within_horizon p (ts j) t" if "j \<in> B" "t0 \<le> t" "t \<le> t1" for j t
    using assms(10) that p by (auto simp: within_horizon_def)
  obtain rs m' a' where ex: "exchanges up xs (m, app_start ap) = (rs, m', a')" by (metis prod_cases3)
  have "finite B" "spec_threshold p \<le> 1" using assms(6) finite_subset thr(2) p(4) by auto
  then obtain f' where "strikes p ts t1 f' B a'" "sum f' B = length (filter (\<lambda>r. cl_status r = 502) rs)"
    using exchanges_strikes [OF start [OF assms(4)] assms(1-4) _ small _ assms(7) [rule_format] assms(8,9) none horizon ex]
    by auto
  moreover from this have "f' j \<le> spec_min p" if "j \<in> B" for j
    using that struck_le unfolding strikes_def by blast
  then have "sum f' B \<le> card B * spec_min p" using sum_bounded_above [of B f' "spec_min p"] by simp
  ultimately show ?thesis using ex p(1) by simp
qed

text \<open>A hundred requests to the router with one backend, which is dead: five of them end in a 502.\<close>

definition dead_upstream :: "unit upstream" where
  "dead_upstream rq m = ((Send_failed, []), m)"

theorem dead_backends_cost_bounded_witness:
  "\<exists>ap. build_app sample_sha (\<lambda>_ _. True) (\<lambda>_. 0) demo_config = Inr ap \<and>
     length (filter (\<lambda>r. cl_status r = 502)
       (fst (exchanges dead_upstream (replicate 100 (demo_exchange, demo_request, Inr [])) ((), app_start ap)))) \<le> 5"
proof -
  obtain ap where ap: "build_app sample_sha (\<lambda>_ _. True) (\<lambda>_. 0) demo_config = Inr ap"
    using valid_config_builds [OF demo_config_ok(1,3)] by blast
  have cfg: "cbc_min_requests (cfg_circuit_breaker demo_config) = 5" "cbc_window_secs (cfg_circuit_breaker demo_config) = 60"
    "cbc_open_duration_secs (cfg_circuit_breaker demo_config) = 30"
    by (simp_all add: demo_config_def read_config_def minimal_document_def read_circuit_breaker_def the_default_def
        default_min_requests_def default_window_secs_def default_open_duration_secs_def)
  have size: "num_backends (shared (app_start ap)) = 1"
    using sys_reachable_fixed [OF start [OF ap, where api = prompt_api]] demo_config_ok(2)
    by (auto simp: fixed_part_def dest: arg_cong [of _ _ length])
  have "timed 0 0 demo_exchange" "usual_env sample_sha prompt_api (\<lambda>_. True) demo_exchange"
    by (auto simp: timed_def usual_env_def demo_exchange_def identity_kept_def)
  moreover from this(1) have "timed_row 0 0 (replicate n (demo_exchange, demo_request, Inr []))" for n
    by (induction n) auto
  moreover have "dead_backend dead_upstream b" for b
    by (simp add: dead_backend_def answer_of_def dead_upstream_def)
  ultimately show ?thesis
    using dead_backends_cost_bounded [OF demo_config_ok(1) _ _ ap, of "{0}" dead_upstream
        "replicate 100 (demo_exchange, demo_request, Inr [])" prompt_api 0 0 "()"] ap cfg demo_config_ok(2) size
    by (intro exI [of _ ap]) (simp add: from_secs_def)
qed

section \<open>Recovery\<close>

lemma served_stays_closed:
  assumes "try_begin t cb0 = (Some adm, cb)"
  shows "adm = Normal \<Longrightarrow> state (inner cb) = Closed" "adm = Probe \<Longrightarrow> state (inner (record_success t' Probe cb)) = Closed"
proof -
  have "adm = (case state (inner cb) of Closed \<Rightarrow> Normal | _ \<Rightarrow> Probe) \<and> state (inner cb) \<noteq> Open"
    using assms try_begin_result(1,2) [of t cb0] by (auto split: circuit_state.splits if_splits)
  then show "adm = Normal \<Longrightarrow> state (inner cb) = Closed"
    "adm = Probe \<Longrightarrow> state (inner (record_success t' Probe cb)) = Closed"
    by (cases "state (inner cb)"; simp add: record_success_state refreshed_state)+
qed

lemma resolved_guard:
  assumes "resolve_probe_on_headers t st (mark_headers_received_at h acc) w = (acc1, w1)" "is_success st"
  shows "acc_backend acc1 = acc_backend acc" "acc_admission acc1 = Normal"
    "w1 = (if acc_admission acc = Probe
           then on_backend (acc_backend acc) (\<lambda>b. b\<lparr>breaker := record_success t Probe (breaker b)\<rparr>) w else w)"
  using assms by (cases "acc_admission acc"; auto simp: resolve_probe_on_headers_def mark_headers_received_at_def)+

lemma settled_success:
  assumes "acc_backend acc < num_backends w" "is_success st"
    and "try_begin t cb0 = (Some (acc_admission acc), breaker (backend_at w (acc_backend acc)))"
  shows "state (inner (breaker (backend_at (settled ts h (Completed st) acc w) (acc_backend acc)))) = Closed"
proof -
  obtain acc1 w1 where res: "resolve_probe_on_headers (ts 3) st (mark_headers_received_at h acc) w = (acc1, w1)" by fastforce
  note same = resolved_guard [OF res assms(2)]
  have closed: "state (inner (breaker (backend_at w1 (acc_backend acc)))) = Closed"
    using served_stays_closed [OF assms(3)] assms(1) unfolding same(3)
    by (cases "acc_admission acc") (simp_all add: frame_simps)
  let ?acc = "acc1\<lparr>acc_outcome := Completed st\<rparr>"
  have "num_backends w1 = num_backends w" by (simp add: same(3) frame_simps)
  then have "breaker (backend_at (drop_accounting ts ?acc w1) (acc_backend acc)) =
      record_success (ts 2) Normal (breaker (backend_at w1 (acc_backend acc)))"
    using drop_accounting_backends(1) [of ?acc w1 ts] same(1,2) assms(1,2)
    by (simp add: judge_breaker_verdict judge_breaker_def is_server_error_def is_success_def frame_simps record_request_end_def)
  then show ?thesis using res closed by (simp add: settled_def judged_def record_success_state refreshed_state)
qed

text \<open>What an exchange with a 2xx changes: the circuit of its backend is closed, the other breakers were read.\<close>

definition succeeds :: "'m upstream \<Rightarrow> backend \<Rightarrow> client_request \<Rightarrow> string \<Rightarrow> 'm \<Rightarrow> bool" where
  "succeeds up b cr bytes m \<longleftrightarrow> (\<exists>st hs full. answer_of up b cr bytes m = Replied st hs (Some full) \<and> is_success st)"

lemma find_in_append: "find P (xs @ ys) = (case find P xs of None \<Rightarrow> find P ys | Some x \<Rightarrow> Some x)"
  by (induction xs) simp_all

lemma exchange_success:
  assumes "alone_ok (ex_route e) a" "in_flight (controller (shared a)) < max_in_flight (controller (shared a))"
    and "routable_set (routable_at (ex_route e)) a \<noteq> []" "\<forall>b \<in> set (backends (pool (shared a))). ex_header_ok e (url b)"
    and "\<forall>b \<in> set (backends (pool (shared a))). succeeds up b cr bytes m"
    and "exchange up e cr (Inr bytes) (m, a) = (r, m', a')"
  obtains j where "j \<in> set (routable_set (routable_at (ex_route e)) a)" "fst (chosen (ex_route e) (incoming e cr bytes) a) = Some j"
    "is_success (cl_status r)" "header_get ''x-router-backend'' (cl_headers r) = Some (url (app_backend a j))"
    "num_backends (shared a') = num_backends (shared a)" "strategy_obj a' = snd (chosen (ex_route e) (incoming e cr bytes) a)"
    "state (inner (breaker (app_backend a' j))) = Closed"
    "\<And>i. i < num_backends (shared a) \<Longrightarrow> i \<noteq> j \<Longrightarrow>
      breaker (app_backend a' i) = breaker (app_backend (refreshed_app (routable_at (ex_route e)) a) i)"
    "\<And>i. i < num_backends (shared a) \<Longrightarrow> healthy (app_backend a' i) = healthy (app_backend a i) \<and>
      queue_depth (app_backend a' i) = queue_depth (app_backend a i)"
    "\<exists>hs full. answer_of up (app_backend a j) cr bytes m = Replied (cl_status r) hs (Some full)"
    "m' = snd (up (upstream_request (app_backend a j) (cr_method cr) (cr_path_and_query cr) (cr_headers cr) bytes) m)"
proof -
  obtain j adm cb where j: "j \<in> set (routable_set (routable_at (ex_route e)) a)"
    and pick: "fst (chosen (ex_route e) (incoming e cr bytes) a) = Some j"
    and beg: "try_begin (begin_at (ex_route e) 0) (breaker (app_backend (refreshed_app (routable_at (ex_route e)) a) j)) = (Some adm, cb)"
    and run: "\<And>reply chunks m1. up (upstream_request (app_backend a j) (cr_method cr) (cr_path_and_query cr) (cr_headers cr) bytes) m =
        ((reply, chunks), m1) \<Longrightarrow>
      exchange up e cr (Inr bytes) (m, a) = (client_view (ex_to_str e) (url (app_backend a j)) reply chunks, m1,
        (let a1 = admitted_at (ex_route e) (incoming e cr bytes) j cb a
         in a1\<lparr>shared := settled (ex_reply e) (ex_headers e) (upstream_outcome (ex_to_str e) reply) (guard_of e j adm a) (shared a1)\<rparr>))"
    using exchange_served [OF assms(1-4)] by metis
  have jn: "j < num_backends (shared a)" by (rule routable_set_range [OF j])
  then obtain st hs full chunks m1 where reply: "is_success st"
    "up (upstream_request (app_backend a j) (cr_method cr) (cr_path_and_query cr) (cr_headers cr) bytes) m = ((Replied st hs (Some full), chunks), m1)"
    using assms(5) nth_mem unfolding succeeds_def answer_of_def by (metis prod.collapse)
  let ?a1 = "admitted_at (ex_route e) (incoming e cr bytes) j cb a" and ?g = "guard_of e j adm a"
  have r: "r = client_view (ex_to_str e) (url (app_backend a j)) (Replied st hs (Some full)) chunks"
    and a': "a' = ?a1\<lparr>shared := settled (ex_reply e) (ex_headers e) (Completed st) ?g (shared ?a1)\<rparr>"
    using run [OF reply(2)] assms(6) by (auto simp: Let_def upstream_outcome_def)
  have g: "acc_backend ?g = j" "acc_admission ?g = adm" by (simp_all add: guard_of_def)
  note at = admitted_breaker [OF jn, where env = "ex_route e" and req = "incoming e cr bytes" and cb = cb]
  have n: "acc_backend ?g < num_backends (shared ?a1)" "num_backends (shared ?a1) = num_backends (shared a)"
    using at(2) [OF jn] jn g by simp_all
  show thesis
  proof (rule that [OF j pick])
    show "is_success (cl_status r)" using r reply(1) by (simp add: client_view_def Let_def)
    have "find (\<lambda>h. fst h = ''x-router-backend'') (filter_headers hs) = None"
      by (auto simp: find_None_iff filter_headers_filter is_hop_by_hop_def HOP_BY_HOP_def)
    then show "header_get ''x-router-backend'' (cl_headers r) = Some (url (app_backend a j))"
      using r by (simp add: client_view_def Let_def header_get_def find_in_append)
    show "num_backends (shared a') = num_backends (shared a)" using n a' by (simp add: settled_size)
    show "strategy_obj a' = snd (chosen (ex_route e) (incoming e cr bytes) a)" by (simp add: a' admitted_at_def)
    show "state (inner (breaker (app_backend a' j))) = Closed"
      using settled_success [OF n(1) reply(1)] beg at(1) [OF jn] g a' by simp
    show "breaker (app_backend a' i) = breaker (app_backend (refreshed_app (routable_at (ex_route e)) a) i)"
      if "i < num_backends (shared a)" "i \<noteq> j" for i
      using settled_other [OF n(1)] that at(1) [OF that(1)] g a' by simp
    show "healthy (app_backend a' i) = healthy (app_backend a i) \<and> queue_depth (app_backend a' i) = queue_depth (app_backend a i)"
      if "i < num_backends (shared a)" for i
      using settled_healthy [OF n(1), of i] that at(3,4) [OF that] n(2) a' by simp
    show "\<exists>hs full. answer_of up (app_backend a j) cr bytes m = Replied (cl_status r) hs (Some full)"
      using r reply(2) by (simp add: client_view_def Let_def answer_of_def)
    show "m' = snd (up (upstream_request (app_backend a j) (cr_method cr) (cr_path_and_query cr) (cr_headers cr) bytes) m)"
      using run [OF reply(2)] assms(6) reply(2) by simp
  qed
qed

text \<open>
  C10. Open circuits heal. In a router without live requests, whatever happened to it before, let some
  backend be healthy, and let the open duration of its circuit be over if it is open. When the
  backends answer again, the next request that is handled without interruption is answered with a
  2xx under the URL of the backend that served it, and the circuit of that backend is closed afterwards.
\<close>

theorem open_circuits_heal:
  fixes up :: "'m upstream" and api :: "'v json_api"
  assumes "sys_reachable sha api c (a, {#})" "length (cfg_backends c) \<le> 2 ^ 32" "config_ok hv c"
    and "\<forall>k. choice (ex_route e) k = choose_with sha api (draw k) \<and> identity_kept (seen (ex_route e) k)"
    and "\<forall>b \<in> set (backends (pool (shared a))). ex_header_ok e (url b)"
    and "i < num_backends (shared a)" "healthy (app_backend a i)"
    and "\<forall>t. opened_at (inner (breaker (app_backend a i))) = Some t \<longrightarrow>
      t + open_duration (breaker (app_backend a i)) \<le> routable_at (ex_route e) i"
    and "\<forall>b \<in> set (backends (pool (shared a))). succeeds up b cr bytes m"
    and "exchange up e cr (Inr bytes) (m, a) = (r, m', a')"
  shows "is_success (cl_status r) \<and> (\<exists>j < num_backends (shared a').
    header_get ''x-router-backend'' (cl_headers r) = Some (url (app_backend a' j)) \<and> state (inner (breaker (app_backend a' j))) = Closed)"
proof -
  have ok: "sys_ok sha (a, {#})" by (rule sys_reachable_ok [OF assms(1,2)])
  then have zero: "in_flight (controller (shared a)) = 0" and np: "\<not> probe_out (breaker (app_backend a i))"
    and bok: "breaker_ok (breaker (app_backend a i))"
    using assms(6) by (auto simp: sys_ok_def counts_match_def unat_eq_zero app_ok_def state_ok_def pool_ok_def)
  have room: "in_flight (controller (shared a)) < max_in_flight (controller (shared a))"
    using zero sys_reachable_fixed [OF assms(1)] assms(3) by (simp add: fixed_part_def config_ok_def word_neq_0_conv)
  have alone: "alone_ok (ex_route e) a" using ok assms(4) by (simp add: alone_ok_def sys_ok_def)
  have "fst (breaker_is_routable (routable_at (ex_route e) i) (breaker (app_backend a i)))"
    using bok np assms(8) by (cases "state (inner (breaker (app_backend a i)))")
      (fastforce simp: breaker_results refreshed_state breaker_ok_def inner_ok_def)+
  then have some: "routable_set (routable_at (ex_route e)) a \<noteq> []"
    using routable_nonempty [of "routable_at (ex_route e)" "pool (shared a)" i] assms(6,7)
    by (simp add: available_at_def routable_set_def)
  show ?thesis
  proof (rule exchange_success [OF alone room some assms(5,9,10)])
    fix j
    assume j: "j \<in> set (routable_set (routable_at (ex_route e)) a)" and closed: "state (inner (breaker (app_backend a' j))) = Closed"
      and r: "is_success (cl_status r)" "header_get ''x-router-backend'' (cl_headers r) = Some (url (app_backend a j))"
      and n: "num_backends (shared a') = num_backends (shared a)"
    have "sys_reachable sha api c (a', {#})"
      by (rule sys_reachable_run [OF exchange_run [OF assms(4,10)] assms(1)])
    then have same: "map (\<lambda>b. (backend_id b, url b, weight b)) (backends (pool (shared a'))) =
        map (\<lambda>b. (backend_id b, url b, weight b)) (backends (pool (shared a)))"
      using sys_reachable_fixed [OF assms(1)] sys_reachable_fixed [of sha api c "(a', {#})"] by (simp add: fixed_part_def)
    have "j < num_backends (shared a)" by (rule routable_set_range [OF j])
    then have "url (app_backend a' j) = url (app_backend a j)"
      using arg_cong [OF same, of "\<lambda>xs. xs ! j"] n by simp
    then show ?thesis using r closed n \<open>j < num_backends (shared a)\<close> by metis
  qed
qed

text \<open>The router whose one backend was dead for a hundred requests, thirty seconds later.\<close>

lemma exchanges_run:
  assumes "\<forall>(e, _) \<in> set xs. usual_env sha api hv e" "exchanges up xs (m, a) = (rs, m', a')"
  shows "(sys_step sha api)\<^sup>*\<^sup>* (a, T) (a', T)"
  using assms
proof (induction xs arbitrary: m a rs)
  case (Cons x xs)
  obtain e cr body where x: "x = (e, cr, body)" by (cases x) auto
  obtain r m1 a1 where ex: "exchange up e cr body (m, a) = (r, m1, a1)" by (metis prod_cases3)
  obtain draw where "\<forall>k. choice (ex_route e) k = choose_with sha api (draw k) \<and> identity_kept (seen (ex_route e) k)"
    using Cons.prems(1) x by (auto simp: usual_env_def)
  note first = exchange_run [OF this ex, of T]
  have "\<exists>rs1. exchanges up xs (m1, a1) = (rs1, m', a')" using Cons.prems(2) x ex by (auto split: prod.splits)
  then have "(sys_step sha api)\<^sup>*\<^sup>* (a1, T) (a', T)" using Cons.IH Cons.prems(1) by auto
  with first show ?case by (rule rtranclp_trans)
qed simp

definition late_exchange :: "code_points exchange_env" where
  "late_exchange = demo_exchange\<lparr>ex_route := (ex_route demo_exchange)\<lparr>routable_at := (\<lambda>_. from_secs 30), begin_at := (\<lambda>_. from_secs 30)\<rparr>,
     ex_start := from_secs 30, ex_headers := from_secs 30, ex_reply := (\<lambda>_. from_secs 30)\<rparr>"

theorem open_circuits_heal_witness:
  "\<exists>ap rs a r m' a'. build_app sample_sha (\<lambda>_ _. True) (\<lambda>_. 0) demo_config = Inr ap \<and>
     exchanges dead_upstream (replicate 100 (demo_exchange, demo_request, Inr [])) ((), app_start ap) = (rs, (), a) \<and>
     exchange demo_upstream late_exchange demo_request (Inr []) (0, a) = (r, m', a') \<and> is_success (cl_status r)"
proof -
  obtain ap where ap: "build_app sample_sha (\<lambda>_ _. True) (\<lambda>_. 0) demo_config = Inr ap"
    using valid_config_builds [OF demo_config_ok(1,3)] by blast
  let ?c = "cfg_circuit_breaker demo_config" and ?row = "replicate 100 (demo_exchange, demo_request, Inr []) :: code_points exchange_call list"
  obtain thr where thr: "cbc_failure_rate_threshold ?c = Fin thr" "thr \<le> 1"
    using demo_config_ok(1) by (cases "cbc_failure_rate_threshold ?c") (auto simp: config_ok_def unit_interval_def)
  define p where "p = params_of thr (cbc_min_requests ?c) (cbc_window_secs ?c) (cbc_open_duration_secs ?c)"
  have p: "spec_min p = 5" "spec_window p = 60" "spec_open p = from_secs 30" "spec_threshold p = thr"
    by (simp_all add: p_def params_of_def demo_config_def read_config_def minimal_document_def read_circuit_breaker_def the_default_def
        default_min_requests_def default_window_secs_def default_open_duration_secs_def)
  have size: "num_backends (shared (app_start ap)) = 1"
    using sys_reachable_fixed [OF start [OF ap, where api = prompt_api]] demo_config_ok(2)
    by (auto simp: fixed_part_def dest: arg_cong [of _ _ length])
  have env: "timed 0 0 demo_exchange" "usual_env sample_sha prompt_api (\<lambda>_. True) demo_exchange"
    by (auto simp: timed_def usual_env_def demo_exchange_def identity_kept_def)
  have "timed_row 0 0 (replicate n (demo_exchange, demo_request, Inr []))" for n using env(1) by (induction n) auto
  then have row: "timed_row 0 0 ?row" "\<forall>(e, _) \<in> set ?row. usual_env sample_sha prompt_api (\<lambda>_. True) e"
    using env(2) by simp_all
  obtain rs a where dead: "exchanges dead_upstream ?row ((), app_start ap) = (rs, (), a)" by (metis prod_cases3 old.unit.exhaust)
  have none: "strikes p (\<lambda>_. 0) 0 (\<lambda>_. 0) {0} (app_start ap)" by (rule fresh_strikes [OF ap thr(1) p_def]) (simp_all add: size)
  have "\<exists>f'. strikes p (\<lambda>_. 0) 0 f' {0} a \<and> sum f' {0} = sum (\<lambda>_. 0) {0 :: nat} + length (filter (\<lambda>r. cl_status r = 502) rs)"
    by (rule exchanges_strikes [OF start [OF ap] demo_config_ok(1) _ _ ap _ _ _ _ row(2,1) none _ dead])
      (simp_all add: demo_config_ok(2) p thr(2) size dead_backend_def answer_of_def dead_upstream_def within_horizon_def from_secs_def)
  then obtain n where struck: "healthy (app_backend a 0)" "struck p 0 0 n (breaker (app_backend a 0))" "num_backends (shared a) > 0"
    by (auto simp: strikes_def)
  have reach: "sys_reachable sample_sha prompt_api demo_config (a, {#})"
    by (rule sys_reachable_run [OF exchanges_run [OF row(2) dead] start [OF ap]])
  have "breaker_ok (breaker (app_backend a 0))"
    using sys_reachable_ok [OF reach] demo_config_ok(2) struck(3)
    by (auto simp: sys_ok_def app_ok_def state_ok_def pool_ok_def)
  note opened = struck_opened [OF struck(2) this]
  obtain r m' a' where ex: "exchange demo_upstream late_exchange demo_request (Inr []) (0, a) = (r, m', a')" by (metis prod_cases3)
  have "is_success (cl_status r)"
    using open_circuits_heal [OF reach _ demo_config_ok(1) _ _ struck(3,1) _ _ ex, of "\<lambda>_. Fin 0"] opened demo_config_ok(2) p(3)
    by (auto simp: late_exchange_def demo_exchange_def identity_kept_def demo_upstream_def is_success_def succeeds_def answer_of_def)
  then show ?thesis using ap dead ex by blast
qed

end
