(* ===== verification/Service.thy ===== *)
theory Service
  imports Fault_Isolation
begin

text \<open>
  A row of requests to a router whose circuits are closed and whose backends answer: the router is
  then its strategy. For round robin this gives the order in which the backends serve, over any number
  of requests, from the client's side.
\<close>

section \<open>A router with closed circuits\<close>

definition calm :: "app_state \<Rightarrow> bool" where
  "calm a \<longleftrightarrow> (\<forall>i < num_backends (shared a). state (inner (breaker (app_backend a i))) = Closed)"

text \<open>The healthy backends within the queue limit, or all healthy ones if every one is over it.\<close>

definition serving :: "app_state \<Rightarrow> nat list" where
  "serving a =
     (let up = filter (\<lambda>i. healthy (app_backend a i)) [0..<num_backends (shared a)];
          short = filter (within_queue_limit (pool (shared a))) up
      in if short = [] then up else short)"

lemma calm_routable:
  assumes "calm a"
  shows "routable_set ts a = serving a"
proof -
  have "available_at ts (pool (shared a)) i \<longleftrightarrow> healthy (app_backend a i)" if "i < num_backends (shared a)" for i
    using assms that by (simp add: available_at_def calm_def breaker_results refreshed_state)
  then have "filter (available_at ts (pool (shared a))) [0..<num_backends (shared a)] =
      filter (\<lambda>i. healthy (app_backend a i)) [0..<num_backends (shared a)]"
    by (intro filter_cong) simp_all
  then show ?thesis by (simp add: routable_set_def routable_list serving_def)
qed

lemma serving_range: "j \<in> set (serving a) \<Longrightarrow> j < num_backends (shared a)"
  by (auto simp: serving_def Let_def split: if_splits)

lemma serving_distinct: "distinct (serving a)"
  by (simp add: serving_def Let_def)

lemma serving_cong:
  assumes "num_backends (shared a') = num_backends (shared a)" "max_queue_depth (pool (shared a')) = max_queue_depth (pool (shared a))"
    and "\<And>i. i < num_backends (shared a) \<Longrightarrow> healthy (app_backend a' i) = healthy (app_backend a i) \<and>
      queue_depth (app_backend a' i) = queue_depth (app_backend a i)"
  shows "serving a' = serving a"
proof -
  have up: "filter (\<lambda>i. healthy (app_backend a' i)) [0..<num_backends (shared a)] =
      filter (\<lambda>i. healthy (app_backend a i)) [0..<num_backends (shared a)]"
    using assms(3) by (intro filter_cong) simp_all
  have "filter (within_queue_limit (pool (shared a'))) (filter (\<lambda>i. healthy (app_backend a i)) [0..<num_backends (shared a)]) =
      filter (within_queue_limit (pool (shared a))) (filter (\<lambda>i. healthy (app_backend a i)) [0..<num_backends (shared a)])"
    using assms(2,3) by (intro filter_cong) (auto simp: within_queue_limit_def)
  with up show ?thesis by (simp add: serving_def assms(1))
qed

lemma calm_refreshed:
  assumes "calm a" "i < num_backends (shared a)"
  shows "state (inner (breaker (app_backend (refreshed_app ts a) i))) = Closed"
  using assms by (simp add: calm_def refreshed_app_def routable_pool backend_is_routable_def breaker_results split_def refreshed_state)

section \<open>One request\<close>

lemma calm_step:
  assumes reach: "sys_reachable sha api c (a, {#})" and c: "config_ok hv c" "\<forall>u v. hv (u @ v) \<longrightarrow> hv u" "length (cfg_backends c) \<le> 2 ^ 32"
    and ap: "build_app sha client_builds ts c = Inr ap"
    and "calm a" "serving a \<noteq> []" "usual_env sha api hv e"
    and "\<forall>b \<in> set (backends (pool (shared a))). succeeds up b cr bytes m"
    and "exchange up e cr (Inr bytes) (m, a) = (r, m', a')"
  obtains j where "j \<in> set (serving a)" "fst (chosen (ex_route e) (incoming e cr bytes) a) = Some j" "is_success (cl_status r)"
    "header_get ''x-router-backend'' (cl_headers r) = Some (url (app_backend a j))"
    "strategy_obj a' = snd (chosen (ex_route e) (incoming e cr bytes) a)"
    "sys_reachable sha api c (a', {#})" "calm a'" "serving a' = serving a"
    "\<exists>hs full. answer_of up (app_backend a j) cr bytes m = Replied (cl_status r) hs (Some full)"
    "m' = snd (up (upstream_request (app_backend a j) (cr_method cr) (cr_path_and_query cr) (cr_headers cr) bytes) m)"
proof -
  obtain draw where env: "\<forall>k. choice (ex_route e) k = choose_with sha api (draw k) \<and> identity_kept (seen (ex_route e) k)"
    "ex_header_ok e = hv" using assms(8) by (auto simp: usual_env_def)
  note urls = reachable_urls [OF reach ap]
  have ok: "sys_ok sha (a, {#})" by (rule sys_reachable_ok [OF reach c(3)])
  then have "in_flight (controller (shared a)) = 0" by (simp add: sys_ok_def counts_match_def unat_eq_zero)
  then have room: "in_flight (controller (shared a)) < max_in_flight (controller (shared a))"
    using sys_reachable_fixed [OF reach] c(1) by (simp add: fixed_part_def config_ok_def word_neq_0_conv)
  have alone: "alone_ok (ex_route e) a" using ok env(1) by (simp add: alone_ok_def sys_ok_def)
  have some: "routable_set (routable_at (ex_route e)) a \<noteq> []" using calm_routable assms(6,7) by simp
  have header: "\<forall>b \<in> set (backends (pool (shared a))). ex_header_ok e (url b)"
    using started_urls_accepted [OF c(1,2) ap] urls env(2) by (metis in_set_conv_nth nth_mem)
  have reach': "sys_reachable sha api c (a', {#})" by (rule sys_reachable_run [OF exchange_run [OF env(1) assms(10)] reach])
  show thesis
  proof (rule exchange_success [OF alone room some header assms(9,10)])
    fix j
    assume j: "j \<in> set (routable_set (routable_at (ex_route e)) a)" "fst (chosen (ex_route e) (incoming e cr bytes) a) = Some j"
      and r: "is_success (cl_status r)" "header_get ''x-router-backend'' (cl_headers r) = Some (url (app_backend a j))"
      and n: "num_backends (shared a') = num_backends (shared a)"
      and obj: "strategy_obj a' = snd (chosen (ex_route e) (incoming e cr bytes) a)"
      and closed: "state (inner (breaker (app_backend a' j))) = Closed"
      and rest: "\<And>i. i < num_backends (shared a) \<Longrightarrow> i \<noteq> j \<Longrightarrow>
        breaker (app_backend a' i) = breaker (app_backend (refreshed_app (routable_at (ex_route e)) a) i)"
      and same: "\<And>i. i < num_backends (shared a) \<Longrightarrow> healthy (app_backend a' i) = healthy (app_backend a i) \<and>
        queue_depth (app_backend a' i) = queue_depth (app_backend a i)"
      and answer: "\<exists>hs full. answer_of up (app_backend a j) cr bytes m = Replied (cl_status r) hs (Some full)"
      and moved: "m' = snd (up (upstream_request (app_backend a j) (cr_method cr) (cr_path_and_query cr) (cr_headers cr) bytes) m)"
    have "state (inner (breaker (app_backend a' i))) = Closed" if "i < num_backends (shared a)" for i
      using closed rest [OF that] calm_refreshed [OF assms(6) that] by (cases "i = j") simp_all
    then have "calm a'" using n by (simp add: calm_def)
    moreover have "max_queue_depth (pool (shared a')) = max_queue_depth (pool (shared a))"
      using sys_reachable_fixed [OF reach] sys_reachable_fixed [OF reach'] by (simp add: fixed_part_def)
    then have "serving a' = serving a" using serving_cong n same by blast
    moreover have "j \<in> set (serving a)" using j(1) calm_routable [OF assms(6)] by simp
    ultimately show thesis using that j(2) r obj reach' answer moved by blast
  qed
qed

section \<open>Round robin\<close>

text \<open>The table of slots of the backends that serve, which a turn of the counter goes through.\<close>

definition turn :: "app_state \<Rightarrow> nat list" where
  "turn a = slots (map (app_backend a) (serving a))"

lemma slots_cong:
  assumes "map (\<lambda>b. (backend_id b, weight b)) bs = map (\<lambda>b. (backend_id b, weight b)) bs'"
  shows "slots bs = slots bs'"
proof -
  have eq: "slots bs = concat (map (\<lambda>(i, w). replicate (max (unat w) 1) i) (map (\<lambda>b. (backend_id b, weight b)) bs))" for bs
    by (simp add: slots_def shares_def comp_def)
  show ?thesis unfolding eq assms ..
qed

lemma round_robin_next:
  assumes "bs \<noteq> []" "length bs \<le> 2 ^ 32"
  shows "round_robin_select req bs s =
    (Some (slots bs ! (unat (counter s) mod length (slots bs))), s\<lparr>counter := counter s + 1\<rparr>)"
  using assms by (simp add: round_robin_select_def total_weight_eq_0 weighted_pick_in_range)

lemma round_robin_chosen:
  assumes "calm a" "serving a \<noteq> []" "num_backends (shared a) \<le> 2 ^ 32" "identity_kept (seen env 0)" "strategy_obj a = S_round_robin s"
  shows "chosen env req a = (Some (turn a ! (unat (counter s) mod length (turn a))), S_round_robin (s\<lparr>counter := counter s + 1\<rparr>))"
proof -
  let ?r = "refreshed_app (routable_at env) a"
  let ?views = "map (\<lambda>j. seen env 0 (app_backend ?r j)) (serving a)"
  have "backend_id (app_backend ?r j) = backend_id (app_backend a j) \<and> weight (app_backend ?r j) = weight (app_backend a j)"
    if "j \<in> set (serving a)" for j
    using serving_range [OF that] by (simp add: refreshed_app_def routable_pool backend_is_routable_def split_def)
  then have "slots ?views = turn a"
    unfolding turn_def using assms(4) by (intro slots_cong) (simp add: identity_kept_def)
  moreover have "length (serving a) \<le> num_backends (shared a)"
    using distinct_card [OF serving_distinct, of a] card_mono [of "{..<num_backends (shared a)}" "set (serving a)"] serving_range
    by (auto simp: subset_iff)
  ultimately show ?thesis
    using round_robin_next [of ?views req s] assms by (simp add: chosen_def calm_routable)
qed

lemma set_turn:
  assumes "sys_ok sha (a, T)"
  shows "set (turn a) = set (serving a)"
proof -
  have "backend_id (app_backend a j) = j" if "j \<in> set (serving a)" for j
    using assms serving_range [OF that] by (simp add: sys_ok_def app_ok_def state_ok_def pool_ok_def)
  then show ?thesis by (simp add: turn_def set_slots image_image)
qed

text \<open>Who served, as the client sees it.\<close>

definition served_by :: "client_reply \<Rightarrow> string option" where
  "served_by r = header_get ''x-router-backend'' (cl_headers r)"

lemma same_backends:
  assumes "sys_reachable sha api c (a, T)" "sys_reachable sha api c (a', T')"
  shows "map (\<lambda>b. (backend_id b, url b, weight b)) (backends (pool (shared a'))) =
    map (\<lambda>b. (backend_id b, url b, weight b)) (backends (pool (shared a)))"
  using sys_reachable_fixed [OF assms(1)] sys_reachable_fixed [OF assms(2)] by (simp add: fixed_part_def)

lemma same_at:
  assumes "sys_reachable sha api c (a, T)" "sys_reachable sha api c (a', T')" "i < num_backends (shared a)"
  shows "backend_id (app_backend a' i) = backend_id (app_backend a i)" "url (app_backend a' i) = url (app_backend a i)"
    "weight (app_backend a' i) = weight (app_backend a i)" "num_backends (shared a') = num_backends (shared a)"
proof -
  show n: "num_backends (shared a') = num_backends (shared a)" using map_eq_imp_length_eq [OF same_backends [OF assms(1,2)]] .
  show "backend_id (app_backend a' i) = backend_id (app_backend a i)" "url (app_backend a' i) = url (app_backend a i)"
    "weight (app_backend a' i) = weight (app_backend a i)"
    using arg_cong [OF same_backends [OF assms(1,2)], of "\<lambda>xs. xs ! i"] assms(3) n by simp_all
qed

text \<open>A backend that answers every request of a row with a 2xx.\<close>

definition answers_row :: "'m upstream \<Rightarrow> 'v exchange_call list \<Rightarrow> backend \<Rightarrow> bool" where
  "answers_row up xs b \<longleftrightarrow> (\<forall>(e, cr, body) \<in> set xs. \<forall>bytes m. succeeds up b cr bytes m)"

lemma answers_row_kept:
  assumes "sys_reachable sha api c (a, T)" "sys_reachable sha api c (a', T')"
    and "\<forall>b \<in> set (backends (pool (shared a))). answers_row up xs b"
  shows "\<forall>b \<in> set (backends (pool (shared a'))). answers_row up xs b"
proof
  fix b
  assume "b \<in> set (backends (pool (shared a')))"
  then have "url b \<in> url ` set (backends (pool (shared a)))"
    using arg_cong [OF same_backends [OF assms(1,2)], of "\<lambda>xs. (\<lambda>(i, u, w). u) ` set xs"] by (auto simp: image_image)
  then obtain b0 where "b0 \<in> set (backends (pool (shared a)))" "url b = url b0" by blast
  then show "answers_row up xs b"
    using assms(3) answer_of_url [where up = up, of b b0] by (simp add: succeeds_def answers_row_def)
qed

text \<open>The status of a reply is the one that some backend gave to some request of the row.\<close>

definition reply_of :: "'m upstream \<Rightarrow> 'v exchange_call list \<Rightarrow> string list \<Rightarrow> client_reply \<Rightarrow> bool" where
  "reply_of up xs urls r \<longleftrightarrow>
     (\<exists>b. \<exists>(e, cr, body) \<in> set xs. url b \<in> set urls \<and>
        (\<exists>bytes m hs full. answer_of up b cr bytes m = Replied (cl_status r) hs (Some full)))"

lemma reply_of_Cons: "reply_of up xs urls r \<Longrightarrow> reply_of up (x # xs) urls r"
  unfolding reply_of_def set_simps(2) by blast

lemma turn_kept:
  assumes "sys_reachable sha api c (a, T)" "sys_reachable sha api c (a', T')" "serving a' = serving a"
  shows "turn a' = turn a"
  unfolding turn_def assms(3)
  using same_at(1,3) [OF assms(1,2)] serving_range [of _ a] by (intro slots_cong) simp

lemma round_robin_row:
  assumes "sys_reachable sha api c (a, {#})" and c: "config_ok hv c" "\<forall>u v. hv (u @ v) \<longrightarrow> hv u" "length (cfg_backends c) \<le> 2 ^ 32"
    and ap: "build_app sha client_builds ts c = Inr ap"
    and "calm a" "serving a \<noteq> []" "strategy_obj a = S_round_robin s"
    and "\<forall>b \<in> set (backends (pool (shared a))). answers_row up xs b"
    and "\<forall>(e, cr, body) \<in> set xs. usual_env sha api hv e \<and> (\<exists>bytes. body = Inr bytes)"
    and "unat (counter s) + length xs < 2 ^ 64" "exchanges up xs (m, a) = (rs, m', a')"
  shows "map served_by rs =
      map (\<lambda>k. Some (url (app_backend a (turn a ! ((unat (counter s) + k) mod length (turn a)))))) [0..<length xs] \<and>
    (\<forall>r \<in> set rs. is_success (cl_status r) \<and> reply_of up xs (map url (backends (pool (shared a)))) r)"
  using assms(1,6-)
proof (induction xs arbitrary: m a rs s)
  case (Cons x xs)
  obtain e cr bytes where x: "x = (e, cr, Inr bytes)" using Cons.prems(6) by (cases x) auto
  obtain r m1 a1 where ex: "exchange up e cr (Inr bytes) (m, a) = (r, m1, a1)" by (metis prod_cases3)
  obtain rs1 where rest: "exchanges up xs (m1, a1) = (rs1, m', a')" "rs = r # rs1"
    using Cons.prems(8) x ex by (auto split: prod.splits)
  have env: "usual_env sha api hv e" "\<forall>(e, cr, body) \<in> set xs. usual_env sha api hv e \<and> (\<exists>bytes. body = Inr bytes)"
    using Cons.prems(6) x by auto
  have n: "num_backends (shared a) \<le> 2 ^ 32"
    using map_eq_imp_length_eq [OF same_backends [OF start [OF ap] Cons.prems(1)]] ap c(3)
    by (auto simp: build_app_def new_pool_def build_backends_nth Let_def split: sum.splits if_splits)
  have "\<forall>b \<in> set (backends (pool (shared a))). succeeds up b cr bytes m"
    using Cons.prems(5) x by (auto simp: answers_row_def)
  from calm_step [OF Cons.prems(1) c ap Cons.prems(2,3) env(1) this ex]
  obtain j where j: "fst (chosen (ex_route e) (incoming e cr bytes) a) = Some j" "is_success (cl_status r)"
    "header_get ''x-router-backend'' (cl_headers r) = Some (url (app_backend a j))"
    "strategy_obj a1 = snd (chosen (ex_route e) (incoming e cr bytes) a)"
    "sys_reachable sha api c (a1, {#})" "calm a1" "serving a1 = serving a" "j \<in> set (serving a)"
    "\<exists>hs full. answer_of up (app_backend a j) cr bytes m = Replied (cl_status r) hs (Some full)" by metis
  have chosen: "chosen (ex_route e) (incoming e cr bytes) a =
      (Some (turn a ! (unat (counter s) mod length (turn a))), S_round_robin (s\<lparr>counter := counter s + 1\<rparr>))"
    using round_robin_chosen [OF Cons.prems(2,3) n _ Cons.prems(4)] env(1) by (auto simp: usual_env_def)
  have turn: "turn a1 = turn a" by (rule turn_kept [OF Cons.prems(1) j(5,7)])
  have next_count: "unat (counter s + 1) = Suc (unat (counter s))"
    using Cons.prems(7) by (simp add: unat_word_ariths)
  have same: "url (app_backend a1 i) = url (app_backend a i)" if "i < num_backends (shared a)" for i
    using same_at(2) [OF Cons.prems(1) j(5) that] .
  have in_turn: "turn a ! (k mod length (turn a)) < num_backends (shared a)" for k
  proof -
    have mem: "set (turn a) = set (serving a)" using set_turn sys_reachable_ok [OF Cons.prems(1) c(3)] by blast
    then have "0 < length (turn a)" using Cons.prems(3) by (metis length_greater_0_conv set_empty)
    then have "turn a ! (k mod length (turn a)) \<in> set (turn a)" by simp
    then show ?thesis using mem serving_range by blast
  qed
  let ?at = "\<lambda>k. Some (url (app_backend a (turn a ! (k mod length (turn a)))))"
  have "unat (counter (s\<lparr>counter := counter s + 1\<rparr>)) + length xs < 2 ^ 64" using Cons.prems(7) next_count by simp
  moreover have "strategy_obj a1 = S_round_robin (s\<lparr>counter := counter s + 1\<rparr>)" using j(4) chosen by simp
  moreover have "serving a1 \<noteq> []" using j(7) Cons.prems(3) by simp
  moreover have "\<forall>b \<in> set (backends (pool (shared a1))). answers_row up xs b"
    using Cons.prems(5) answers_row_kept [OF Cons.prems(1) j(5), of up xs]
    by (auto simp: answers_row_def)
  ultimately have IH: "map served_by rs1 = map (\<lambda>k. Some (url (app_backend a1 (turn a1 !
      ((unat (counter (s\<lparr>counter := counter s + 1\<rparr>)) + k) mod length (turn a1)))))) [0..<length xs] \<and>
      (\<forall>r \<in> set rs1. is_success (cl_status r) \<and> reply_of up xs (map url (backends (pool (shared a1)))) r)"
    using Cons.IH [OF j(5,6) _ _ _ env(2) _ rest(1)] by blast
  then have "map served_by rs1 = map (\<lambda>k. ?at (unat (counter s) + Suc k)) [0..<length xs]"
    using turn next_count same in_turn by simp
  moreover have "served_by r = ?at (unat (counter s))" using j(1,3) chosen by (simp add: served_by_def)
  moreover have "map f [0..<Suc n] = f 0 # map (\<lambda>k. f (Suc k)) [0..<n]" for f :: "nat \<Rightarrow> string option" and n
    by (simp only: map_upt_Suc)
  moreover have urls: "map url (backends (pool (shared a1))) = map url (backends (pool (shared a)))"
    using arg_cong [OF same_backends [OF Cons.prems(1) j(5)], of "map (\<lambda>(i, u, w). u)"] by (simp add: comp_def)
  moreover have "url (app_backend a j) \<in> set (map url (backends (pool (shared a))))" using serving_range [OF j(8)] by simp
  then have "reply_of up (x # xs) (map url (backends (pool (shared a)))) r"
    using j(9) x unfolding reply_of_def set_simps(2) by blast
  moreover have "reply_of up (x # xs) (map url (backends (pool (shared a)))) q" if "q \<in> set rs1" for q
    using IH that reply_of_Cons [of up xs _ q x] urls by simp
  ultimately show ?case using rest(2) x IH j(2) by (simp del: upt_Suc)
qed simp

lemma count_list_map_inj:
  assumes "inj_on f (insert x (set xs))"
  shows "count_list (map f xs) (f x) = count_list xs x"
  using assms by (induction xs) (auto simp: inj_on_def)

lemma count_list_rotate: "count_list (List.rotate n xs) x = count_list xs x"
  by (metis add.commute append_take_drop_id count_list_append rotate_drop_take)

lemma count_turn:
  assumes "sys_ok sha (a, T)" "j \<in> set (serving a)"
  shows "count_list (turn a) j = max (unat (weight (app_backend a j))) 1"
proof -
  have ids: "backend_id (app_backend a i) = i" if "i \<in> set (serving a)" for i
    using assms(1) serving_range [OF that] by (simp add: sys_ok_def app_ok_def state_ok_def pool_ok_def)
  then have "distinct (map backend_id (map (app_backend a) (serving a)))"
    using serving_distinct by (simp add: distinct_map inj_on_def)
  then show ?thesis using count_slots [of "map (app_backend a) (serving a)" "app_backend a j"] assms(2) ids
    by (simp add: turn_def shares_def)
qed

text \<open>
  C22. Round robin as the clients see it. A router without live requests, in any reachable state with
  closed circuits, uses round robin, and its backends answer. Then one turn of requests, handled one
  after another, is answered with 2xx throughout; the backends named in the replies are those of
  the slot table from the counter on, and each backend that serves (healthy, and within the queue
  limit if any is) has answered exactly as many requests as its weight says.
\<close>

theorem round_robin_service:
  assumes "sys_reachable sha api c (a, {#})" "config_ok hv c" "\<forall>u v. hv (u @ v) \<longrightarrow> hv u" "length (cfg_backends c) \<le> 2 ^ 32"
    and "build_app sha client_builds ts c = Inr ap"
    and "calm a" "serving a \<noteq> []" "strategy_obj a = S_round_robin s" "distinct (map url (backends (pool (shared a))))"
    and "\<forall>b \<in> set (backends (pool (shared a))). answers_row up xs b"
    and "\<forall>(e, cr, body) \<in> set xs. usual_env sha api hv e \<and> (\<exists>bytes. body = Inr bytes)"
    and "length xs = length (turn a)" "unat (counter s) + length xs < 2 ^ 64"
    and "exchanges up xs (m, a) = (rs, m', a')"
  shows "(\<forall>r \<in> set rs. is_success (cl_status r)) \<and>
    map served_by rs = map (\<lambda>j. Some (url (app_backend a j))) (List.rotate (unat (counter s)) (turn a)) \<and>
    (\<forall>j \<in> set (serving a). count_list (map served_by rs) (Some (url (app_backend a j))) = max (unat (weight (app_backend a j))) 1)"
proof -
  let ?served = "\<lambda>j. Some (url (app_backend a j))"
  have ok: "sys_ok sha (a, {#})" by (rule sys_reachable_ok [OF assms(1,4)])
  note row = round_robin_row [OF assms(1-8,10,11,13,14)]
  have rot: "map served_by rs = map ?served (List.rotate (unat (counter s)) (turn a))"
    using row assms(12) by (intro nth_equalityI) (simp_all add: nth_rotate)
  have range: "set (turn a) \<subseteq> {..<num_backends (shared a)}" using set_turn [OF ok] serving_range by blast
  have "inj_on ?served {..<num_backends (shared a)}"
    using assms(9) by (auto simp: inj_on_def distinct_conv_nth)
  then have "inj_on ?served (insert j (set (List.rotate (unat (counter s)) (turn a))))" if "j \<in> set (serving a)" for j
    by (rule inj_on_subset) (use range serving_range [OF that] in auto)
  then have "count_list (map served_by rs) (?served j) = max (unat (weight (app_backend a j))) 1" if "j \<in> set (serving a)" for j
    unfolding rot using that count_turn [OF ok that] by (simp add: count_list_map_inj [of ?served] count_list_rotate)
  then show ?thesis using row rot by blast
qed

definition pair_config :: router_config where
  "pair_config = read_config (minimal_document [''http://a'', ''http://b''])"

lemma pair_config_ok: "config_ok (\<lambda>_. True) pair_config" "build_client (\<lambda>_ _. True) (cfg_upstream pair_config)"
  using minimal_config [of "[''http://a'', ''http://b'']" "\<lambda>_. True"] by (simp_all add: pair_config_def build_client_def)

lemma pair_app:
  assumes "build_app sample_sha (\<lambda>_ _. True) (\<lambda>_. 0) pair_config = Inr ap"
  shows "\<exists>cb. state (inner cb) = Closed \<and>
    backends (pool (shared (app_start ap))) = [new_backend 0 ''http://a'' 1 cb, new_backend 1 ''http://b'' 1 cb]"
    "strategy_obj (app_start ap) = S_round_robin new_round_robin"
proof -
  let ?cb = "from_config (cfg_circuit_breaker pair_config) 0"
  have "pool (shared (app_start ap)) = new_pool (build_backends (\<lambda>_. 0) pair_config) (max_backend_queue_depth (cfg_backpressure pair_config))"
    using assms by (auto simp: build_app_def Let_def split: sum.splits if_splits)
  moreover have "build_backends (\<lambda>_. 0) pair_config = [new_backend 0 ''http://a'' 1 ?cb, new_backend 1 ''http://b'' 1 ?cb]"
    unfolding build_backends_def
    by (simp add: pair_config_def read_config_def minimal_document_def read_backend_def normalized_url_def trim_end_slashes_def
        the_default_def default_weight_def)
  moreover have "state (inner ?cb) = Closed" by (simp add: from_config_def new_breaker_def)
  ultimately show "\<exists>cb. state (inner cb) = Closed \<and>
      backends (pool (shared (app_start ap))) = [new_backend 0 ''http://a'' 1 cb, new_backend 1 ''http://b'' 1 cb]"
    by (intro exI [of _ ?cb]) (simp add: new_pool_def)
  have "routing_strategy (cfg_routing pair_config) = ''round_robin''"
    by (simp add: pair_config_def read_config_def minimal_document_def read_routing_def the_default_def default_strategy_def)
  then show "strategy_obj (app_start ap) = S_round_robin new_round_robin"
    using assms by (auto simp: build_app_def create_strategy_def Let_def split: if_splits)
qed

theorem round_robin_service_witness:
  "\<exists>ap rs m' a'. build_app sample_sha (\<lambda>_ _. True) (\<lambda>_. 0) pair_config = Inr ap \<and>
     exchanges demo_upstream (replicate 2 (demo_exchange, demo_request, Inr [])) (0, app_start ap) = (rs, m', a') \<and>
     map served_by rs = [Some ''http://a'', Some ''http://b'']"
proof -
  obtain ap where ap: "build_app sample_sha (\<lambda>_ _. True) (\<lambda>_. 0) pair_config = Inr ap"
    using valid_config_builds [OF pair_config_ok] by blast
  let ?a = "app_start ap" and ?row = "replicate 2 (demo_exchange, demo_request, Inr []) :: code_points exchange_call list"
  obtain cb where cb: "state (inner cb) = Closed"
    and bs: "backends (pool (shared ?a)) = [new_backend 0 ''http://a'' 1 cb, new_backend 1 ''http://b'' 1 cb]"
    using pair_app(1) [OF ap] by blast
  have calm: "calm ?a" by (auto simp: calm_def bs less_Suc_eq new_backend_def cb)
  have serving: "serving ?a = [0, 1]"
    by (simp add: serving_def Let_def bs new_backend_def within_queue_limit_def upt_rec)
  have turn: "turn ?a = [0, 1]" by (simp add: turn_def serving bs slots_def shares_def new_backend_def)
  have env: "\<forall>(e, cr, body) \<in> set ?row. usual_env sample_sha prompt_api (\<lambda>_. True) e \<and> (\<exists>bytes. body = Inr bytes)"
    by (auto simp: usual_env_def demo_exchange_def identity_kept_def)
  have answers: "\<forall>b \<in> set (backends (pool (shared ?a))). answers_row demo_upstream ?row b"
    by (simp add: answers_row_def succeeds_def answer_of_def demo_upstream_def is_success_def)
  have few: "length (cfg_backends pair_config) \<le> 2 ^ 32" by (simp add: pair_config_def read_config_def minimal_document_def)
  obtain rs m' a' where ex: "exchanges demo_upstream ?row (0, ?a) = (rs, m', a')" by (metis prod_cases3)
  have "map served_by rs = map (\<lambda>j. Some (url (app_backend ?a j))) (List.rotate 0 (turn ?a))"
    using round_robin_service [OF start [OF ap, where api = prompt_api] pair_config_ok(1) _ few ap calm _ pair_app(2) [OF ap] _
        answers env _ _ ex] turn serving bs
    by (simp add: new_round_robin_def new_backend_def)
  then show ?thesis using ap ex by (auto simp: turn bs new_backend_def)
qed

end
