(* ===== verification/EndToEnd_Tests.thy ===== *)
theory EndToEnd_Tests
  imports Service
begin

text \<open>
  End-to-end tests (router-core/tests/e2e.rs) on the model, with the mock backend and the router
  options of tests/support. A test starts a router from the options, sends its requests one after
  another and looks at the replies, at what the mocks saw and at the calls on the metrics; each passes
  at whatever instants its requests are handled. The addresses of the mocks are fixed ones. What the JSON parser of the mock says of the field \<open>stream\<close> is an argument. The
  tests that need several requests at once, a health check in the background or a pause are left
  out: what they check is proved of all runs of the router (System_Runs, Fault_Isolation).
\<close>

section \<open>The mock backend (tests/support/mock_backend.rs)\<close>

record last_request =
  last_method :: string
  authorization :: "string option"
  had_connection_header :: bool

text \<open>The knobs that a test sets, and what the mock keeps of the requests.\<close>

record mock_knobs =
  mock_id :: string
  mock_fail :: bool
  stream_tokens :: nat

record mock_seen =
  mock_requests :: nat
  mock_last :: "last_request option"

definition new_mock :: "string \<Rightarrow> mock_knobs" where
  "new_mock name = \<lparr>mock_id = name, mock_fail = False, stream_tokens = 3\<rparr>"

definition set_stream :: "nat \<Rightarrow> mock_knobs \<Rightarrow> mock_knobs" where
  "set_stream n k = k\<lparr>stream_tokens := n\<rparr>"

definition ok_body :: string where
  "ok_body = ''{\"choices\":[{\"finish_reason\":\"stop\",\"index\":0,\"message\":{\"content\":\"ok\",\"role\":\"assistant\"}}],'' @
     ''\"id\":\"cmpl-mock\",\"object\":\"chat.completion\"}''"

definition mock_chunk :: "nat \<Rightarrow> string" where
  "mock_chunk i = ''data: {\"choices\":[{\"delta\":{\"content\":\"tok'' @ show_nat i @ ''\"}}]}'' @ [CHR 0x0A, CHR 0x0A]"

definition done_chunk :: string where
  "done_chunk = ''data: [DONE]'' @ [CHR 0x0A, CHR 0x0A]"

definition completion ::
  "(string \<Rightarrow> bool) \<Rightarrow> mock_knobs \<Rightarrow> http_request \<Rightarrow> mock_seen \<Rightarrow> (upstream_reply \<times> string list) \<times> mock_seen" where
  "completion streaming k rq s =
     (let s1 = \<lparr>mock_requests = mock_requests s + 1,
           mock_last = Some \<lparr>last_method = rq_method rq, authorization = header_get ''authorization'' (rq_headers rq),
             had_connection_header = (header_get ''connection'' (rq_headers rq) \<noteq> None)\<rparr>\<rparr>;
          marks = [(''x-mock-backend'', mock_id k), (''x-router-backend'', ''spoofed'')]
      in if mock_fail k
         then ((Replied 500 [(''content-type'', ''application/json'')] (Some ''{\"error\":\"simulated failure\"}''), []), s1)
         else if \<not> streaming (rq_body rq)
         then ((Replied 200 ((''content-type'', ''application/json'') # marks) (Some ok_body), []), s1)
         else
           let chunks = map mock_chunk [0..<stream_tokens k] @ [done_chunk]
           in ((Replied 200 ((''content-type'', ''text/event-stream'') # marks) (Some (concat chunks)), chunks), s1))"

text \<open>Nothing listens at other addresses; other paths of a mock are not found.\<close>

definition mocks_upstream :: "(string \<Rightarrow> bool) \<Rightarrow> (string \<times> mock_knobs) list \<Rightarrow> (string \<Rightarrow> mock_seen) upstream" where
  "mocks_upstream streaming mocks rq book =
     (case find (\<lambda>(u, _). starts_with (rq_url rq) (u @ ''/'')) mocks of
        None \<Rightarrow> ((Send_failed, []), book)
      | Some (u, k) \<Rightarrow>
          if rq_url rq \<in> {u @ ''/v1/chat/completions'', u @ ''/v1/completions''}
          then (case completion streaming k rq (book u) of (reply, s) \<Rightarrow> (reply, book(u := s)))
          else ((Replied 404 [] (Some []), []), book))"

definition unseen :: "string \<Rightarrow> mock_seen" where
  "unseen u = \<lparr>mock_requests = 0, mock_last = None\<rparr>"

section \<open>The router under test (tests/support/router.rs)\<close>

record router_opts =
  opt_strategy :: string
  opt_weights :: "u32 list"
  opt_max_in_flight :: usize
  opt_health_interval_secs :: u64
  opt_unhealthy_threshold :: u32
  opt_healthy_threshold :: u32
  opt_cb_min_requests :: u64
  opt_cb_open_secs :: u64
  opt_max_backend_queue_depth :: u64
  opt_metrics_enabled :: bool
  opt_read_timeout_secs :: u64

definition default_opts :: router_opts where
  "default_opts =
     \<lparr>opt_strategy = ''round_robin'', opt_weights = [], opt_max_in_flight = 1000, opt_health_interval_secs = 1,
      opt_unhealthy_threshold = 1, opt_healthy_threshold = 1, opt_cb_min_requests = 4,
      opt_cb_open_secs = 30, opt_max_backend_queue_depth = 50, opt_metrics_enabled = True, opt_read_timeout_secs = 120\<rparr>"

definition test_document :: "router_opts \<Rightarrow> string list \<Rightarrow> raw_config" where
  "test_document opts urls =
     \<lparr>raw_listen = Some (Some ''127.0.0.1'', Some 0),
      raw_routing_section = \<lparr>raw_strategy = Some (opt_strategy opts), raw_prefix_cache = None, raw_latency_aware = None\<rparr>,
      raw_backends = map (\<lambda>(i, u). (u, Some (if i < length (opt_weights opts) then opt_weights opts ! i else 1)))
        (List.enumerate 0 urls),
      raw_health_check = Some (Some (opt_health_interval_secs opts), Some (opt_unhealthy_threshold opts),
        Some (opt_healthy_threshold opts)),
      raw_circuit_breaker = Some (Some (Fin (1 / 2)), Some (opt_cb_min_requests opts), Some 60, Some (opt_cb_open_secs opts)),
      raw_backpressure = Some (Some (opt_max_in_flight opts), Some (opt_max_backend_queue_depth opts)),
      raw_metrics = Some (Some (opt_metrics_enabled opts), Some ''/metrics''),
      raw_upstream = Some (Some 5, Some (opt_read_timeout_secs opts))\<rparr>"

definition start_test_router :: "(string \<Rightarrow> string) \<Rightarrow> instant \<Rightarrow> router_opts \<Rightarrow> string list \<Rightarrow> app option" where
  "start_test_router sha now opts urls =
     (let c = read_config (test_document opts urls)
      in case validate (\<lambda>_. True) c of
           Inl _ \<Rightarrow> None
         | Inr _ \<Rightarrow> (case build_app sha (\<lambda>_ _. True) (\<lambda>_. now) c of Inl _ \<Rightarrow> None | Inr ap \<Rightarrow> Some ap))"

definition post_chat :: client_request where
  "post_chat = \<lparr>cr_method = ''POST'', cr_path = ''/v1/chat/completions'', cr_path_and_query = Some ''/v1/chat/completions'',
     cr_headers = [(''content-type'', ''application/json'')]\<rparr>"

text \<open>The first request to a router with one backend.\<close>

definition first_reply ::
  "(string \<Rightarrow> string) \<Rightarrow> instant \<Rightarrow> router_opts \<Rightarrow> string \<Rightarrow> 'm upstream \<Rightarrow> 'm \<Rightarrow> 'v exchange_env \<Rightarrow> client_request \<Rightarrow>
   body_error + string \<Rightarrow> (client_reply \<times> 'm \<times> app_state) option" where
  "first_reply sha now opts u up m e cr body =
     (case start_test_router sha now opts [u] of
        None \<Rightarrow> None
      | Some ap \<Rightarrow> (case exchange up e cr body (m, app_start ap) of (r, m', a) \<Rightarrow> Some (r, m', a)))"

text \<open>What the metrics endpoint would show of the counters: the statuses counted, and the rejections.\<close>

definition counted_statuses :: "app_state \<Rightarrow> string list" where
  "counted_statuses a =
     List.map_filter (\<lambda>m. case m of Requests_total_inc l \<Rightarrow> Some (label_status l) | _ \<Rightarrow> None) (metric_log (shared a))"

definition rejections :: "string \<Rightarrow> app_state \<Rightarrow> nat" where
  "rejections reason a = count_list (metric_log (shared a)) (Rejected_requests_inc reason)"

section \<open>The tests\<close>

definition m1_url :: string where "m1_url = ''http://127.0.0.1:4001''"
definition m2_url :: string where "m2_url = ''http://127.0.0.1:4002''"
definition m3_url :: string where "m3_url = ''http://127.0.0.1:4003''"

definition routes_chat_completion_and_sets_backend_header ::
  "(string \<Rightarrow> string) \<Rightarrow> instant \<Rightarrow> 'v exchange_env \<Rightarrow> string \<Rightarrow> bool" where
  "routes_chat_completion_and_sets_backend_header sha now e raw =
     (case first_reply sha now default_opts m1_url (mocks_upstream (\<lambda>_. False) [(m1_url, new_mock ''m1'')]) unseen e post_chat (Inr raw) of
        None \<Rightarrow> False
      | Some (r, book, a) \<Rightarrow> cl_status r = 200 \<and> header_get ''x-router-backend'' (cl_headers r) = Some m1_url \<and>
          cl_body r = ok_body \<and> mock_requests (book m1_url) = 1)"

definition streaming_response_is_passed_through_as_sse ::
  "(string \<Rightarrow> string) \<Rightarrow> instant \<Rightarrow> 'v exchange_env \<Rightarrow> string \<Rightarrow> bool" where
  "streaming_response_is_passed_through_as_sse sha now e raw =
     (case first_reply sha now default_opts m1_url
             (mocks_upstream (\<lambda>_. True) [(m1_url, set_stream 4 (new_mock ''m1''))]) unseen e post_chat (Inr raw) of
        None \<Rightarrow> False
      | Some (r, book, a) \<Rightarrow> cl_status r = 200 \<and>
          (case header_get ''content-type'' (cl_headers r) of None \<Rightarrow> False | Some ct \<Rightarrow> starts_with ct ''text/event-stream'') \<and>
          cl_body r = concat (map mock_chunk [0..<4]) @ done_chunk)"

definition method_and_auth_header_are_forwarded_unchanged ::
  "(string \<Rightarrow> string) \<Rightarrow> instant \<Rightarrow> 'v exchange_env \<Rightarrow> bool" where
  "method_and_auth_header_are_forwarded_unchanged sha now e =
     (case first_reply sha now default_opts m1_url (mocks_upstream (\<lambda>_. False) [(m1_url, new_mock ''m1'')]) unseen e
             \<lparr>cr_method = ''GET'', cr_path = ''/v1/completions'', cr_path_and_query = Some ''/v1/completions'',
              cr_headers = [(''authorization'', ''Bearer secret''), (''connection'', ''keep-alive'')]\<rparr> (Inr []) of
        None \<Rightarrow> False
      | Some (r, book, a) \<Rightarrow> cl_status r = 200 \<and>
          mock_last (book m1_url) = Some \<lparr>last_method = ''GET'', authorization = Some ''Bearer secret'', had_connection_header = False\<rparr>)"

definition upstream_x_router_backend_header_is_replaced ::
  "(string \<Rightarrow> string) \<Rightarrow> instant \<Rightarrow> 'v exchange_env \<Rightarrow> string \<Rightarrow> bool" where
  "upstream_x_router_backend_header_is_replaced sha now e raw =
     (case first_reply sha now default_opts m1_url (mocks_upstream (\<lambda>_. False) [(m1_url, new_mock ''m1'')]) unseen e post_chat (Inr raw) of
        None \<Rightarrow> False
      | Some (r, book, a) \<Rightarrow> header_values ''x-router-backend'' (cl_headers r) = [m1_url])"

definition oversized_body_returns_413 :: "(string \<Rightarrow> string) \<Rightarrow> instant \<Rightarrow> 'v exchange_env \<Rightarrow> bool" where
  "oversized_body_returns_413 sha now e =
     (case first_reply sha now default_opts m1_url (mocks_upstream (\<lambda>_. False) [(m1_url, new_mock ''m1'')]) unseen e post_chat
             (Inl Length_limit_error) of
        None \<Rightarrow> False
      | Some (r, book, a) \<Rightarrow> cl_status r = 413 \<and> mock_requests (book m1_url) = 0 \<and> rejections ''body_too_large'' a = 1)"

definition invalid_body_encoding_is_counted_as_bad_body :: "(string \<Rightarrow> string) \<Rightarrow> instant \<Rightarrow> 'v exchange_env \<Rightarrow> bool" where
  "invalid_body_encoding_is_counted_as_bad_body sha now e =
     (case first_reply sha now default_opts m1_url (mocks_upstream (\<lambda>_. False) [(m1_url, new_mock ''m1'')]) unseen e post_chat
             (Inl Other_body_error) of
        None \<Rightarrow> False
      | Some (r, book, a) \<Rightarrow> rejections ''bad_body'' a = 1 \<and> mock_requests (book m1_url) = 0)"

definition backend_url_with_trailing_slash_still_routes ::
  "(string \<Rightarrow> string) \<Rightarrow> instant \<Rightarrow> 'v exchange_env \<Rightarrow> string \<Rightarrow> bool" where
  "backend_url_with_trailing_slash_still_routes sha now e raw =
     (case first_reply sha now default_opts (m1_url @ ''/'') (mocks_upstream (\<lambda>_. False) [(m1_url, new_mock ''m1'')]) unseen e
             post_chat (Inr raw) of
        None \<Rightarrow> False
      | Some (r, book, a) \<Rightarrow> cl_status r = 200 \<and> header_get ''x-router-backend'' (cl_headers r) = Some m1_url \<and>
          mock_requests (book m1_url) = 1)"

text \<open>The mock that answers too late, and the raw backend that closes the connection within the body.\<close>

definition backend_stalling_past_read_timeout_is_a_transport_error ::
  "(string \<Rightarrow> string) \<Rightarrow> instant \<Rightarrow> 'v exchange_env \<Rightarrow> string \<Rightarrow> bool" where
  "backend_stalling_past_read_timeout_is_a_transport_error sha now e raw =
     (case first_reply sha now (default_opts\<lparr>opt_read_timeout_secs := 1\<rparr>) m1_url (\<lambda>_ m. ((Send_failed, []), m)) () e post_chat (Inr raw) of
        None \<Rightarrow> False
      | Some (r, _, a) \<Rightarrow> cl_status r = 502 \<and> ''transport_error'' \<in> set (counted_statuses a))"

definition truncated_buffered_body_is_a_stream_error ::
  "(string \<Rightarrow> string) \<Rightarrow> instant \<Rightarrow> 'v exchange_env \<Rightarrow> string \<Rightarrow> bool" where
  "truncated_buffered_body_is_a_stream_error sha now e raw =
     (case first_reply sha now default_opts m1_url
             (\<lambda>_ m. ((Replied 200 [(''content-type'', ''application/json''), (''content-length'', ''100'')] None, []), m)) () e post_chat (Inr raw) of
        None \<Rightarrow> False
      | Some (r, _, a) \<Rightarrow> cl_status r = 502 \<and> ''stream_error'' \<in> set (counted_statuses a) \<and>
          ''transport_error'' \<notin> set (counted_statuses a))"

definition metrics_endpoint_can_be_disabled :: "(string \<Rightarrow> string) \<Rightarrow> instant \<Rightarrow> bool" where
  "metrics_endpoint_can_be_disabled sha now =
     (case start_test_router sha now (default_opts\<lparr>opt_metrics_enabled := False\<rparr>) [m1_url] of
        None \<Rightarrow> False
      | Some ap \<Rightarrow> ''/metrics'' \<notin> fst ` set (app_routes ap))"

text \<open>A row of chat requests; each may be handled at any instants.\<close>

definition post_chats :: "'v exchange_env list \<Rightarrow> string \<Rightarrow> 'v exchange_call list" where
  "post_chats es raw = map (\<lambda>e. (e, post_chat, Inr raw)) es"

definition round_robin_cycles_across_backends ::
  "(string \<Rightarrow> string) \<Rightarrow> instant \<Rightarrow> 'v exchange_env list \<Rightarrow> string \<Rightarrow> bool" where
  "round_robin_cycles_across_backends sha now es raw =
     (case start_test_router sha now default_opts [m1_url, m2_url, m3_url] of
        None \<Rightarrow> False
      | Some ap \<Rightarrow>
          (case exchanges (mocks_upstream (\<lambda>_. False) [(m1_url, new_mock ''m1''), (m2_url, new_mock ''m2''), (m3_url, new_mock ''m3'')])
                  (post_chats es raw) (unseen, app_start ap) of
             (rs, book, _) \<Rightarrow> (\<forall>r \<in> set rs. cl_status r = 200) \<and>
               map (\<lambda>u. mock_requests (book u)) [m1_url, m2_url, m3_url] = [4, 4, 4]))"

definition weighted_round_robin_follows_config ::
  "(string \<Rightarrow> string) \<Rightarrow> instant \<Rightarrow> 'v exchange_env list \<Rightarrow> string \<Rightarrow> bool" where
  "weighted_round_robin_follows_config sha now es raw =
     (case start_test_router sha now (default_opts\<lparr>opt_weights := [1, 3]\<rparr>) [m1_url, m2_url] of
        None \<Rightarrow> False
      | Some ap \<Rightarrow>
          (case exchanges (mocks_upstream (\<lambda>_. False) [(m1_url, new_mock ''m1''), (m2_url, new_mock ''m2'')])
                  (post_chats es raw) (unseen, app_start ap) of
             (rs, book, _) \<Rightarrow> (\<forall>r \<in> set rs. cl_status r = 200) \<and>
               map (\<lambda>u. mock_requests (book u)) [m1_url, m2_url] = [2, 6]))"

section \<open>A started router\<close>

definition opts_ok :: "router_opts \<Rightarrow> string list \<Rightarrow> bool" where
  "opts_ok opts urls \<longleftrightarrow>
     opt_strategy opts = ''round_robin'' \<and> opt_cb_min_requests opts \<noteq> 0 \<and> opt_health_interval_secs opts \<noteq> 0 \<and> opt_max_in_flight opts \<noteq> 0 \<and>
     opt_read_timeout_secs opts \<noteq> 0 \<and> 0 \<notin> set (opt_weights opts) \<and> urls \<noteq> [] \<and> length urls \<le> 2 ^ 32 \<and>
     (\<forall>u \<in> set urls. \<exists>rest. u = ''http://'' @ rest)"

definition opt_weight :: "router_opts \<Rightarrow> nat \<Rightarrow> u32" where
  "opt_weight opts i = (if i < length (opt_weights opts) then opt_weights opts ! i else 1)"

abbreviation test_config :: "router_opts \<Rightarrow> string list \<Rightarrow> router_config" where
  "test_config opts urls \<equiv> read_config (test_document opts urls)"

lemma test_config_ok:
  assumes "opts_ok opts urls"
  shows "config_ok (\<lambda>_. True) (test_config opts urls)" "length (cfg_backends (test_config opts urls)) = length urls"
proof -
  have "backend_config_ok (\<lambda>_. True) b" if "b \<in> set (cfg_backends (test_config opts urls))" for b
  proof -
    from that obtain i u where "(i, u) \<in> set (List.enumerate 0 urls)" "b = read_backend (u, Some (opt_weight opts i))"
      by (auto simp: read_config_def test_document_def opt_weight_def)
    moreover from this(1) have "u \<in> set urls" by (auto simp: in_set_enumerate_eq)
    moreover have "opt_weight opts i \<noteq> 0"
    proof
      assume "opt_weight opts i = 0"
      then have "i < length (opt_weights opts) \<and> opt_weights opts ! i = 0" by (auto simp: opt_weight_def split: if_splits)
      then have "0 \<in> set (opt_weights opts)" by (metis nth_mem)
      then show False using assms by (simp add: opts_ok_def)
    qed
    ultimately show ?thesis using assms
      by (auto simp: opts_ok_def backend_config_ok_def read_backend_def the_default_def)
  qed
  then have each: "\<forall>b \<in> set (cfg_backends (test_config opts urls)). backend_config_ok (\<lambda>_. True) b" by blast
  have "cfg_backends (test_config opts urls) \<noteq> []" using assms
    by (cases urls) (simp_all add: opts_ok_def read_config_def test_document_def)
  with each show "config_ok (\<lambda>_. True) (test_config opts urls)" using assms default_alpha_value
    unfolding config_ok_def
    by (simp add: opts_ok_def read_config_def test_document_def read_routing_def read_health_check_def
        read_circuit_breaker_def read_backpressure_def read_metrics_def read_upstream_def the_default_def
        STRATEGY_NAMES_def ROUTER_ROUTES_def)
  show "length (cfg_backends (test_config opts urls)) = length urls"
    by (simp add: read_config_def test_document_def)
qed

lemma router_started:
  assumes "opts_ok opts urls"
  obtains ap cb where "start_test_router sha now opts urls = Some ap"
    "build_app sha (\<lambda>_ _. True) (\<lambda>_. now) (test_config opts urls) = Inr ap"
    "backends (pool (shared (app_start ap))) =
       map (\<lambda>(i, u). new_backend i (trim_end_slashes u) (opt_weight opts i) cb) (List.enumerate 0 urls)"
    "state (inner cb) = Closed" "strategy_obj (app_start ap) = S_round_robin new_round_robin"
    "app_routes ap = build_router \<lparr>metrics_enabled = opt_metrics_enabled opts, metrics_path = ''/metrics''\<rparr>"
proof -
  let ?c = "test_config opts urls" and ?cb = "from_config (cfg_circuit_breaker (test_config opts urls)) now"
  have ok: "config_ok (\<lambda>_. True) ?c" by (rule test_config_ok(1) [OF assms])
  obtain ap where ap: "build_app sha (\<lambda>_ _. True) (\<lambda>_. now) ?c = Inr ap"
    using valid_config_builds [OF ok, of "\<lambda>_ _. True"] by (auto simp: build_client_def)
  have pool: "pool (shared (app_start ap)) = new_pool (build_backends (\<lambda>_. now) ?c) (max_backend_queue_depth (cfg_backpressure ?c))"
    "app_routes ap = build_router (cfg_metrics ?c)"
    using ap by (auto simp: build_app_def Let_def split: sum.splits if_splits)
  have "build_backends (\<lambda>_. now) ?c = map (\<lambda>(i, u). new_backend i (trim_end_slashes u) (opt_weight opts i) ?cb) (List.enumerate 0 urls)"
    by (rule nth_equalityI) (simp_all add: build_backends_nth test_config_ok(2) [OF assms] nth_enumerate_eq,
        simp add: read_config_def test_document_def nth_enumerate_eq read_backend_def normalized_url_def the_default_def opt_weight_def)
  moreover have "state (inner ?cb) = Closed" by (simp add: from_config_def new_breaker_def)
  moreover have "routing_strategy (cfg_routing ?c) = ''round_robin''"
    using assms by (simp add: opts_ok_def read_config_def test_document_def read_routing_def the_default_def)
  then have "strategy_obj (app_start ap) = S_round_robin new_round_robin"
    using ap by (auto simp: build_app_def create_strategy_def Let_def split: if_splits)
  moreover have "cfg_metrics ?c = \<lparr>metrics_enabled = opt_metrics_enabled opts, metrics_path = ''/metrics''\<rparr>"
    by (simp add: read_config_def test_document_def read_metrics_def the_default_def)
  moreover have "start_test_router sha now opts urls = Some ap"
    using ok ap validate_ok [of "\<lambda>_. True" ?c] by (simp add: start_test_router_def Let_def)
  ultimately show thesis by (intro that [of ap ?cb] ap) (simp_all add: pool new_pool_def)
qed

text \<open>What a test leaves open of the environment: the instants, the parser of requests and the draws.\<close>

definition test_env_ok :: "(string \<Rightarrow> string) \<Rightarrow> 'v json_api \<Rightarrow> 'v exchange_env \<Rightarrow> bool" where
  "test_env_ok sha api e \<longleftrightarrow> usual_env sha api (\<lambda>_. True) e \<and> ex_to_str e = Some"

lemma started_ready:
  assumes "opts_ok opts [u]" "test_env_ok sha api e"
    and "build_app sha (\<lambda>_ _. True) (\<lambda>_. now) (test_config opts [u]) = Inr ap"
    and "backends (pool (shared (app_start ap))) = [new_backend 0 (trim_end_slashes u) w cb]" "state (inner cb) = Closed"
  shows "alone_ok (ex_route e) (app_start ap)" "routable_set (routable_at (ex_route e)) (app_start ap) = [0]"
    "in_flight (controller (shared (app_start ap))) < max_in_flight (controller (shared (app_start ap)))"
    "\<forall>b \<in> set (backends (pool (shared (app_start ap)))). ex_header_ok e (url b)"
proof -
  let ?a = "app_start ap"
  have reach: "sys_reachable sha api (test_config opts [u]) (?a, {#})" by (rule start [OF assms(3)])
  have ok: "sys_ok sha (?a, {#})" by (rule sys_reachable_ok [OF reach]) (simp add: test_config_ok(2) [OF assms(1)])
  then show "alone_ok (ex_route e) ?a" using assms(2) by (auto simp: alone_ok_def sys_ok_def test_env_ok_def usual_env_def)
  have "in_flight (controller (shared ?a)) = 0" using ok by (simp add: sys_ok_def counts_match_def unat_eq_zero)
  then show "in_flight (controller (shared ?a)) < max_in_flight (controller (shared ?a))"
    using sys_reachable_fixed [OF reach] test_config_ok(1) [OF assms(1)] by (simp add: fixed_part_def config_ok_def word_neq_0_conv)
  have "calm ?a" using assms(4,5) by (simp add: calm_def new_backend_def)
  then show "routable_set (routable_at (ex_route e)) ?a = [0]"
    using assms(4) by (simp add: calm_routable serving_def Let_def new_backend_def)
  show "\<forall>b \<in> set (backends (pool (shared ?a))). ex_header_ok e (url b)"
    using assms(2) by (simp add: test_env_ok_def usual_env_def)
qed

lemma one_backend_started:
  assumes "opts_ok opts [u]"
  obtains ap cb where "start_test_router sha now opts [u] = Some ap"
    "build_app sha (\<lambda>_ _. True) (\<lambda>_. now) (test_config opts [u]) = Inr ap"
    "backends (pool (shared (app_start ap))) = [new_backend 0 (trim_end_slashes u) (opt_weight opts 0) cb]" "state (inner cb) = Closed"
proof (rule router_started [OF assms, of sha now])
  fix ap cb
  assume "start_test_router sha now opts [u] = Some ap" "build_app sha (\<lambda>_ _. True) (\<lambda>_. now) (test_config opts [u]) = Inr ap"
    "backends (pool (shared (app_start ap))) =
       map (\<lambda>(i, v). new_backend i (trim_end_slashes v) (opt_weight opts i) cb) (List.enumerate 0 [u])" "state (inner cb) = Closed"
  then show thesis by (intro that) simp_all
qed

lemma settled_log:
  assumes "acc_backend acc < num_backends w"
  shows "\<exists>d u. metric_log (settled ts h out acc w) = metric_log w @
    [d, Requests_total_inc \<lparr>label_strategy = acc_strategy_name acc, label_backend = u, label_status = status_label out\<rparr>] \<and>
    (\<forall>l. d \<noteq> Requests_total_inc l)"
proof -
  obtain acc1 w1 where j: "judged h (ts 3) out acc w = (acc1, w1)" by fastforce
  have "acc_backend acc1 = acc_backend acc \<and> acc_strategy_name acc1 = acc_strategy_name acc \<and> acc_outcome acc1 = out \<and>
      num_backends w1 = num_backends w \<and> metric_log w1 = metric_log w"
    using j by (cases out; cases "acc_admission acc";
        clarsimp simp: judged_def resolve_probe_on_headers_def mark_headers_received_at_def frame_simps split: if_splits)
  then show ?thesis using assms drop_accounting_log [of acc1 w1 ts] by (simp add: settled_def j)
qed

lemma fresh_log: "build_app sha builds ts c = Inr ap \<Longrightarrow> metric_log (shared (app_start ap)) = []"
  by (auto simp: build_app_def Let_def split: sum.splits if_splits)

lemma first_reply_served:
  assumes "opts_ok opts [u]" "test_env_ok sha api e"
    and "rq = \<lparr>rq_method = cr_method cr, rq_url = trim_end_slashes u @ the_default ''/'' (cr_path_and_query cr),
            rq_headers = filter_headers (cr_headers cr), rq_body = bytes\<rparr>"
  obtains a where "first_reply sha now opts u up m e cr (Inr bytes) =
      Some (client_view Some (trim_end_slashes u) (fst (fst (up rq m))) (snd (fst (up rq m))), snd (up rq m), a)"
    "counted_statuses a = [status_label (upstream_outcome Some (fst (fst (up rq m))))]"
proof (rule one_backend_started [OF assms(1), of sha now])
  fix ap cb
  assume ap: "start_test_router sha now opts [u] = Some ap" "build_app sha (\<lambda>_ _. True) (\<lambda>_. now) (test_config opts [u]) = Inr ap"
    and b: "backends (pool (shared (app_start ap))) = [new_backend 0 (trim_end_slashes u) (opt_weight opts 0) cb]" "state (inner cb) = Closed"
  let ?a = "app_start ap"
  note ready = started_ready [OF assms(1,2) ap(2) b]
  have some: "routable_set (routable_at (ex_route e)) ?a \<noteq> []" by (simp add: ready(2))
  obtain j adm cb' where j: "j \<in> set (routable_set (routable_at (ex_route e)) ?a)"
    and run: "\<And>reply chunks m1. up (upstream_request (app_backend ?a j) (cr_method cr) (cr_path_and_query cr) (cr_headers cr) bytes) m =
        ((reply, chunks), m1) \<Longrightarrow>
      exchange up e cr (Inr bytes) (m, ?a) = (client_view (ex_to_str e) (url (app_backend ?a j)) reply chunks, m1,
        (let a1 = admitted_at (ex_route e) (incoming e cr bytes) j cb' ?a
         in a1\<lparr>shared := settled (ex_reply e) (ex_headers e) (upstream_outcome (ex_to_str e) reply) (guard_of e j adm ?a) (shared a1)\<rparr>))"
    using exchange_served [OF ready(1,3) some ready(4)] by metis
  from j have "j = 0" by (simp add: ready(2))
  have rq: "upstream_request (app_backend ?a 0) (cr_method cr) (cr_path_and_query cr) (cr_headers cr) bytes = rq"
    using b by (simp add: upstream_request_def assms(3) new_backend_def)
  let ?reply = "fst (fst (up rq m))" and ?a1 = "admitted_at (ex_route e) (incoming e cr bytes) 0 cb' ?a"
  let ?s = "settled (ex_reply e) (ex_headers e) (upstream_outcome Some ?reply) (guard_of e 0 adm ?a) (shared ?a1)"
  have "exchange up e cr (Inr bytes) (m, ?a) =
      (client_view Some (trim_end_slashes u) ?reply (snd (fst (up rq m))), snd (up rq m), ?a1\<lparr>shared := ?s\<rparr>)"
    using run [of ?reply "snd (fst (up rq m))" "snd (up rq m)"] \<open>j = 0\<close> rq assms(2) b
    by (simp add: test_env_ok_def Let_def new_backend_def)
  then have "first_reply sha now opts u up m e cr (Inr bytes) =
      Some (client_view Some (trim_end_slashes u) ?reply (snd (fst (up rq m))), snd (up rq m), ?a1\<lparr>shared := ?s\<rparr>)"
    using ap(1) by (simp add: first_reply_def)
  moreover have "metric_log (shared ?a1) = []"
    using fresh_log [OF ap(2)] by (simp add: admitted_at_def refreshed_app_def frame_simps)
  moreover have "acc_backend (guard_of e 0 adm ?a) < num_backends (shared ?a1)"
    by (subst admitted_breaker(2) [of 0 ?a 0]) (simp_all add: b guard_of_def)
  ultimately show thesis using that settled_log [of "guard_of e 0 adm ?a" "shared ?a1" "ex_reply e" "ex_headers e" "upstream_outcome Some ?reply"]
    by (fastforce simp: counted_statuses_def List.map_filter_def split: metric_call.splits)
qed

lemma served_case:
  assumes "opts_ok opts [u]" "test_env_ok sha api e"
    and "rq = \<lparr>rq_method = cr_method cr, rq_url = trim_end_slashes u @ the_default ''/'' (cr_path_and_query cr),
            rq_headers = filter_headers (cr_headers cr), rq_body = bytes\<rparr>"
    and "\<And>a. counted_statuses a = [status_label (upstream_outcome Some (fst (fst (up rq m))))] \<Longrightarrow>
      P (client_view Some (trim_end_slashes u) (fst (fst (up rq m))) (snd (fst (up rq m)))) (snd (up rq m)) a"
  shows "case first_reply sha now opts u up m e cr (Inr bytes) of None \<Rightarrow> False | Some (r, m', a) \<Rightarrow> P r m' a"
  by (rule first_reply_served [OF assms(1-3), of now up m]) (simp add: assms(4))

lemma first_reply_unread:
  assumes "opts_ok opts [u]" "test_env_ok sha api e"
  obtains a where "first_reply sha now opts u up m e cr (Inl err) = Some (error_reply (fst (body_error_status err)), m, a)"
    "rejections (snd (body_error_status err)) a = 1"
proof (rule one_backend_started [OF assms(1), of sha now])
  fix ap cb
  assume ap: "start_test_router sha now opts [u] = Some ap" "build_app sha (\<lambda>_ _. True) (\<lambda>_. now) (test_config opts [u]) = Inr ap"
    and b: "backends (pool (shared (app_start ap))) = [new_backend 0 (trim_end_slashes u) (opt_weight opts 0) cb]" "state (inner cb) = Closed"
  let ?a = "app_start ap"
  have "rejections (snd (body_error_status err)) (snd (snd (exchange up e cr (Inl err) (m, ?a)))) = 1"
    using admitted [OF started_ready(3) [OF assms ap(2) b]] fresh_log [OF ap(2)]
    by (simp add: exchange_def handler_route_def reject_def inc_rejected_def rejections_def frame_simps report_def split_def Let_def)
  moreover have "exchange up e cr (Inl err) (m, ?a) =
      (error_reply (fst (body_error_status err)), m, snd (snd (exchange up e cr (Inl err) (m, ?a))))"
    using exchange_bad_body [OF started_ready(3) [OF assms ap(2) b], of up e cr err m] by (simp add: prod_eq_iff)
  ultimately show thesis using that ap(1) by (metis (no_types, lifting) first_reply_def option.simps(5) prod.case)
qed

lemma unread_case:
  assumes "opts_ok opts [u]" "test_env_ok sha api e"
    and "\<And>a. rejections (snd (body_error_status err)) a = 1 \<Longrightarrow> P (error_reply (fst (body_error_status err))) m a"
  shows "case first_reply sha now opts u up m e cr (Inl err) of None \<Rightarrow> False | Some (r, m', a) \<Rightarrow> P r m' a"
  by (rule first_reply_unread [OF assms(1,2), of now up m cr err]) (simp add: assms(3))

section \<open>The tests pass\<close>

lemma default_opts_ok: "opts_ok (default_opts\<lparr>opt_metrics_enabled := b\<rparr>) [m1_url]" "opts_ok default_opts [m1_url]"
  "opts_ok (default_opts\<lparr>opt_read_timeout_secs := 1\<rparr>) [m1_url]" "opts_ok default_opts [m1_url @ ''/'']"
  "opts_ok default_opts [m1_url, m2_url, m3_url]" "opts_ok (default_opts\<lparr>opt_weights := [1, 3]\<rparr>) [m1_url, m2_url]"
  by (simp_all add: opts_ok_def default_opts_def m1_url_def m2_url_def m3_url_def)

lemma urls_trimmed: "trim_end_slashes m1_url = m1_url" "trim_end_slashes m2_url = m2_url" "trim_end_slashes m3_url = m3_url"
  "trim_end_slashes (m1_url @ ''/'') = m1_url"
  by (simp_all add: trim_end_slashes_def m1_url_def m2_url_def m3_url_def)

lemma chat_found: "starts_with (u @ ''/v1/chat/completions'') (u @ ''/'')" "starts_with (u @ ''/v1/completions'') (u @ ''/'')"
  by (simp_all add: starts_with_def)

lemmas mock_simps = mocks_upstream_def completion_def new_mock_def set_stream_def unseen_def post_chat_def chat_found the_default_def

lemmas reply_simps = client_view_def is_event_stream_def filter_headers_filter is_hop_by_hop_def HOP_BY_HOP_def header_get_def
  starts_with_def ascii_trim_start_def Let_def

lemma routes_chat_completion_and_sets_backend_header_passes:
  assumes "test_env_ok sha api e"
  shows "routes_chat_completion_and_sets_backend_header sha now e raw"
  unfolding routes_chat_completion_and_sets_backend_header_def
  by (rule served_case [OF default_opts_ok(2) assms refl]) (simp add: mock_simps urls_trimmed reply_simps)

lemma streaming_response_is_passed_through_as_sse_passes:
  assumes "test_env_ok sha api e"
  shows "streaming_response_is_passed_through_as_sse sha now e raw"
  unfolding streaming_response_is_passed_through_as_sse_def
  by (rule served_case [OF default_opts_ok(2) assms refl]) (simp add: mock_simps urls_trimmed reply_simps)

lemma method_and_auth_header_are_forwarded_unchanged_passes:
  assumes "test_env_ok sha api e"
  shows "method_and_auth_header_are_forwarded_unchanged sha now e"
  unfolding method_and_auth_header_are_forwarded_unchanged_def
  by (rule served_case [OF default_opts_ok(2) assms refl]) (simp add: mock_simps urls_trimmed reply_simps)

lemma upstream_x_router_backend_header_is_replaced_passes:
  assumes "test_env_ok sha api e"
  shows "upstream_x_router_backend_header_is_replaced sha now e raw"
  unfolding upstream_x_router_backend_header_is_replaced_def
  by (rule served_case [OF default_opts_ok(2) assms refl]) (simp add: mock_simps urls_trimmed reply_simps header_values_def)

lemma oversized_body_returns_413_passes:
  assumes "test_env_ok sha api e"
  shows "oversized_body_returns_413 sha now e"
  unfolding oversized_body_returns_413_def
  by (rule unread_case [OF default_opts_ok(2) assms]) (simp add: body_error_status_def error_reply_def unseen_def)

lemma backend_url_with_trailing_slash_still_routes_passes:
  assumes "test_env_ok sha api e"
  shows "backend_url_with_trailing_slash_still_routes sha now e raw"
  unfolding backend_url_with_trailing_slash_still_routes_def
  by (rule served_case [OF default_opts_ok(4) assms refl]) (simp add: mock_simps urls_trimmed reply_simps)

lemma backend_stalling_past_read_timeout_is_a_transport_error_passes:
  assumes "test_env_ok sha api e"
  shows "backend_stalling_past_read_timeout_is_a_transport_error sha now e raw"
  unfolding backend_stalling_past_read_timeout_is_a_transport_error_def
  by (rule served_case [OF default_opts_ok(3) assms refl]) (simp add: client_view_def error_reply_def upstream_outcome_def)

lemma truncated_buffered_body_is_a_stream_error_passes:
  assumes "test_env_ok sha api e"
  shows "truncated_buffered_body_is_a_stream_error sha now e raw"
  unfolding truncated_buffered_body_is_a_stream_error_def
  by (rule served_case [OF default_opts_ok(2) assms refl]) (simp add: reply_simps error_reply_def upstream_outcome_def)

lemma invalid_body_encoding_is_counted_as_bad_body_passes:
  assumes "test_env_ok sha api e"
  shows "invalid_body_encoding_is_counted_as_bad_body sha now e"
  unfolding invalid_body_encoding_is_counted_as_bad_body_def
  by (rule unread_case [OF default_opts_ok(2) assms]) (simp add: body_error_status_def unseen_def)

lemma metrics_endpoint_can_be_disabled_passes: "metrics_endpoint_can_be_disabled sha now"
proof (rule router_started [OF default_opts_ok(1) [of False], of sha now])
  fix ap :: app and cb
  assume "start_test_router sha now (default_opts\<lparr>opt_metrics_enabled := False\<rparr>) [m1_url] = Some ap"
    "app_routes ap = build_router \<lparr>metrics_enabled = opt_metrics_enabled (default_opts\<lparr>opt_metrics_enabled := False\<rparr>),
      metrics_path = ''/metrics''\<rparr>"
  then show ?thesis by (simp add: metrics_endpoint_can_be_disabled_def build_router_def)
qed

text \<open>Rows of requests: every mock answers, and the backends take turns by the slot table.\<close>

lemma mock_answers:
  assumes "url b \<in> set (map fst mocks)" "mocks = [(m1_url, new_mock ''m1''), (m2_url, new_mock ''m2''), (m3_url, new_mock ''m3'')] \<or>
      mocks = [(m1_url, new_mock ''m1''), (m2_url, new_mock ''m2'')]"
  shows "\<exists>hs. answer_of (mocks_upstream (\<lambda>_. False) mocks) b post_chat bytes m = Replied 200 hs (Some ok_body)"
  using assms
  by (auto simp: answer_of_def upstream_request_def mocks_upstream_def completion_def new_mock_def post_chat_def the_default_def
      starts_with_def m1_url_def m2_url_def m3_url_def Let_def split_def)

lemma reply_of_chats:
  "reply_of up (post_chats es raw) urls r \<Longrightarrow>
    \<exists>b bytes m hs full. url b \<in> set urls \<and> answer_of up b post_chat bytes m = Replied (cl_status r) hs (Some full)"
  unfolding reply_of_def post_chats_def by (clarsimp, blast)

lemma mock_counts:
  assumes "url b \<in> set (map fst mocks)" "mocks = [(m1_url, new_mock ''m1''), (m2_url, new_mock ''m2''), (m3_url, new_mock ''m3'')] \<or>
      mocks = [(m1_url, new_mock ''m1''), (m2_url, new_mock ''m2'')]"
  shows "mock_requests (snd (mocks_upstream (\<lambda>_. False) mocks (upstream_request b (cr_method post_chat) (cr_path_and_query post_chat)
      (cr_headers post_chat) raw) book) u) = mock_requests (book u) + of_bool (url b = u)"
  using assms
  by (auto simp: upstream_request_def mocks_upstream_def completion_def new_mock_def post_chat_def the_default_def
      starts_with_def m1_url_def m2_url_def m3_url_def Let_def split_def)

text \<open>A mock counts the requests whose replies carry its URL.\<close>

lemma row_counts:
  assumes "sys_reachable sha api c (a, {#})" and c: "config_ok (\<lambda>_. True) c" "length (cfg_backends c) \<le> 2 ^ 32"
    and ap: "build_app sha client_builds ts c = Inr ap" and "calm a" "serving a \<noteq> []"
    and mocks: "mocks = [(m1_url, new_mock ''m1''), (m2_url, new_mock ''m2''), (m3_url, new_mock ''m3'')] \<or>
       mocks = [(m1_url, new_mock ''m1''), (m2_url, new_mock ''m2'')]"
    and urls: "\<forall>b \<in> set (backends (pool (shared (app_start ap)))). url b \<in> set (map fst mocks)"
    and es: "\<forall>e \<in> set es. test_env_ok sha api e"
    and "exchanges (mocks_upstream (\<lambda>_. False) mocks) (post_chats es raw) (book, a) = (rs, book', a')"
  shows "mock_requests (book' u) = mock_requests (book u) + count_list (map served_by rs) (Some u)"
  using assms(1,5,6,9-)
proof (induction es arbitrary: book a rs)
  case (Cons e es)
  let ?up = "mocks_upstream (\<lambda>_. False) mocks"
  obtain r book1 a1 where ex: "exchange ?up e post_chat (Inr raw) (book, a) = (r, book1, a1)" by (metis prod_cases3)
  obtain rs1 where rest: "exchanges ?up (post_chats es raw) (book1, a1) = (rs1, book', a')" "rs = r # rs1"
    using Cons.prems(5) ex by (auto simp: post_chats_def split: prod.splits)
  have mem: "url b \<in> set (map fst mocks)" if "b \<in> set (backends (pool (shared a)))" for b
    using reachable_urls [OF Cons.prems(1) ap] urls that by (metis in_set_conv_nth nth_mem)
  have "usual_env sha api (\<lambda>_. True) e" using Cons.prems(4) by (simp add: test_env_ok_def)
  moreover have "\<forall>b \<in> set (backends (pool (shared a))). succeeds ?up b post_chat raw book"
    using mock_answers [OF mem mocks] by (fastforce simp: succeeds_def is_success_def)
  ultimately obtain j where j: "j \<in> set (serving a)" "header_get ''x-router-backend'' (cl_headers r) = Some (url (app_backend a j))"
    "sys_reachable sha api c (a1, {#})" "calm a1" "serving a1 = serving a"
    "book1 = snd (?up (upstream_request (app_backend a j) (cr_method post_chat) (cr_path_and_query post_chat) (cr_headers post_chat) raw) book)"
    using calm_step [OF Cons.prems(1) c(1) _ c(2) ap Cons.prems(2,3) _ _ ex] by metis
  have "mock_requests (book' u) = mock_requests (book1 u) + count_list (map served_by rs1) (Some u)"
    using Cons.IH [OF j(3,4) _ _ rest(1)] j(5) Cons.prems(3,4) by simp
  moreover have "mock_requests (book1 u) = mock_requests (book u) + of_bool (url (app_backend a j) = u)"
    unfolding j(6) using serving_range [OF j(1)] by (intro mock_counts mem mocks) simp
  moreover have "served_by r = Some (url (app_backend a j))" using j(2) by (simp add: served_by_def)
  ultimately show ?case using rest(2) by simp
qed (simp add: post_chats_def)

lemma started_row:
  assumes opts: "opts_ok opts urls" and es: "\<forall>e \<in> set es. test_env_ok sha api e"
    and ap: "build_app sha (\<lambda>_ _. True) (\<lambda>_. now) (test_config opts urls) = Inr ap"
    and bs: "backends (pool (shared (app_start ap))) =
       map (\<lambda>(i, u). new_backend i (trim_end_slashes u) (opt_weight opts i) cb) (List.enumerate 0 urls)"
    and cb: "state (inner cb) = Closed" and rr: "strategy_obj (app_start ap) = S_round_robin new_round_robin"
    and mocks: "map trim_end_slashes urls = map fst mocks"
      "mocks = [(m1_url, new_mock ''m1''), (m2_url, new_mock ''m2''), (m3_url, new_mock ''m3'')] \<or>
       mocks = [(m1_url, new_mock ''m1''), (m2_url, new_mock ''m2'')]"
    and few: "length es < 2 ^ 64"
    and run: "exchanges (mocks_upstream (\<lambda>_. False) mocks) (post_chats es raw) (unseen, app_start ap) = (rs, m', a')"
    and table: "tab = concat (map (\<lambda>i. replicate (unat (opt_weight opts i)) i) [0..<length urls])"
    and weights: "\<forall>i < length urls. opt_weight opts i \<noteq> 0"
  shows "(\<forall>r \<in> set rs. cl_status r = 200) \<and>
    (\<forall>u. mock_requests (m' u) =
       count_list (map (\<lambda>k. Some (fst (mocks ! (tab ! (k mod length tab))))) [0..<length es]) (Some u))"
proof -
  let ?a = "app_start ap" and ?c = "test_config opts urls" and ?up = "mocks_upstream (\<lambda>_. False) mocks"
  have n: "num_backends (shared ?a) = length urls" by (simp add: bs)
  have at: "app_backend ?a i = new_backend i (fst (mocks ! i)) (opt_weight opts i) cb" if "i < length urls" for i
    using that arg_cong [OF mocks(1), of "\<lambda>xs. xs ! i"] map_eq_imp_length_eq [OF mocks(1)] by (simp add: bs nth_enumerate_eq)
  have url_mem: "url b \<in> set (map fst mocks)" if "b \<in> set (backends (pool (shared ?a)))" for b
    using that at n map_eq_imp_length_eq [OF mocks(1)] nth_mem [of _ mocks] by (auto simp: in_set_conv_nth [of b] new_backend_def)
  have calm: "calm ?a" using at cb by (simp add: calm_def n new_backend_def)
  have serving: "serving ?a = [0..<length urls]"
  proof -
    have "filter (\<lambda>i. healthy (app_backend ?a i)) [0..<length urls] = [0..<length urls]"
      "filter (within_queue_limit (pool (shared ?a))) [0..<length urls] = [0..<length urls]"
      using at by (simp_all add: filter_id_conv new_backend_def within_queue_limit_def)
    then show ?thesis by (simp add: serving_def n Let_def)
  qed
  have share: "shares (app_backend ?a i) = unat (opt_weight opts i)" if "i < length urls" for i
  proof -
    have "unat (opt_weight opts i) \<noteq> 0" using weights that by (simp add: unat_eq_zero)
    then show ?thesis using at [OF that] by (simp add: shares_def new_backend_def)
  qed
  have ids: "backend_id (app_backend ?a i) = i" if "i < length urls" for i using at [OF that] by (simp add: new_backend_def)
  have turn: "turn ?a = tab"
    unfolding turn_def slots_def serving table map_map
    by (rule arg_cong [where f = concat], rule map_cong) (simp_all add: share ids)
  have ne: "serving ?a \<noteq> []" using opts by (simp add: serving opts_ok_def)
  have answers: "\<forall>b \<in> set (backends (pool (shared ?a))). answers_row ?up (post_chats es raw) b"
    using mock_answers [OF url_mem mocks(2)] by (fastforce simp: answers_row_def post_chats_def succeeds_def is_success_def)
  have env: "\<forall>(e, cr, body) \<in> set (post_chats es raw). usual_env sha api (\<lambda>_. True) e \<and> (\<exists>bytes. body = Inr bytes)"
    using es by (auto simp: post_chats_def test_env_ok_def)
  have len: "length (cfg_backends ?c) \<le> 2 ^ 32" using opts test_config_ok(2) [OF opts] by (simp add: opts_ok_def)
  have row: "map served_by rs = map (\<lambda>k. Some (url (app_backend ?a (turn ?a ! ((unat (counter new_round_robin) + k) mod length (turn ?a))))))
        [0..<length (post_chats es raw)]"
    "\<forall>r \<in> set rs. is_success (cl_status r) \<and> reply_of ?up (post_chats es raw) (map url (backends (pool (shared ?a)))) r"
    using round_robin_row [OF start [OF ap, where api = api] test_config_ok(1) [OF opts] _ len ap calm ne rr answers env _ run] few
    by (simp_all add: new_round_robin_def post_chats_def)
  have "cl_status r = 200" if "r \<in> set rs" for r
  proof -
    have "reply_of ?up (post_chats es raw) (map url (backends (pool (shared ?a)))) r" using row(2) that by simp
    from reply_of_chats [OF this] obtain b bytes m hs full where "url b \<in> set (map url (backends (pool (shared ?a))))"
      "answer_of ?up b post_chat bytes m = Replied (cl_status r) hs (Some full)" by blast
    then show ?thesis using mock_answers [of b mocks bytes m, OF _ mocks(2)] url_mem by auto
  qed
  moreover have "url (app_backend ?a (tab ! (k mod length tab))) = fst (mocks ! (tab ! (k mod length tab)))" for k
  proof -
    have "set tab = set (serving ?a)" using set_turn turn sys_reachable_ok [OF start [OF ap, where api = api] len] by blast
    moreover from this have "0 < length tab" using ne by (metis length_greater_0_conv set_empty)
    ultimately have "tab ! (k mod length tab) < length urls" using serving nth_mem [of "k mod length tab" tab] by simp
    then show ?thesis using at by (simp add: new_backend_def)
  qed
  moreover have "mock_requests (m' u) = count_list (map served_by rs) (Some u)" for u
    using row_counts [OF start [OF ap, where api = api] test_config_ok(1) [OF opts] len ap calm ne mocks(2) _ es run, of u] url_mem
    by (simp add: unseen_def)
  ultimately show ?thesis using row(1) by (simp add: turn new_round_robin_def post_chats_def)
qed

lemma round_robin_cycles_across_backends_passes:
  assumes "\<forall>e \<in> set es. test_env_ok sha api e" "length es = 12"
  shows "round_robin_cycles_across_backends sha now es raw"
proof (rule router_started [OF default_opts_ok(5), of sha now])
  fix ap cb
  let ?mocks = "[(m1_url, new_mock ''m1''), (m2_url, new_mock ''m2''), (m3_url, new_mock ''m3'')]"
  assume ap: "start_test_router sha now default_opts [m1_url, m2_url, m3_url] = Some ap"
    "build_app sha (\<lambda>_ _. True) (\<lambda>_. now) (test_config default_opts [m1_url, m2_url, m3_url]) = Inr ap"
    and a: "backends (pool (shared (app_start ap))) =
       map (\<lambda>(i, u). new_backend i (trim_end_slashes u) (opt_weight default_opts i) cb) (List.enumerate 0 [m1_url, m2_url, m3_url])"
    "state (inner cb) = Closed" "strategy_obj (app_start ap) = S_round_robin new_round_robin"
  obtain rs m' a' where run: "exchanges (mocks_upstream (\<lambda>_. False) ?mocks) (post_chats es raw) (unseen, app_start ap) = (rs, m', a')"
    by (metis prod_cases3)
  have "(\<forall>r \<in> set rs. cl_status r = 200) \<and>
      (\<forall>u. mock_requests (m' u) = count_list (map (\<lambda>k. Some (fst (?mocks ! ([0, 1, 2] ! (k mod length [0, 1, 2 :: nat]))))) [0..<length es]) (Some u))"
    by (rule started_row [OF default_opts_ok(5) assms(1) ap(2) a _ _ _ run])
      (simp_all add: urls_trimmed assms(2) opt_weight_def default_opts_def upt_rec)
  moreover have "[0..<12] = [0, 1, 2, 3, 4, 5, 6, 7, 8, 9, 10, 11 :: nat]" by (simp add: upt_rec)
  ultimately show ?thesis
    using assms(2) ap(1) run by (simp add: round_robin_cycles_across_backends_def m1_url_def m2_url_def m3_url_def)
qed

lemma weighted_round_robin_follows_config_passes:
  assumes "\<forall>e \<in> set es. test_env_ok sha api e" "length es = 8"
  shows "weighted_round_robin_follows_config sha now es raw"
proof (rule router_started [OF default_opts_ok(6), of sha now])
  fix ap cb
  let ?mocks = "[(m1_url, new_mock ''m1''), (m2_url, new_mock ''m2'')]" and ?opts = "default_opts\<lparr>opt_weights := [1, 3]\<rparr>"
  assume ap: "start_test_router sha now ?opts [m1_url, m2_url] = Some ap"
    "build_app sha (\<lambda>_ _. True) (\<lambda>_. now) (test_config ?opts [m1_url, m2_url]) = Inr ap"
    and a: "backends (pool (shared (app_start ap))) =
       map (\<lambda>(i, u). new_backend i (trim_end_slashes u) (opt_weight ?opts i) cb) (List.enumerate 0 [m1_url, m2_url])"
    "state (inner cb) = Closed" "strategy_obj (app_start ap) = S_round_robin new_round_robin"
  obtain rs m' a' where run: "exchanges (mocks_upstream (\<lambda>_. False) ?mocks) (post_chats es raw) (unseen, app_start ap) = (rs, m', a')"
    by (metis prod_cases3)
  have three: "replicate 3 (Suc 0) = [Suc 0, Suc 0, Suc 0]" by (simp add: numeral_3_eq_3)
  have "(\<forall>r \<in> set rs. cl_status r = 200) \<and>
      (\<forall>u. mock_requests (m' u) = count_list (map (\<lambda>k. Some (fst (?mocks ! ([0, 1, 1, 1] ! (k mod length [0, 1, 1, 1 :: nat]))))) [0..<length es]) (Some u))"
    by (rule started_row [OF default_opts_ok(6) assms(1) ap(2) a _ _ _ run])
      (simp_all add: urls_trimmed assms(2) opt_weight_def default_opts_def upt_rec less_Suc_eq three)
  moreover have "[0..<8] = [0, 1, 2, 3, 4, 5, 6, 7 :: nat]" by (simp add: upt_rec)
  ultimately show ?thesis
    using assms(2) ap(1) run by (simp add: weighted_round_robin_follows_config_def m1_url_def m2_url_def m3_url_def)
qed

end
