(* ===== verification/Spec2Isabelle.thy ===== *)
theory Spec2Isabelle
  imports Config_Tests Accounting_Tests Spread_Tests Proxy_Tests Overflows Scrape EndToEnd_Tests
begin

text \<open>
  \<^bold>\<open>The distributed inference router.\<close> The router (the crate under router-core) accepts
  OpenAI-style completion requests and forwards each to one of several vLLM backends. A
  request passes admission control, is given a backend by the configured strategy among those
  that are healthy and whose circuit breaker admits it, is forwarded, and is accounted when
  its response ends, which for a stream is long after the handler returned. A background task
  probes and scrapes the backends; a metrics endpoint exports the state. This library models
  every file of router-core/src but the module list lib.rs, and proves what makes the parts
  and their interplay correct.

  \<^bold>\<open>Conventions.\<close> Machine integers are words of their width (u64, usize, u32, u16) and wrap
  where the code's operators wrap. A floating-point number is a value of the type f64 of the
  theory F64: a rational that binary64 represents, an infinity or NaN, with round-to-nearest-even
  arithmetic. Instants and durations are nanosecond counts; every clock reading is an
  argument, so a theorem holds for all readings, in order or not, unless it says otherwise.
  A method that holds a lock, and an operation on one atomic, is one transformer of the state;
  a shared reference to a backend is its position in the pool. A fallible function returns an
  option or a sum. Third-party code is a parameter: SHA-256, the JSON accessors, the YAML
  parser, the check of header values, the HTTP client, the encoder of metrics, the file
  system and the socket, and the random draw.

  \<^bold>\<open>The theories\<close>, each with the file of router-core/src it models:

  \<^item> Prelude: words, lists, options, decimal numbers; the collection \<open>frame_simps\<close> of facts that
    say what an operation leaves alone. F64: binary64; the locale \<open>faithful_rounding\<close> gives the
    bounds on rounding that the other theories use.
  \<^item> Circuit_Breaker (circuit_breaker.rs): the ring of one-second buckets, the three states, the
    probe. The locale \<open>probe_gate\<close> is the contract with the holders of admissions. At most one
    probe is out in every interleaving; only its success closes the circuit; the ring refines a
    log of verdicts cut at the window; the trip decision in floating point opens the circuit
    whenever the written threshold is reached, and is exact at one half; an open circuit recovers.
  \<^item> Breaker_Spec: an abstract breaker that only keeps when it tripped, whether the probe is out and
    the log of verdicts; a simulation shows that the breaker of the code answers as it does.
  \<^item> Backend (backend.rs): counters, latency estimate, the pool and its routable set, specified
    and bounded.
  \<^item> Backpressure (backpressure.rs): permits; the locale \<open>slot_budget\<close> is the contract with
    those who hold them.
  \<^item> Routing, Round_Robin, Least_Loaded, Ring, Prefix_Cache, Latency_Aware, Strategies (routing/):
    the locale \<open>routing_strategy\<close> is the contract of a strategy (one of the offered backends,
    none only from an empty offer), interpreted on each strategy and on the dispatch; then what
    is special to each: fair turns, first minimum, nearest point of the ring, the exact number of
    keys of each backend and which of them move when it leaves, affinity of prefixes while backends
    leave and join, agreement with round robin at equal latencies and
    otherwise one interval of draws per backend, in spite of rounding.
  \<^item> Latency_Shares: that interval is the exact share of the backend, its weight over its latency,
    less at most (4 n + 1) / 2^51 at each end for n backends; so in a row of draws a backend is selected
    in proportion to its share, up to the unevenness of the draws.
  \<^item> Metrics (metrics.rs): registrations, calls as a log, gauges read back from it. Router_State:
    what the tasks share.
  \<^item> Accounting (accounting.rs): the guard, its verdict, the accounted stream. A stream is accounted
    exactly once whatever happens around it. The drop of a guard is also given in its atomic steps
    (\<open>settle_step\<close>), which without interference make up \<open>drop_accounting\<close>.
  \<^item> Config, Listen (config.rs): sections, defaults, validation as the set of its conditions, the
    listening address through the grammar of socket addresses, with every host that is no address.
  \<^item> Health (health.rs): hysteresis, the scrape parser down to the grammar of floating-point
    numbers, rounds of checks and the loop that repeats them. Scrape: what a backend prints in the
    format of vLLM, as the mock backend of the tests does, is what the scrape stores.
  \<^item> Proxy (proxy.rs): header filtering, the forwarded request and reply.
  \<^item> Server (server.rs): the handlers. \<open>proxy_handler\<close> is cut at its suspension points into
    \<open>handler_admit\<close>, \<open>handler_route\<close> and \<open>handler_reply\<close>, and below that at its operations on shared
    state: the scan of the pool asks one breaker or reads one queue depth at a time, a selection
    works on views of the backends that may be torn, and other threads act in between
    (\<open>sync_point\<close>). Selection is sound under interference, complete without it, and makes at most one
    turn per candidate.
  \<^item> App (app.rs): startup from a configuration; what validation accepts always starts.
  \<^item> System: the running router as a transition system over the shared state and the multiset of
    requests in flight, from the initial states that \<open>build_app\<close> gives. A step is one atomic
    operation of one request (on the controller, a breaker, a counter or a latency estimate, with the
    calls on the metrics next to it), the arrival of a request, or one operation of the health
    checker or of a metrics scrape. Its invariant \<open>sys_ok\<close> says that the shared counters are exactly
    what the requests hold; \<open>moves\<close> is what one step of one request has to do to them, and there is
    a lemma per step.
  \<^item> Progress: the measure \<open>work\<close> of a request, which every step but a poll of an open stream lowers,
    and from it that no request is stuck, that every state drains by steps of its own requests
    (\<open>request_step\<close>: no arrival, no background task, no client that goes away), and how many
    operations a request makes when it is followed through an interleaved run (\<open>followed\<close>).
  \<^item> Handler_Runs: a pass of the proxy handler, with arbitrary interferences at its synchronisation
    points, is a sequence of atomic steps and of these interferences (\<open>pass_run\<close>). When other requests
    make them (\<open>crowd_makes\<close>), arriving, advancing and ending in between, the whole is a run of the
    system. The answer of a backend, a poll, a cancellation, a round of checks and a scrape are
    runs of it when nothing interrupts them.
  \<^item> System_Runs: consequences for every reachable state. Counters are exact and within the limit,
    one probe per backend in the whole router, nothing leaks once the requests are gone, requests
    end, all positions are in range, and a scrape that nothing interrupts reports the true numbers
    (for two backends with one URL, which validation accepts, those of the later one).
  \<^item> Exchange: one request from the client's call to the end of the response, with a backend that is
    an arbitrary state machine, when nothing runs in between. An exchange is a run of System; what
    the client gets is given in every case, and the router is left as it was found. The requests the
    backend receives are recorded: at most one goes out, with method, body, path and headers of the
    client but for eleven names that are written out, and its reply comes back in the same way.
  \<^item> Fault_Isolation: a row of exchanges with backends that are dead. The breaker of a dead backend is
    followed through its abstract form, and the number of failed requests is bounded. Once the backends
    answer again, the next request after the open duration is served and closes a circuit.
  \<^item> Service: a row of exchanges in a router with closed circuits, whose backends answer, is the row
    of choices of its strategy; for round robin, each backend serves its weight of every turn, as
    the clients see it.
  \<^item> Entry (main.rs): startup with each of its early returns, up to an initial state of System.
  \<^item> Breaker_Tests, Pool_Tests, Routing_Tests, Health_Tests, Proxy_Tests, Accounting_Tests,
    Config_Tests, on the fixtures of Test_Support: the unit tests of the source files, translated
    one by one into predicates under the names they have in the code, each proved to hold. The
    tests of the breaker are scripts of calls that are evaluated on the abstract breaker.
    Config_Tests also gives the texts of the configuration errors. Spread_Tests holds the tests that
    count how random draws or hashed keys spread: the former pass for every sufficiently even row of
    draws, the latter are reduced to how many digests fall into which arcs. EndToEnd_Tests holds the
    tests of router-core/tests that send one request after another, with the mock backend. Overflows: what
    unchecked or truncated machine numbers make of the prefix limit, of the queue depth gauge and of
    the cache usage.

  \<^bold>\<open>Loops and bounds.\<close> Every definition is total, so no fuel is used. The selection loop ends
  because a refused candidate leaves the list; the loops over buckets, backends, lines and
  headers are folds or structural. Pools have at most 2^32 backends where a theorem needs
  the sum of their weights to fit 64 bits. Runs of the router are unbounded.

  \<^bold>\<open>What the theorems do not cover.\<close> The futures runtime is the set of interleavings of the
  steps of System; fairness is not assumed, so liveness is stated as what is possible from every
  state or as what the next call does. The stores of one health check are one step for each
  backend; only the checker writes them, and a reader that sees a part of them is covered by the
  torn views of the selection. The trip decision is characterised up to one rounding at a general
  threshold and exactly at the default one half.

  \<^bold>\<open>Not modelled.\<close> Log messages; the text encoding of metrics; routing of paths and the body limit
  inside axum; connection pooling; the time between two rounds of health checks and the timeouts of
  their requests; SHA-256 itself, so the tests that count hashed keys are not evaluated;
  the end-to-end tests that need simultaneous requests, pauses or a background health check, the
  Python tests and mock backend, benchmarks and deployment files, which hold none of the router's logic.
\<close>

end
